(* ===== verification/Consensus_Types.thy ===== *)
theory Consensus_Types
  imports Lighthouse_Prelude
begin

text \<open>
  The consensus data structures of \<open>consensus/types/src\<close> that several components read:
  checkpoints, attestation data and block headers, with the fields of the source.
\<close>

record checkpoint =
  cp_epoch :: epoch
  cp_root :: hash256

record attestation_data =
  ad_slot :: slot
  ad_index :: u64
  ad_beacon_block_root :: hash256
  ad_source :: checkpoint
  ad_target :: checkpoint

record beacon_block_header =
  bh_slot :: slot
  bh_proposer_index :: u64
  bh_parent_root :: hash256
  bh_state_root :: hash256
  bh_body_root :: hash256

text \<open>
  \<open>SignedRoot::signing_root\<close>: the tree hash of the object together with the domain. Tree
  hashing is code of a dependency, so the operations that sign take it as an argument.
\<close>

type_synonym 'a signing_root_fn = "'a \<Rightarrow> hash256 \<Rightarrow> hash256"

end
