(* ===== verification/Slashing_Database.thy ===== *)
theory Slashing_Database
  imports Consensus_Types
begin

text \<open>
  The validator client's slashing protection database
  (\<open>validator_client/slashing_protection/src/slashing_database.rs\<close>): the three SQLite tables as
  lists of rows, every SQL statement of the source as a list operation, the checks, the inserts,
  registration, pruning, and the import and export of EIP-3076 interchange data. Columns of SQL
  type INTEGER are signed, so slots and epochs pass through the conversions of
  \<open>consensus/types/src/core/sqlite.rs\<close>. A public key is identified with the hexadecimal string
  that the \<open>validators\<close> table stores for it. The connection pool, the start of a transaction and
  its commit belong to SQLite and r2d2: whether they succeed is an argument of every public
  operation.
\<close>

section \<open>Data\<close>

type_synonym pubkey = "u8 list"
type_synonym validator_id = int

text \<open>\<open>SigningRoot\<close>: a hash where zero is a null that equals nothing, not even itself.\<close>

datatype signing_root = SigningRoot hash256

fun is_null :: "signing_root \<Rightarrow> bool" where
  "is_null (SigningRoot h) \<longleftrightarrow> h = 0"

fun to_hash256_raw :: "signing_root \<Rightarrow> hash256" where
  "to_hash256_raw (SigningRoot h) = h"

definition to_hash256 :: "signing_root \<Rightarrow> hash256 option" where
  "to_hash256 r = (if \<not> is_null r then Some (to_hash256_raw r) else None)"

definition signing_root_eq :: "signing_root \<Rightarrow> signing_root \<Rightarrow> bool" where
  "signing_root_eq a b \<longleftrightarrow> \<not> is_null a \<and> to_hash256_raw a = to_hash256_raw b"

definition default_signing_root :: signing_root where
  "default_signing_root = SigningRoot 0"

record signed_block =
  sb_slot :: slot
  sb_signing_root :: signing_root

record signed_attestation =
  sa_source_epoch :: epoch
  sa_target_epoch :: epoch
  sa_signing_root :: signing_root

datatype invalid_block =
    DoubleBlockProposal signed_block
  | SlotViolatesLowerBound slot slot

datatype invalid_attestation =
    DoubleVote signed_attestation
  | NewSurroundsPrev signed_attestation
  | PrevSurroundsNew signed_attestation
  | SourceExceedsTarget
  | SourceLessThanLowerBound epoch epoch
  | TargetLessThanOrEqLowerBound epoch epoch

text \<open>
  The source keeps SQL errors as their printed text; the model keeps the cause: a value that
  does not fit an SQL INTEGER, a stored value that is not a \<open>u64\<close>, a broken UNIQUE constraint,
  or a transaction that SQLite refuses to begin or to commit.
\<close>

datatype sql_error =
    ToSqlConversionFailure
  | FromSqlConversionFailure
  | UniqueConstraint
  | BeginFailure
  | CommitFailure

datatype not_safe =
    UnregisteredValidator pubkey
  | DisabledValidator pubkey
  | InvalidBlock invalid_block
  | InvalidAttestation invalid_attestation
  | SQLError sql_error
  | SQLPoolError
  | ConsistencyError

datatype safe = SameData | Valid

datatype check_slashability = CheckYes | CheckNo

text \<open>The tables created by \<open>SlashingDatabase::create\<close> after the schema migration.\<close>

record validator_row =
  vr_id :: validator_id
  vr_public_key :: pubkey
  vr_enabled :: bool

record block_row =
  br_validator_id :: validator_id
  br_slot :: int
  br_signing_root :: hash256

record attestation_row =
  ar_validator_id :: validator_id
  ar_source_epoch :: int
  ar_target_epoch :: int
  ar_signing_root :: hash256

record slashing_db =
  validators :: "validator_row list"
  signed_blocks :: "block_row list"
  signed_attestations :: "attestation_row list"

definition empty_db :: slashing_db where
  "empty_db = \<lparr>validators = [], signed_blocks = [], signed_attestations = []\<rparr>"

type_synonym 'a txn = "(slashing_db, 'a, not_safe) op"

section \<open>SQL values and queries\<close>

definition to_sql :: "u64 \<Rightarrow> (int, not_safe) result" where
  "to_sql x = (if uint x < 2 ^ 63 then Ok (uint x) else Err (SQLError ToSqlConversionFailure))"

definition column_result :: "int \<Rightarrow> (u64, not_safe) result" where
  "column_result i = (if 0 \<le> i then Ok (word_of_int i) else Err (SQLError FromSqlConversionFailure))"

text \<open>An aggregate column is NULL when no row matches.\<close>

definition column_opt :: "int option \<Rightarrow> (u64 option, not_safe) result" where
  "column_opt v = (case v of None \<Rightarrow> Ok None | Some i \<Rightarrow> bindE (column_result i) (\<lambda>x. Ok (Some x)))"

definition sql_min :: "int list \<Rightarrow> int option" where
  "sql_min xs = (if xs = [] then None else Some (Min (set xs)))"

definition sql_max :: "int list \<Rightarrow> int option" where
  "sql_max xs = (if xs = [] then None else Some (Max (set xs)))"

text \<open>\<open>query_row(..).optional()\<close>: the first row of the answer, if there is one.\<close>

definition query_row_optional ::
  "('r \<Rightarrow> ('a, not_safe) result) \<Rightarrow> 'r list \<Rightarrow> ('a option, not_safe) result" where
  "query_row_optional from_row rows =
     (case rows of [] \<Rightarrow> Ok None | r # _ \<Rightarrow> bindE (from_row r) (\<lambda>x. Ok (Some x)))"

definition signed_block_from_row :: "block_row \<Rightarrow> (signed_block, not_safe) result" where
  "signed_block_from_row r =
     bindE (column_result (br_slot r)) (\<lambda>slot.
     Ok \<lparr>sb_slot = slot, sb_signing_root = SigningRoot (br_signing_root r)\<rparr>)"

definition signed_attestation_from_row ::
  "attestation_row \<Rightarrow> (signed_attestation, not_safe) result" where
  "signed_attestation_from_row r =
     bindE (column_result (ar_source_epoch r)) (\<lambda>source.
     bindE (column_result (ar_target_epoch r)) (\<lambda>target.
     Ok \<lparr>sa_source_epoch = source, sa_target_epoch = target,
         sa_signing_root = SigningRoot (ar_signing_root r)\<rparr>))"

text \<open>The rows of one validator.\<close>

definition blocks_of :: "slashing_db \<Rightarrow> validator_id \<Rightarrow> block_row list" where
  "blocks_of db v = filter (\<lambda>r. br_validator_id r = v) (signed_blocks db)"

definition attestations_of :: "slashing_db \<Rightarrow> validator_id \<Rightarrow> attestation_row list" where
  "attestations_of db v = filter (\<lambda>r. ar_validator_id r = v) (signed_attestations db)"

section \<open>Transactions\<close>

record sql_env =
  pool_get :: bool
  txn_begin :: bool
  txn_commit :: bool

text \<open>
  \<open>with_transaction\<close>, and the same pattern written out in every public operation: a connection
  from the pool, an exclusive transaction, the body, the commit. When the body fails the
  transaction is dropped, which rolls it back.
\<close>

definition with_transaction :: "sql_env \<Rightarrow> 'a txn \<Rightarrow> 'a txn" where
  "with_transaction env f db =
     (if \<not> pool_get env then (Err SQLPoolError, db)
      else if \<not> txn_begin env then (Err (SQLError BeginFailure), db)
      else case f db of
        (Inl e, _) \<Rightarrow> (Err e, db)
      | (Inr a, db') \<Rightarrow>
          if txn_commit env then (Ok a, db') else (Err (SQLError CommitFailure), db))"

text \<open>A transaction that is opened to read and dropped without a commit.\<close>

definition with_read_transaction ::
  "sql_env \<Rightarrow> (slashing_db \<Rightarrow> ('a, not_safe) result) \<Rightarrow> slashing_db \<Rightarrow> ('a, not_safe) result" where
  "with_read_transaction env f db =
     (if \<not> pool_get env then Err SQLPoolError
      else if \<not> txn_begin env then Err (SQLError BeginFailure)
      else f db)"

section \<open>Validators\<close>

definition get_validator_id_with_status ::
  "slashing_db \<Rightarrow> pubkey \<Rightarrow> ((validator_id \<times> bool) option, not_safe) result" where
  "get_validator_id_with_status db pk =
     query_row_optional (\<lambda>r. Ok (vr_id r, vr_enabled r))
       (filter (\<lambda>r. vr_public_key r = pk) (validators db))"

definition get_validator_id_in_txn ::
  "slashing_db \<Rightarrow> pubkey \<Rightarrow> (validator_id, not_safe) result" where
  "get_validator_id_in_txn db pk =
     bindE (get_validator_id_with_status db pk) (\<lambda>found.
     bindE (ok_or (UnregisteredValidator pk) found) (\<lambda>(validator_id, enabled).
     if enabled then Ok validator_id else Err (DisabledValidator pk)))"

definition get_validator_id_ignoring_status ::
  "slashing_db \<Rightarrow> pubkey \<Rightarrow> (validator_id, not_safe) result" where
  "get_validator_id_ignoring_status db pk =
     bindE (get_validator_id_with_status db pk) (\<lambda>found.
     bindE (ok_or (UnregisteredValidator pk) found) (\<lambda>(validator_id, _). Ok validator_id))"

definition get_validator_id ::
  "sql_env \<Rightarrow> slashing_db \<Rightarrow> pubkey \<Rightarrow> (validator_id, not_safe) result" where
  "get_validator_id env db pk = with_read_transaction env (\<lambda>d. get_validator_id_in_txn d pk) db"

text \<open>An INTEGER PRIMARY KEY left out of an INSERT is one more than the largest in the table.\<close>

definition next_rowid :: "slashing_db \<Rightarrow> validator_id" where
  "next_rowid db = (case sql_max (map vr_id (validators db)) of None \<Rightarrow> 1 | Some m \<Rightarrow> m + 1)"

definition insert_validator :: "pubkey \<Rightarrow> unit txn" where
  "insert_validator pk db =
     (if \<exists>r \<in> set (validators db). vr_public_key r = pk
      then (Err (SQLError UniqueConstraint), db)
      else (Ok (), db\<lparr>validators := validators db @
              [\<lparr>vr_id = next_rowid db, vr_public_key = pk, vr_enabled = True\<rparr>]\<rparr>))"

definition update_validator_status :: "validator_id \<Rightarrow> bool \<Rightarrow> unit txn" where
  "update_validator_status v status db =
     (Ok (), db\<lparr>validators :=
        map (\<lambda>r. if vr_id r = v then r\<lparr>vr_enabled := status\<rparr> else r) (validators db)\<rparr>)"

definition register_validator_in_txn :: "pubkey \<Rightarrow> unit txn" where
  "register_validator_in_txn pk =
     op_bind (op_read (\<lambda>db. get_validator_id_with_status db pk)) (\<lambda>found.
       case found of
         None \<Rightarrow> insert_validator pk
       | Some (v, False) \<Rightarrow> update_validator_status v True
       | Some (_, True) \<Rightarrow> op_return ())"

definition register_validators_in_txn :: "pubkey list \<Rightarrow> unit txn" where
  "register_validators_in_txn pks = op_for_each register_validator_in_txn pks"

definition register_validators :: "sql_env \<Rightarrow> pubkey list \<Rightarrow> unit txn" where
  "register_validators env pks = with_transaction env (register_validators_in_txn pks)"

definition register_validator :: "sql_env \<Rightarrow> pubkey \<Rightarrow> unit txn" where
  "register_validator env pk = register_validators env [pk]"

definition check_validator_registrations ::
  "sql_env \<Rightarrow> pubkey list \<Rightarrow> slashing_db \<Rightarrow> (unit, not_safe) result" where
  "check_validator_registrations env pks =
     with_read_transaction env (\<lambda>db.
       try_fold (\<lambda>_ pk. bindE (get_validator_id_in_txn db pk) (\<lambda>_. Ok ())) () pks)"

definition list_all_registered_validators :: "slashing_db \<Rightarrow> (validator_id \<times> pubkey) list" where
  "list_all_registered_validators db =
     map (\<lambda>r. (vr_id r, vr_public_key r)) (sort_key vr_id (validators db))"

definition num_validator_rows :: "sql_env \<Rightarrow> slashing_db \<Rightarrow> (nat, not_safe) result" where
  "num_validator_rows env db = with_read_transaction env (\<lambda>d. Ok (length (validators d))) db"

section \<open>Checks\<close>

definition check_block_proposal ::
  "slashing_db \<Rightarrow> pubkey \<Rightarrow> slot \<Rightarrow> signing_root \<Rightarrow> (safe, not_safe) result" where
  "check_block_proposal db pk slot root =
     bindE (get_validator_id_in_txn db pk) (\<lambda>v.
     bindE (to_sql slot) (\<lambda>sql_slot.
     bindE (query_row_optional signed_block_from_row
              (filter (\<lambda>r. br_slot r = sql_slot) (blocks_of db v))) (\<lambda>existing_block.
     case existing_block of
       Some existing_block \<Rightarrow>
         if signing_root_eq (sb_signing_root existing_block) root then Ok SameData
         else Err (InvalidBlock (DoubleBlockProposal existing_block))
     | None \<Rightarrow>
         bindE (column_opt (sql_min (map br_slot (blocks_of db v)))) (\<lambda>min_slot.
         case min_slot of
           Some min_slot \<Rightarrow>
             if slot \<le> min_slot
             then Err (InvalidBlock (SlotViolatesLowerBound slot min_slot))
             else Ok Valid
         | None \<Rightarrow> Ok Valid))))"

text \<open>\<open>ORDER BY target_epoch DESC LIMIT 1\<close>.\<close>

definition latest_target_first :: "attestation_row list \<Rightarrow> attestation_row list" where
  "latest_target_first rows = take 1 (sort_key (\<lambda>r. - ar_target_epoch r) rows)"

definition check_attestation ::
  "slashing_db \<Rightarrow> pubkey \<Rightarrow> epoch \<Rightarrow> epoch \<Rightarrow> signing_root \<Rightarrow> (safe, not_safe) result" where
  "check_attestation db pk source target root =
     (if target < source then Err (InvalidAttestation SourceExceedsTarget) else
     bindE (get_validator_id_in_txn db pk) (\<lambda>v.
     bindE (to_sql target) (\<lambda>sql_target.
     bindE (query_row_optional signed_attestation_from_row
              (filter (\<lambda>r. ar_target_epoch r = sql_target) (attestations_of db v))) (\<lambda>same_target_att.
     case same_target_att of
       Some existing_attestation \<Rightarrow>
         if signing_root_eq (sa_signing_root existing_attestation) root then Ok SameData
         else Err (InvalidAttestation (DoubleVote existing_attestation))
     | None \<Rightarrow>
     bindE (to_sql source) (\<lambda>sql_source.
     bindE (query_row_optional signed_attestation_from_row
              (latest_target_first
                (filter (\<lambda>r. ar_source_epoch r < sql_source \<and> ar_target_epoch r > sql_target)
                  (attestations_of db v)))) (\<lambda>surrounding_attestation.
     case surrounding_attestation of
       Some prev \<Rightarrow> Err (InvalidAttestation (PrevSurroundsNew prev))
     | None \<Rightarrow>
     bindE (query_row_optional signed_attestation_from_row
              (latest_target_first
                (filter (\<lambda>r. ar_source_epoch r > sql_source \<and> ar_target_epoch r < sql_target)
                  (attestations_of db v)))) (\<lambda>surrounded_attestation.
     case surrounded_attestation of
       Some prev \<Rightarrow> Err (InvalidAttestation (NewSurroundsPrev prev))
     | None \<Rightarrow>
     bindE (column_opt (sql_min (map ar_source_epoch (attestations_of db v)))) (\<lambda>min_source.
     if (case min_source of Some m \<Rightarrow> source < m | None \<Rightarrow> False)
     then Err (InvalidAttestation (SourceLessThanLowerBound source (the min_source)))
     else
     bindE (column_opt (sql_min (map ar_target_epoch (attestations_of db v)))) (\<lambda>min_target.
     if (case min_target of Some m \<Rightarrow> target \<le> m | None \<Rightarrow> False)
     then Err (InvalidAttestation (TargetLessThanOrEqLowerBound target (the min_target)))
     else Ok Valid)))))))))"

section \<open>Inserts\<close>

definition insert_block_proposal :: "pubkey \<Rightarrow> slot \<Rightarrow> signing_root \<Rightarrow> unit txn" where
  "insert_block_proposal pk slot root db =
     (case bindE (get_validator_id_in_txn db pk) (\<lambda>v.
           bindE (to_sql slot) (\<lambda>s. Ok (v, s))) of
        Inl e \<Rightarrow> (Err e, db)
      | Inr (v, s) \<Rightarrow>
          if \<exists>r \<in> set (blocks_of db v). br_slot r = s
          then (Err (SQLError UniqueConstraint), db)
          else (Ok (), db\<lparr>signed_blocks := signed_blocks db @
                 [\<lparr>br_validator_id = v, br_slot = s, br_signing_root = to_hash256_raw root\<rparr>]\<rparr>))"

definition insert_attestation ::
  "pubkey \<Rightarrow> epoch \<Rightarrow> epoch \<Rightarrow> signing_root \<Rightarrow> unit txn" where
  "insert_attestation pk source target root db =
     (case bindE (get_validator_id_in_txn db pk) (\<lambda>v.
           bindE (to_sql source) (\<lambda>s. bindE (to_sql target) (\<lambda>t. Ok (v, s, t)))) of
        Inl e \<Rightarrow> (Err e, db)
      | Inr (v, s, t) \<Rightarrow>
          if \<exists>r \<in> set (attestations_of db v). ar_target_epoch r = t
          then (Err (SQLError UniqueConstraint), db)
          else (Ok (), db\<lparr>signed_attestations := signed_attestations db @
                 [\<lparr>ar_validator_id = v, ar_source_epoch = s, ar_target_epoch = t,
                   ar_signing_root = to_hash256_raw root\<rparr>]\<rparr>))"

section \<open>Check and insert\<close>

definition check_and_insert_block_signing_root_txn ::
  "pubkey \<Rightarrow> slot \<Rightarrow> signing_root \<Rightarrow> safe txn" where
  "check_and_insert_block_signing_root_txn pk slot root =
     op_bind (op_read (\<lambda>db. check_block_proposal db pk slot root)) (\<lambda>safe.
     op_bind (if safe \<noteq> SameData then insert_block_proposal pk slot root else op_return ()) (\<lambda>_.
     op_return safe))"

definition check_and_insert_block_signing_root ::
  "sql_env \<Rightarrow> pubkey \<Rightarrow> slot \<Rightarrow> signing_root \<Rightarrow> safe txn" where
  "check_and_insert_block_signing_root env pk slot root =
     with_transaction env (check_and_insert_block_signing_root_txn pk slot root)"

definition preliminary_check_block_signing_root ::
  "sql_env \<Rightarrow> pubkey \<Rightarrow> slot \<Rightarrow> signing_root \<Rightarrow> slashing_db \<Rightarrow> (safe, not_safe) result" where
  "preliminary_check_block_signing_root env pk slot root =
     with_read_transaction env (\<lambda>db. check_block_proposal db pk slot root)"

definition check_and_insert_attestation_signing_root_txn ::
  "pubkey \<Rightarrow> epoch \<Rightarrow> epoch \<Rightarrow> signing_root \<Rightarrow> safe txn" where
  "check_and_insert_attestation_signing_root_txn pk source target root =
     op_bind (op_read (\<lambda>db. check_attestation db pk source target root)) (\<lambda>safe.
     op_bind (if safe \<noteq> SameData then insert_attestation pk source target root else op_return ()) (\<lambda>_.
     op_return safe))"

definition check_and_insert_attestation_signing_root ::
  "pubkey \<Rightarrow> epoch \<Rightarrow> epoch \<Rightarrow> signing_root \<Rightarrow> safe txn" where
  "check_and_insert_attestation_signing_root pk source target root =
     op_bind (check_and_insert_attestation_signing_root_txn pk source target root) op_return"

definition preliminary_check_attestation_signing_root ::
  "sql_env \<Rightarrow> pubkey \<Rightarrow> epoch \<Rightarrow> epoch \<Rightarrow> signing_root \<Rightarrow> slashing_db \<Rightarrow> (safe, not_safe) result" where
  "preliminary_check_attestation_signing_root env pk source target root =
     with_read_transaction env (\<lambda>db. check_attestation db pk source target root)"

text \<open>The same operations on the messages themselves, whose signing root is computed first.\<close>

definition check_and_insert_block_proposal ::
  "beacon_block_header signing_root_fn \<Rightarrow> sql_env \<Rightarrow> pubkey \<Rightarrow> beacon_block_header \<Rightarrow> hash256 \<Rightarrow> safe txn"
  where
  "check_and_insert_block_proposal signing_root env pk header domain =
     check_and_insert_block_signing_root env pk (bh_slot header)
       (SigningRoot (signing_root header domain))"

definition preliminary_check_block_proposal ::
  "beacon_block_header signing_root_fn \<Rightarrow> sql_env \<Rightarrow> pubkey \<Rightarrow> beacon_block_header \<Rightarrow> hash256
    \<Rightarrow> slashing_db \<Rightarrow> (safe, not_safe) result" where
  "preliminary_check_block_proposal signing_root env pk header domain =
     preliminary_check_block_signing_root env pk (bh_slot header)
       (SigningRoot (signing_root header domain))"

definition check_and_insert_attestation ::
  "attestation_data signing_root_fn \<Rightarrow> pubkey \<Rightarrow> attestation_data \<Rightarrow> hash256 \<Rightarrow> safe txn"
  where
  "check_and_insert_attestation signing_root pk att domain =
     check_and_insert_attestation_signing_root pk (cp_epoch (ad_source att)) (cp_epoch (ad_target att))
       (SigningRoot (signing_root att domain))"

definition preliminary_check_attestation ::
  "attestation_data signing_root_fn \<Rightarrow> sql_env \<Rightarrow> pubkey \<Rightarrow> attestation_data \<Rightarrow> hash256
    \<Rightarrow> slashing_db \<Rightarrow> (safe, not_safe) result" where
  "preliminary_check_attestation signing_root env pk att domain =
     preliminary_check_attestation_signing_root env pk (cp_epoch (ad_source att)) (cp_epoch (ad_target att))
       (SigningRoot (signing_root att domain))"

type_synonym attestation_request =
  "attestation_data \<times> pubkey \<times> hash256 \<times> check_slashability"

text \<open>
  The loop of \<open>check_and_insert_attestations\<close>: every attestation gets a result of its own, and
  one that is refused does not stop the ones after it.
\<close>

fun check_and_insert_each ::
  "attestation_data signing_root_fn \<Rightarrow> attestation_request list \<Rightarrow>
   slashing_db \<Rightarrow> (safe, not_safe) result list \<times> slashing_db" where
  "check_and_insert_each signing_root [] db = ([], db)"
| "check_and_insert_each signing_root ((att, pk, domain, CheckNo) # reqs) db =
     (let (rs, db') = check_and_insert_each signing_root reqs db in (Ok Valid # rs, db'))"
| "check_and_insert_each signing_root ((att, pk, domain, CheckYes) # reqs) db =
     (let (r, db1) = check_and_insert_attestation_signing_root pk (cp_epoch (ad_source att))
                       (cp_epoch (ad_target att)) (SigningRoot (signing_root att domain)) db;
          (rs, db2) = check_and_insert_each signing_root reqs db1
      in (r # rs, db2))"

definition check_and_insert_attestations ::
  "attestation_data signing_root_fn \<Rightarrow> sql_env \<Rightarrow> attestation_request list \<Rightarrow>
   (safe, not_safe) result list txn" where
  "check_and_insert_attestations signing_root env reqs =
     with_transaction env (\<lambda>db.
       let (rs, db') = check_and_insert_each signing_root reqs db in (Ok rs, db'))"

section \<open>Pruning\<close>

definition below_max :: "int \<Rightarrow> int list \<Rightarrow> bool" where
  "below_max i xs \<longleftrightarrow> (case sql_max xs of None \<Rightarrow> False | Some m \<Rightarrow> i < m)"

definition prune_signed_blocks :: "slot \<Rightarrow> pubkey \<Rightarrow> unit txn" where
  "prune_signed_blocks new_min_slot pk db =
     (case bindE (get_validator_id_in_txn db pk) (\<lambda>v.
           bindE (to_sql new_min_slot) (\<lambda>m. Ok (v, m))) of
        Inl e \<Rightarrow> (Err e, db)
      | Inr (v, m) \<Rightarrow>
          (Ok (), db\<lparr>signed_blocks :=
             filter (\<lambda>r. \<not> (br_validator_id r = v \<and> br_slot r < m \<and>
                            below_max (br_slot r) (map br_slot (blocks_of db v))))
               (signed_blocks db)\<rparr>))"

definition prune_all_signed_blocks :: "sql_env \<Rightarrow> pubkey list \<Rightarrow> slot \<Rightarrow> unit txn" where
  "prune_all_signed_blocks env pks new_min_slot =
     with_transaction env (op_for_each (prune_signed_blocks new_min_slot) pks)"

definition prune_signed_attestations :: "epoch \<Rightarrow> pubkey \<Rightarrow> unit txn" where
  "prune_signed_attestations new_min_target pk db =
     (case bindE (get_validator_id_in_txn db pk) (\<lambda>v.
           bindE (to_sql new_min_target) (\<lambda>m. Ok (v, m))) of
        Inl e \<Rightarrow> (Err e, db)
      | Inr (v, m) \<Rightarrow>
          (Ok (), db\<lparr>signed_attestations :=
             filter (\<lambda>r. \<not> (ar_validator_id r = v \<and> ar_target_epoch r < m \<and>
                            below_max (ar_target_epoch r)
                              (map ar_target_epoch (attestations_of db v))))
               (signed_attestations db)\<rparr>))"

definition prune_all_signed_attestations :: "sql_env \<Rightarrow> pubkey list \<Rightarrow> epoch \<Rightarrow> unit txn" where
  "prune_all_signed_attestations env pks new_min_target =
     with_transaction env (op_for_each (prune_signed_attestations new_min_target) pks)"

definition clear_signed_attestations :: "pubkey \<Rightarrow> unit txn" where
  "clear_signed_attestations pk db =
     (case get_validator_id_in_txn db pk of
        Inl e \<Rightarrow> (Err e, db)
      | Inr v \<Rightarrow> (Ok (), db\<lparr>signed_attestations :=
            filter (\<lambda>r. ar_validator_id r \<noteq> v) (signed_attestations db)\<rparr>))"

definition clear_signed_blocks :: "pubkey \<Rightarrow> unit txn" where
  "clear_signed_blocks pk db =
     (case get_validator_id_in_txn db pk of
        Inl e \<Rightarrow> (Err e, db)
      | Inr v \<Rightarrow> (Ok (), db\<lparr>signed_blocks :=
            filter (\<lambda>r. br_validator_id r \<noteq> v) (signed_blocks db)\<rparr>))"

section \<open>Summaries\<close>

record validator_summary =
  min_block_slot :: "slot option"
  max_block_slot :: "slot option"
  min_attestation_source :: "epoch option"
  min_attestation_target :: "epoch option"
  max_attestation_source :: "epoch option"
  max_attestation_target :: "epoch option"

definition validator_summary_in_txn ::
  "slashing_db \<Rightarrow> pubkey \<Rightarrow> (validator_summary, not_safe) result" where
  "validator_summary_in_txn db pk =
     bindE (get_validator_id_in_txn db pk) (\<lambda>v.
     let slots = map br_slot (blocks_of db v);
         sources = map ar_source_epoch (attestations_of db v);
         targets = map ar_target_epoch (attestations_of db v)
     in bindE (column_opt (sql_min slots)) (\<lambda>min_slot.
        bindE (column_opt (sql_max slots)) (\<lambda>max_slot.
        bindE (column_opt (sql_min sources)) (\<lambda>min_source.
        bindE (column_opt (sql_min targets)) (\<lambda>min_target.
        bindE (column_opt (sql_max sources)) (\<lambda>max_source.
        bindE (column_opt (sql_max targets)) (\<lambda>max_target.
        Ok \<lparr>min_block_slot = min_slot, max_block_slot = max_slot,
            min_attestation_source = min_source, min_attestation_target = min_target,
            max_attestation_source = max_source, max_attestation_target = max_target\<rparr>)))))))"

definition max_or :: "('a::linorder) option \<Rightarrow> 'a \<Rightarrow> 'a" where
  "max_or opt_x y = (case opt_x of None \<Rightarrow> y | Some x \<Rightarrow> max x y)"

definition monotonic :: "('a::linorder) option \<Rightarrow> 'a option \<Rightarrow> bool" where
  "monotonic new prev =
     (case new of None \<Rightarrow> False
      | Some new_val \<Rightarrow> (case prev of None \<Rightarrow> True | Some prev_val \<Rightarrow> prev_val \<le> new_val))"

definition check_block_consistency ::
  "validator_summary \<Rightarrow> validator_summary \<Rightarrow> bool \<Rightarrow> bool" where
  "check_block_consistency self prev imported_blocks =
     (if imported_blocks
      then monotonic (max_block_slot self) (max_block_slot prev) \<and>
           min_block_slot self = max_block_slot self
      else min_block_slot prev = min_block_slot self \<and> max_block_slot prev = max_block_slot self)"

definition check_attestation_consistency ::
  "validator_summary \<Rightarrow> validator_summary \<Rightarrow> bool \<Rightarrow> bool" where
  "check_attestation_consistency self prev imported_attestations =
     (if imported_attestations
      then monotonic (max_attestation_source self) (max_attestation_source prev) \<and>
           monotonic (max_attestation_target self) (max_attestation_target prev) \<and>
           min_attestation_source self = max_attestation_source self \<and>
           min_attestation_target self = max_attestation_target self
      else min_attestation_source self = min_attestation_source prev \<and>
           max_attestation_source self = max_attestation_source prev \<and>
           min_attestation_target self = min_attestation_target prev \<and>
           max_attestation_target self = max_attestation_target prev)"

section \<open>Properties of values and queries\<close>

definition sql_u63 :: "int \<Rightarrow> bool" where
  "sql_u63 i \<longleftrightarrow> 0 \<le> i \<and> i < 2 ^ 63"

lemma to_sql_Ok [simp]: "to_sql x = Inr i \<longleftrightarrow> i = uint x \<and> sql_u63 i"
  by (auto simp: to_sql_def sql_u63_def)

lemma to_sql_in [simp]: "sql_u63 (uint x) \<Longrightarrow> to_sql x = Inr (uint x)"
  by simp

lemma to_sql_out [simp]: "\<not> sql_u63 (uint x) \<Longrightarrow> to_sql x = Inl (SQLError ToSqlConversionFailure)"
  by (auto simp: to_sql_def sql_u63_def)

lemma uint_word_of_int_u63: "sql_u63 i \<Longrightarrow> uint (word_of_int i :: u64) = i"
  by (simp add: sql_u63_def uint_word_of_int take_bit_int_eq_self)

lemma column_result_Ok: "sql_u63 i \<Longrightarrow> column_result i = Inr (word_of_int i)"
  by (simp add: column_result_def sql_u63_def)

lemma column_result_uint [simp]: "column_result (uint x) = Inr x"
  by (simp add: column_result_def)

lemma sql_min_None [simp]: "sql_min xs = None \<longleftrightarrow> xs = []"
  by (simp add: sql_min_def)

lemma sql_min_Nil [simp]: "sql_min [] = None"
  by (simp add: sql_min_def)

lemma sql_max_Nil [simp]: "sql_max [] = None"
  by (simp add: sql_max_def)

lemma sql_max_None [simp]: "sql_max xs = None \<longleftrightarrow> xs = []"
  by (simp add: sql_max_def)

lemma sql_min_Some: "sql_min xs = Some m \<longleftrightarrow> m \<in> set xs \<and> (\<forall>x \<in> set xs. m \<le> x)"
  by (auto simp: sql_min_def intro: Min_eqI [symmetric] Min_eqI)

lemma sql_max_Some: "sql_max xs = Some m \<longleftrightarrow> m \<in> set xs \<and> (\<forall>x \<in> set xs. x \<le> m)"
  by (auto simp: sql_max_def intro: Max_eqI [symmetric] Max_eqI)

lemma column_opt_Ok:
  "(\<And>i. v = Some i \<Longrightarrow> sql_u63 i) \<Longrightarrow> column_opt v = Inr (map_option word_of_int v)"
  by (cases v) (auto simp: column_opt_def column_result_Ok)

lemma query_row_optional_Nil [simp]: "query_row_optional f [] = Inr None"
  by (simp add: query_row_optional_def)

lemma query_row_optional_Cons [simp]:
  "query_row_optional f (r # rs) = bindE (f r) (\<lambda>x. Inr (Some x))"
  by (simp add: query_row_optional_def)

lemma latest_target_first_Nil [simp]: "latest_target_first rows = [] \<longleftrightarrow> rows = []"
  by (auto simp: latest_target_first_def) (metis length_0_conv length_sort)

lemma latest_target_first_empty [simp]: "latest_target_first [] = []"
  by (simp add: latest_target_first_def)

lemma latest_target_first_subset: "set (latest_target_first rows) \<subseteq> set rows"
  unfolding latest_target_first_def by (metis set_sort set_take_subset)

lemma word_le_sql: "sql_u63 i \<Longrightarrow> x \<le> (word_of_int i :: u64) \<longleftrightarrow> uint x \<le> i"
  by (simp add: word_le_def uint_word_of_int_u63)

lemma word_less_sql: "sql_u63 i \<Longrightarrow> x < (word_of_int i :: u64) \<longleftrightarrow> uint x < i"
  by (simp add: word_less_def uint_word_of_int_u63)

lemma set_blocks_of [simp]:
  "r \<in> set (blocks_of db v) \<longleftrightarrow> r \<in> set (signed_blocks db) \<and> br_validator_id r = v"
  by (auto simp: blocks_of_def)

lemma set_attestations_of [simp]:
  "r \<in> set (attestations_of db v) \<longleftrightarrow> r \<in> set (signed_attestations db) \<and> ar_validator_id r = v"
  by (auto simp: attestations_of_def)

section \<open>The database invariant\<close>

definition validators_wf :: "slashing_db \<Rightarrow> bool" where
  "validators_wf db \<longleftrightarrow>
     distinct (map vr_id (validators db)) \<and> distinct (map vr_public_key (validators db))"

definition blocks_wf :: "slashing_db \<Rightarrow> bool" where
  "blocks_wf db \<longleftrightarrow>
     (\<forall>r \<in> set (signed_blocks db).
        sql_u63 (br_slot r) \<and> br_validator_id r \<in> vr_id ` set (validators db)) \<and>
     (\<forall>r \<in> set (signed_blocks db). \<forall>r' \<in> set (signed_blocks db).
        br_validator_id r = br_validator_id r' \<and> br_slot r = br_slot r' \<longrightarrow> r = r')"

definition attestations_wf :: "slashing_db \<Rightarrow> bool" where
  "attestations_wf db \<longleftrightarrow>
     (\<forall>r \<in> set (signed_attestations db).
        sql_u63 (ar_source_epoch r) \<and> sql_u63 (ar_target_epoch r) \<and>
        ar_validator_id r \<in> vr_id ` set (validators db)) \<and>
     (\<forall>r \<in> set (signed_attestations db). \<forall>r' \<in> set (signed_attestations db).
        ar_validator_id r = ar_validator_id r' \<and> ar_target_epoch r = ar_target_epoch r' \<longrightarrow> r = r')"

text \<open>No stored attestation surrounds another one of the same validator.\<close>

definition no_surround :: "slashing_db \<Rightarrow> bool" where
  "no_surround db \<longleftrightarrow>
     (\<forall>a \<in> set (signed_attestations db). \<forall>b \<in> set (signed_attestations db).
        ar_validator_id a = ar_validator_id b \<longrightarrow>
        \<not> (ar_source_epoch a < ar_source_epoch b \<and> ar_target_epoch b < ar_target_epoch a))"

definition db_inv :: "slashing_db \<Rightarrow> bool" where
  "db_inv db \<longleftrightarrow> validators_wf db \<and> blocks_wf db \<and> attestations_wf db \<and> no_surround db"

lemmas db_inv_defs = db_inv_def validators_wf_def blocks_wf_def attestations_wf_def no_surround_def

lemma get_validator_id_with_status_Ok:
  "get_validator_id_with_status db pk =
     Inr (map_option (\<lambda>r. (vr_id r, vr_enabled r)) (find (\<lambda>r. vr_public_key r = pk) (validators db)))"
proof -
  have "query_row_optional (\<lambda>r. Inr (vr_id r, vr_enabled r)) (filter P xs) =
      Inr (map_option (\<lambda>r. (vr_id r, vr_enabled r)) (find P xs))" for P and xs :: "validator_row list"
    by (induction xs) auto
  then show ?thesis by (simp add: get_validator_id_with_status_def)
qed

lemma get_validator_id_in_txn_Ok:
  "get_validator_id_in_txn db pk = Inr v \<longleftrightarrow>
     (\<exists>r. find (\<lambda>r. vr_public_key r = pk) (validators db) = Some r \<and> vr_id r = v \<and> vr_enabled r)"
  by (auto simp: get_validator_id_in_txn_def get_validator_id_with_status_Ok split: if_splits)

lemma get_validator_id_in_txn_member:
  "get_validator_id_in_txn db pk = Inr v \<Longrightarrow>
     \<exists>r \<in> set (validators db). vr_public_key r = pk \<and> vr_id r = v \<and> vr_enabled r"
  by (auto simp: get_validator_id_in_txn_Ok find_Some_iff)

lemma query_unique_block:
  assumes "blocks_wf db"
  shows "query_row_optional signed_block_from_row (filter (\<lambda>r. br_slot r = s) (blocks_of db v)) =
     (case find (\<lambda>r. br_slot r = s) (blocks_of db v) of
        None \<Rightarrow> Inr None
      | Some r \<Rightarrow> Inr (Some \<lparr>sb_slot = word_of_int s, sb_signing_root = SigningRoot (br_signing_root r)\<rparr>))"
proof -
  have "query_row_optional signed_block_from_row (filter (\<lambda>r. br_slot r = s) rows) =
     (case find (\<lambda>r. br_slot r = s) rows of
        None \<Rightarrow> Inr None
      | Some r \<Rightarrow> Inr (Some \<lparr>sb_slot = word_of_int s, sb_signing_root = SigningRoot (br_signing_root r)\<rparr>))"
    if "\<forall>r \<in> set rows. sql_u63 (br_slot r)" for rows
    using that by (induction rows) (auto simp: signed_block_from_row_def column_result_Ok)
  from this [of "blocks_of db v"] assms show ?thesis
    by (auto simp: blocks_wf_def)
qed

lemma sql_min_bound:
  assumes "\<forall>r \<in> set rows. sql_u63 (f r)"
  shows "column_opt (sql_min (map f rows)) = Inr (map_option word_of_int (sql_min (map f rows)))"
    and "(case map_option word_of_int (sql_min (map f rows)) of Some m \<Rightarrow> x < (m :: u64) | None \<Rightarrow> False)
          \<longleftrightarrow> rows \<noteq> [] \<and> (\<forall>r \<in> set rows. uint x < f r)"
    and "(case map_option word_of_int (sql_min (map f rows)) of Some m \<Rightarrow> x \<le> (m :: u64) | None \<Rightarrow> False)
          \<longleftrightarrow> rows \<noteq> [] \<and> (\<forall>r \<in> set rows. uint x \<le> f r)"
proof -
  have inr: "sql_u63 i" if "sql_min (map f rows) = Some i" for i
    using that assms by (auto simp: sql_min_Some)
  show "column_opt (sql_min (map f rows)) = Inr (map_option word_of_int (sql_min (map f rows)))"
    by (rule column_opt_Ok) (rule inr)
  show "(case map_option word_of_int (sql_min (map f rows)) of Some m \<Rightarrow> x < (m :: u64) | None \<Rightarrow> False)
          \<longleftrightarrow> rows \<noteq> [] \<and> (\<forall>r \<in> set rows. uint x < f r)"
    using inr by (auto simp: sql_min_Some word_less_sql split: option.splits)
  show "(case map_option word_of_int (sql_min (map f rows)) of Some m \<Rightarrow> x \<le> (m :: u64) | None \<Rightarrow> False)
          \<longleftrightarrow> rows \<noteq> [] \<and> (\<forall>r \<in> set rows. uint x \<le> f r)"
    using inr by (auto simp: sql_min_Some word_le_sql split: option.splits)
qed

lemma check_block_proposal_Valid:
  assumes "blocks_wf db" and "get_validator_id_in_txn db pk = Inr v"
  shows "check_block_proposal db pk slot root = Inr Valid \<longleftrightarrow>
     sql_u63 (uint slot) \<and>
     (\<forall>r \<in> set (blocks_of db v). br_slot r \<noteq> uint slot) \<and>
     (blocks_of db v = [] \<or> (\<exists>r \<in> set (blocks_of db v). br_slot r < uint slot))"
proof (cases "sql_u63 (uint slot)")
  case False
  then have "\<nexists>i. to_sql slot = Inr i" by auto
  then obtain e where "to_sql slot = Inl e" by (cases "to_sql slot") auto
  with assms False show ?thesis by (simp add: check_block_proposal_def)
next
  case True
  then have ts: "to_sql slot = Inr (uint slot)" by simp
  show ?thesis
  proof (cases "find (\<lambda>r. br_slot r = uint slot) (blocks_of db v)")
    case (Some r)
    then have "r \<in> set (blocks_of db v) \<and> br_slot r = uint slot"
      by (rule find_SomeD)
    with Some True assms ts show ?thesis
      by (auto simp: check_block_proposal_def query_unique_block)
  next
    case None
    then have none: "\<forall>r \<in> set (blocks_of db v). br_slot r \<noteq> uint slot"
      by (simp add: find_eq_None)
    have rng: "\<forall>r \<in> set (blocks_of db v). sql_u63 (br_slot r)"
      using assms(1) by (auto simp: blocks_wf_def)
    have "check_block_proposal db pk slot root = Inr Valid \<longleftrightarrow>
        \<not> (case map_option word_of_int (sql_min (map br_slot (blocks_of db v))) of
             Some m \<Rightarrow> slot \<le> (m :: u64) | None \<Rightarrow> False)"
      unfolding check_block_proposal_def query_unique_block [OF assms(1)]
      by (simp add: ts True assms(2) None sql_min_bound(1) [OF rng] split: option.split)
    with none True show ?thesis
      unfolding sql_min_bound(3) [OF rng] by (auto simp: not_le simp del: set_blocks_of)
  qed
qed

lemma check_block_proposal_SameData:
  assumes "blocks_wf db" and "get_validator_id_in_txn db pk = Inr v"
  shows "check_block_proposal db pk slot root = Inr SameData \<longleftrightarrow>
     sql_u63 (uint slot) \<and> \<not> is_null root \<and>
     (\<exists>r \<in> set (blocks_of db v). br_slot r = uint slot \<and> br_signing_root r = to_hash256_raw root)"
proof (cases "to_sql slot")
  case (Inl e)
  then have "\<not> sql_u63 (uint slot)" by (auto simp: to_sql_def sql_u63_def split: if_splits)
  with Inl assms show ?thesis by (simp add: check_block_proposal_def)
next
  case (Inr i)
  then have i: "i = uint slot" "sql_u63 (uint slot)" by auto
  show ?thesis
  proof (cases "find (\<lambda>r. br_slot r = uint slot) (blocks_of db v)")
    case None
    then have "\<forall>r \<in> set (blocks_of db v). br_slot r \<noteq> uint slot" by (simp add: find_eq_None)
    moreover have "check_block_proposal db pk slot root \<noteq> Inr SameData"
      unfolding check_block_proposal_def query_unique_block [OF assms(1)] assms(2) Inr i(1)
      using None by (simp split: option.split)
    ultimately show ?thesis by auto
  next
    case (Some r)
    then have r: "r \<in> set (blocks_of db v)" "br_slot r = uint slot"
      by (auto dest: find_SomeD)
    then have uniq: "r' = r" if "r' \<in> set (blocks_of db v)" "br_slot r' = uint slot" for r'
      using that assms(1) by (auto simp: blocks_wf_def)
    have "signing_root_eq (SigningRoot (br_signing_root r)) root \<longleftrightarrow>
        \<not> is_null root \<and> br_signing_root r = to_hash256_raw root"
      by (cases root) (auto simp: signing_root_eq_def)
    moreover have "check_block_proposal db pk slot root = Inr SameData \<longleftrightarrow>
        signing_root_eq (SigningRoot (br_signing_root r)) root"
      unfolding check_block_proposal_def query_unique_block [OF assms(1)] assms(2) Inr i(1)
      using Some by simp
    ultimately show ?thesis using i r uniq by metis
  qed
qed

lemma query_unique_attestation:
  assumes "attestations_wf db"
  shows "query_row_optional signed_attestation_from_row
       (filter (\<lambda>r. ar_target_epoch r = t) (attestations_of db v)) =
     (case find (\<lambda>r. ar_target_epoch r = t) (attestations_of db v) of
        None \<Rightarrow> Inr None
      | Some r \<Rightarrow> Inr (Some \<lparr>sa_source_epoch = word_of_int (ar_source_epoch r),
                       sa_target_epoch = word_of_int t,
                       sa_signing_root = SigningRoot (ar_signing_root r)\<rparr>))"
proof -
  have "query_row_optional signed_attestation_from_row (filter (\<lambda>r. ar_target_epoch r = t) rows) =
     (case find (\<lambda>r. ar_target_epoch r = t) rows of
        None \<Rightarrow> Inr None
      | Some r \<Rightarrow> Inr (Some \<lparr>sa_source_epoch = word_of_int (ar_source_epoch r),
                       sa_target_epoch = word_of_int t,
                       sa_signing_root = SigningRoot (ar_signing_root r)\<rparr>))"
    if "\<forall>r \<in> set rows. sql_u63 (ar_source_epoch r) \<and> sql_u63 (ar_target_epoch r)" for rows
    using that by (induction rows) (auto simp: signed_attestation_from_row_def column_result_Ok)
  from this [of "attestations_of db v"] assms show ?thesis
    by (auto simp: attestations_wf_def)
qed

lemma query_latest_attestation:
  assumes "attestations_wf db"
  shows "query_row_optional signed_attestation_from_row
       (latest_target_first (filter P (attestations_of db v))) = Inr None
     \<longleftrightarrow> (\<forall>r \<in> set (attestations_of db v). \<not> P r)"
    and "query_row_optional signed_attestation_from_row
       (latest_target_first (filter P (attestations_of db v))) \<noteq> Inl e"
proof -
  let ?rows = "latest_target_first (filter P (attestations_of db v))"
  have sub: "set ?rows \<subseteq> {r \<in> set (attestations_of db v). P r}"
    using latest_target_first_subset [of "filter P (attestations_of db v)"] by auto
  have nil: "?rows = [] \<longleftrightarrow> (\<forall>r \<in> set (attestations_of db v). \<not> P r)"
    by (simp add: filter_empty_conv)
  have conv: "\<exists>x. signed_attestation_from_row r = Inr x" if "r \<in> set ?rows" for r
    using that sub assms
    by (auto simp: signed_attestation_from_row_def column_result_Ok attestations_wf_def)
  show "query_row_optional signed_attestation_from_row ?rows = Inr None
     \<longleftrightarrow> (\<forall>r \<in> set (attestations_of db v). \<not> P r)"
    unfolding nil [symmetric] by (cases ?rows) auto
  show "query_row_optional signed_attestation_from_row ?rows \<noteq> Inl e"
  proof (cases ?rows)
    case (Cons r rs)
    then obtain x where "signed_attestation_from_row r = Inr x"
      using conv [of r] by auto
    with Cons show ?thesis by simp
  qed simp
qed

lemma check_attestation_Valid:
  assumes "attestations_wf db" and "get_validator_id_in_txn db pk = Inr v"
  shows "check_attestation db pk source target root = Inr Valid \<longleftrightarrow>
     source \<le> target \<and> sql_u63 (uint target) \<and>
     (\<forall>r \<in> set (attestations_of db v).
        ar_target_epoch r \<noteq> uint target \<and>
        \<not> (ar_source_epoch r < uint source \<and> uint target < ar_target_epoch r) \<and>
        \<not> (uint source < ar_source_epoch r \<and> ar_target_epoch r < uint target)) \<and>
     (attestations_of db v = [] \<or>
       (\<exists>r \<in> set (attestations_of db v). ar_source_epoch r \<le> uint source) \<and>
       (\<exists>r \<in> set (attestations_of db v). ar_target_epoch r < uint target))" (is "_ \<longleftrightarrow> ?rhs")
proof (cases "source \<le> target \<and> sql_u63 (uint target)")
  case False
  moreover have "to_sql target \<noteq> Inr i" if "\<not> sql_u63 (uint target)" for i
    using that by auto
  ultimately show ?thesis using assms
    by (cases "to_sql target") (auto simp: check_attestation_def)
next
  case True
  let ?rows = "attestations_of db v"
  from True have "sql_u63 (uint source)"
    by (auto simp: sql_u63_def word_le_def)
  then have ts: "to_sql source = Inr (uint source)" "to_sql target = Inr (uint target)" "\<not> target < source"
    using True by auto
  have rng: "\<forall>r \<in> set ?rows. sql_u63 (ar_source_epoch r)" "\<forall>r \<in> set ?rows. sql_u63 (ar_target_epoch r)"
    using assms(1) by (auto simp: attestations_wf_def)
  note mins = sql_min_bound [OF rng(1)] sql_min_bound [OF rng(2)]
  show ?thesis
  proof (cases "find (\<lambda>r. ar_target_epoch r = uint target) ?rows")
    case (Some r)
    then have "r \<in> set ?rows \<and> ar_target_epoch r = uint target" by (rule find_SomeD)
    with Some ts assms show ?thesis
      by (auto simp: check_attestation_def query_unique_attestation)
  next
    case None
    let ?q1 = "query_row_optional signed_attestation_from_row (latest_target_first
       (filter (\<lambda>r. ar_source_epoch r < uint source \<and> uint target < ar_target_epoch r) ?rows))"
    let ?q2 = "query_row_optional signed_attestation_from_row (latest_target_first
       (filter (\<lambda>r. uint source < ar_source_epoch r \<and> ar_target_epoch r < uint target) ?rows))"
    obtain o1 where o1: "?q1 = Inr o1"
      using query_latest_attestation(2) [OF assms(1), of _ v] by (cases ?q1) blast+
    obtain o2 where o2: "?q2 = Inr o2"
      using query_latest_attestation(2) [OF assms(1), of _ v] by (cases ?q2) blast+
    note o = o1 o2
    have o': "o1 = None \<longleftrightarrow> (\<forall>r \<in> set ?rows. \<not> (ar_source_epoch r < uint source \<and> uint target < ar_target_epoch r))"
      using query_latest_attestation(1) [OF assms(1), of "\<lambda>r. ar_source_epoch r < uint source \<and> uint target < ar_target_epoch r" v]
      unfolding o by simp
    have o'': "o2 = None \<longleftrightarrow> (\<forall>r \<in> set ?rows. \<not> (uint source < ar_source_epoch r \<and> ar_target_epoch r < uint target))"
      using query_latest_attestation(1) [OF assms(1), of "\<lambda>r. uint source < ar_source_epoch r \<and> ar_target_epoch r < uint target" v]
      unfolding o by simp
    have none: "\<forall>r \<in> set ?rows. ar_target_epoch r \<noteq> uint target"
      using None by (simp add: find_eq_None)
    have "check_attestation db pk source target root = Inr Valid \<longleftrightarrow>
        o1 = None \<and> o2 = None \<and>
        \<not> (?rows \<noteq> [] \<and> (\<forall>r \<in> set ?rows. uint source < ar_source_epoch r)) \<and>
        \<not> (?rows \<noteq> [] \<and> (\<forall>r \<in> set ?rows. uint target \<le> ar_target_epoch r))"
      unfolding check_attestation_def query_unique_attestation [OF assms(1)]
      by (cases o1; cases o2) (simp_all only: ts assms(2) None o mins bindE_simps option.case if_False, simp_all)
    with none True o' o'' show ?thesis by (auto simp: not_le not_less simp del: set_attestations_of)
  qed
qed

lemma check_attestation_SameData:
  assumes "attestations_wf db" and "get_validator_id_in_txn db pk = Inr v"
  shows "check_attestation db pk source target root = Inr SameData \<longleftrightarrow>
     source \<le> target \<and> sql_u63 (uint target) \<and> \<not> is_null root \<and>
     (\<exists>r \<in> set (attestations_of db v).
        ar_target_epoch r = uint target \<and> ar_signing_root r = to_hash256_raw root)"
proof (cases "source \<le> target \<and> sql_u63 (uint target)")
  case False
  moreover have "to_sql target \<noteq> Inr i" if "\<not> sql_u63 (uint target)" for i
    using that by auto
  ultimately show ?thesis using assms
    by (cases "to_sql target") (auto simp: check_attestation_def)
next
  case True
  then have ts: "to_sql target = Inr (uint target)" "\<not> target < source" by auto
  show ?thesis
  proof (cases "find (\<lambda>r. ar_target_epoch r = uint target) (attestations_of db v)")
    case None
    then have "\<forall>r \<in> set (attestations_of db v). ar_target_epoch r \<noteq> uint target"
      by (simp add: find_eq_None)
    moreover have "check_attestation db pk source target root \<noteq> Inr SameData"
      unfolding check_attestation_def query_unique_attestation [OF assms(1)] assms(2) ts(1)
      using None by (simp split: option.split)
    ultimately show ?thesis by auto
  next
    case (Some r)
    then have r: "r \<in> set (attestations_of db v)" "ar_target_epoch r = uint target"
      by (auto dest: find_SomeD)
    then have uniq: "r' = r" if "r' \<in> set (attestations_of db v)" "ar_target_epoch r' = uint target" for r'
      using that assms(1) by (auto simp: attestations_wf_def)
    have "signing_root_eq (SigningRoot (ar_signing_root r)) root \<longleftrightarrow>
        \<not> is_null root \<and> ar_signing_root r = to_hash256_raw root"
      by (cases root) (auto simp: signing_root_eq_def)
    moreover have "check_attestation db pk source target root = Inr SameData \<longleftrightarrow>
        signing_root_eq (SigningRoot (ar_signing_root r)) root"
      unfolding check_attestation_def query_unique_attestation [OF assms(1)] assms(2) ts(1)
      using Some ts(2) by simp
    ultimately show ?thesis using True r uniq by metis
  qed
qed

section \<open>Registration\<close>

definition lookup_id :: "slashing_db \<Rightarrow> pubkey \<Rightarrow> validator_id option" where
  "lookup_id db pk = map_option vr_id (find (\<lambda>r. vr_public_key r = pk) (validators db))"

lemma get_validator_id_lookup: "get_validator_id_in_txn db pk = Inr v \<Longrightarrow> lookup_id db pk = Some v"
  by (auto simp: get_validator_id_in_txn_Ok lookup_id_def)

lemma get_validator_id_ignoring_lookup:
  "get_validator_id_ignoring_status db pk = Inr v \<longleftrightarrow> lookup_id db pk = Some v"
  by (auto simp: get_validator_id_ignoring_status_def get_validator_id_with_status_Ok lookup_id_def)

lemma lookup_id_member: "lookup_id db pk = Some v \<Longrightarrow> v \<in> vr_id ` set (validators db)"
  by (auto simp: lookup_id_def dest: find_SomeD)

lemma lookup_id_inj:
  assumes "validators_wf db" "lookup_id db pk = Some v" "lookup_id db pk' = Some v"
  shows "pk = pk'"
proof -
  from assms(2,3) obtain r r' where
    r: "r \<in> set (validators db)" "vr_public_key r = pk" "vr_id r = v" and
    r': "r' \<in> set (validators db)" "vr_public_key r' = pk'" "vr_id r' = v"
    by (auto simp: lookup_id_def dest!: find_SomeD)
  from assms(1) r r' have "r = r'"
    by (auto simp: validators_wf_def distinct_map dest: inj_onD)
  with r r' show ?thesis by simp
qed

text \<open>A step that only adds validators or changes their status.\<close>

definition registry_le :: "slashing_db \<Rightarrow> slashing_db \<Rightarrow> bool" where
  "registry_le db db' \<longleftrightarrow>
     signed_blocks db' = signed_blocks db \<and> signed_attestations db' = signed_attestations db \<and>
     vr_id ` set (validators db) \<subseteq> vr_id ` set (validators db') \<and>
     (\<forall>pk v. lookup_id db pk = Some v \<longrightarrow> lookup_id db' pk = Some v) \<and>
     (validators_wf db \<longrightarrow> validators_wf db')"

lemma registry_le_refl [simp]: "registry_le db db"
  by (simp add: registry_le_def)

lemma registry_le_trans [trans]: "registry_le a b \<Longrightarrow> registry_le b c \<Longrightarrow> registry_le a c"
  by (auto simp: registry_le_def)

lemma registry_le_inv: "registry_le db db' \<Longrightarrow> db_inv db \<Longrightarrow> db_inv db'"
  by (auto simp: registry_le_def db_inv_defs)

lemma next_rowid_fresh: "next_rowid db \<notin> vr_id ` set (validators db)"
  by (auto simp: next_rowid_def sql_max_Some split: option.splits)

lemma insert_validator_registry: "insert_validator pk db = (r, db') \<Longrightarrow> registry_le db db'"
  using next_rowid_fresh [of db]
  by (auto simp: insert_validator_def registry_le_def lookup_id_def find_append validators_wf_def
      split: if_splits option.splits)

lemma update_validator_status_registry:
  "update_validator_status v status db = (r, db') \<Longrightarrow> registry_le db db'"
proof -
  assume "update_validator_status v status db = (r, db')"
  then have db': "db' = db\<lparr>validators :=
      map (\<lambda>r. if vr_id r = v then r\<lparr>vr_enabled := status\<rparr> else r) (validators db)\<rparr>"
    by (simp add: update_validator_status_def)
  have "map_option vr_id (find (\<lambda>r. vr_public_key r = pk)
          (map (\<lambda>r. if vr_id r = v then r\<lparr>vr_enabled := status\<rparr> else r) rows)) =
        map_option vr_id (find (\<lambda>r. vr_public_key r = pk) rows)" for pk and rows :: "validator_row list"
    by (induction rows) auto
  then have look: "lookup_id db' pk = lookup_id db pk" for pk
    by (simp add: db' lookup_id_def)
  have cols: "map vr_id (validators db') = map vr_id (validators db)"
    "map vr_public_key (validators db') = map vr_public_key (validators db)"
    by (auto simp: db')
  then have "vr_id ` set (validators db') = vr_id ` set (validators db)"
    by (metis set_map)
  moreover have "validators_wf db' \<longleftrightarrow> validators_wf db"
    unfolding validators_wf_def cols ..
  moreover have "signed_blocks db' = signed_blocks db \<and> signed_attestations db' = signed_attestations db"
    by (simp add: db')
  ultimately show ?thesis
    using look by (simp add: registry_le_def)
qed

lemma register_validator_registry:
  assumes "register_validator_in_txn pk db = (r, db')"
  shows "registry_le db db'"
  using assms unfolding register_validator_in_txn_def
  by (elim op_bind_cases)
     (auto split: option.splits bool.splits dest: insert_validator_registry update_validator_status_registry)

lemma register_validators_registry:
  assumes "register_validators_in_txn pks db = (r, db')"
  shows "registry_le db db'"
  using assms unfolding register_validators_in_txn_def
proof (induction pks arbitrary: db)
  case (Cons pk pks)
  from Cons.prems show ?case
    by (auto elim!: op_bind_cases dest!: register_validator_registry Cons.IH intro: registry_le_trans)
qed simp

text \<open>After a successful registration every given key is registered and enabled.\<close>

lemma register_validator_enabled:
  assumes "register_validator_in_txn pk db = (Inr u, db')" "validators_wf db"
  shows "\<exists>v. get_validator_id_in_txn db' pk = Inr v"
proof -
  have upd: "\<exists>v. get_validator_id_in_txn db' pk = Inr v"
    if f: "find (\<lambda>r. vr_public_key r = pk) (validators db) = Some r"
      and d: "db' = snd (update_validator_status (vr_id r) True db)" for r
  proof -
    have "find (\<lambda>r. vr_public_key r = pk)
        (map (\<lambda>r'. if vr_id r' = vr_id r then r'\<lparr>vr_enabled := True\<rparr> else r') rows) =
        Some (r\<lparr>vr_enabled := True\<rparr>)" if "find (\<lambda>r. vr_public_key r = pk) rows = Some r" for rows
      using that by (induction rows) (auto split: if_splits)
    from this [OF f] d show ?thesis
      by (simp add: get_validator_id_in_txn_Ok update_validator_status_def)
  qed
  show ?thesis
  proof (cases "find (\<lambda>r. vr_public_key r = pk) (validators db)")
    case None
    with assms(1) show ?thesis
      by (auto simp: register_validator_in_txn_def get_validator_id_with_status_Ok
          get_validator_id_in_txn_Ok insert_validator_def find_append split: if_splits)
  next
    case (Some r)
    show ?thesis
    proof (cases "vr_enabled r")
      case True
      with assms(1) Some show ?thesis
        by (auto simp: register_validator_in_txn_def get_validator_id_with_status_Ok
            get_validator_id_in_txn_Ok)
    next
      case False
      with assms(1) Some have "update_validator_status (vr_id r) True db = (Inr u, db')"
        by (auto simp: register_validator_in_txn_def get_validator_id_with_status_Ok)
      then have "db' = snd (update_validator_status (vr_id r) True db)" by simp
      with Some show ?thesis by (rule upd)
    qed
  qed
qed

section \<open>Inserts, clears and prunes\<close>

lemma insert_block_proposal_Ok:
  "insert_block_proposal pk slot root db = (Inr u, db') \<longleftrightarrow>
     (\<exists>v. get_validator_id_in_txn db pk = Inr v \<and> sql_u63 (uint slot) \<and>
        (\<forall>r \<in> set (blocks_of db v). br_slot r \<noteq> uint slot) \<and>
        db' = db\<lparr>signed_blocks := signed_blocks db @
          [\<lparr>br_validator_id = v, br_slot = uint slot, br_signing_root = to_hash256_raw root\<rparr>]\<rparr>)"
  unfolding insert_block_proposal_def
  by (cases "get_validator_id_in_txn db pk"; cases "sql_u63 (uint slot)") auto

lemma insert_block_proposal_Err:
  "insert_block_proposal pk slot root db = (Inl e, db') \<Longrightarrow> db' = db"
  by (auto simp: insert_block_proposal_def split: sum.splits if_splits)

lemma insert_attestation_Ok:
  "insert_attestation pk source target root db = (Inr u, db') \<longleftrightarrow>
     (\<exists>v. get_validator_id_in_txn db pk = Inr v \<and> sql_u63 (uint source) \<and> sql_u63 (uint target) \<and>
        (\<forall>r \<in> set (attestations_of db v). ar_target_epoch r \<noteq> uint target) \<and>
        db' = db\<lparr>signed_attestations := signed_attestations db @
          [\<lparr>ar_validator_id = v, ar_source_epoch = uint source, ar_target_epoch = uint target,
            ar_signing_root = to_hash256_raw root\<rparr>]\<rparr>)"
  unfolding insert_attestation_def
  by (cases "get_validator_id_in_txn db pk"; cases "sql_u63 (uint source)"; cases "sql_u63 (uint target)") auto

lemma insert_attestation_Err:
  "insert_attestation pk source target root db = (Inl e, db') \<Longrightarrow> db' = db"
  by (auto simp: insert_attestation_def split: sum.splits if_splits)

lemma insert_block_row_inv:
  assumes "db_inv db" "v \<in> vr_id ` set (validators db)" "sql_u63 s"
    "\<forall>r \<in> set (blocks_of db v). br_slot r \<noteq> s"
  shows "db_inv (db\<lparr>signed_blocks := signed_blocks db @
      [\<lparr>br_validator_id = v, br_slot = s, br_signing_root = h\<rparr>]\<rparr>)"
  using assms by (auto simp: db_inv_defs)

lemma insert_attestation_row_inv:
  assumes "db_inv db" "v \<in> vr_id ` set (validators db)" "sql_u63 s" "sql_u63 t"
    "\<forall>r \<in> set (attestations_of db v). ar_target_epoch r \<noteq> t \<and>
        \<not> (ar_source_epoch r < s \<and> t < ar_target_epoch r) \<and>
        \<not> (s < ar_source_epoch r \<and> ar_target_epoch r < t)"
  shows "db_inv (db\<lparr>signed_attestations := signed_attestations db @
      [\<lparr>ar_validator_id = v, ar_source_epoch = s, ar_target_epoch = t, ar_signing_root = h\<rparr>]\<rparr>)"
  using assms by (auto simp: db_inv_defs)

lemma filter_blocks_inv: "db_inv db \<Longrightarrow> db_inv (db\<lparr>signed_blocks := filter P (signed_blocks db)\<rparr>)"
  by (auto simp: db_inv_defs)

lemma filter_attestations_inv:
  "db_inv db \<Longrightarrow> db_inv (db\<lparr>signed_attestations := filter P (signed_attestations db)\<rparr>)"
  by (auto simp: db_inv_defs)

lemma clear_signed_blocks_inv: "clear_signed_blocks pk db = (r, db') \<Longrightarrow> db_inv db \<Longrightarrow> db_inv db'"
  by (auto simp: clear_signed_blocks_def filter_blocks_inv split: sum.splits)

lemma clear_signed_attestations_inv:
  "clear_signed_attestations pk db = (r, db') \<Longrightarrow> db_inv db \<Longrightarrow> db_inv db'"
  by (auto simp: clear_signed_attestations_def filter_attestations_inv split: sum.splits)

lemma prune_signed_blocks_inv: "prune_signed_blocks m pk db = (r, db') \<Longrightarrow> db_inv db \<Longrightarrow> db_inv db'"
  by (auto simp: prune_signed_blocks_def filter_blocks_inv split: sum.splits)

lemma prune_signed_attestations_inv:
  "prune_signed_attestations m pk db = (r, db') \<Longrightarrow> db_inv db \<Longrightarrow> db_inv db'"
  by (auto simp: prune_signed_attestations_def filter_attestations_inv split: sum.splits)

section \<open>Signing keeps the invariant\<close>

lemma check_block_proposal_Ok_id:
  "check_block_proposal db pk slot root = Inr x \<Longrightarrow> \<exists>v. get_validator_id_in_txn db pk = Inr v"
  by (auto simp: check_block_proposal_def)

lemma check_attestation_Ok_id:
  "check_attestation db pk source target root = Inr x \<Longrightarrow> \<exists>v. get_validator_id_in_txn db pk = Inr v"
  by (auto simp: check_attestation_def split: if_splits)

text \<open>A block is recorded exactly when the check answers \<open>Valid\<close>; nothing else changes the database.\<close>

lemma sign_block_cases:
  assumes "check_and_insert_block_signing_root_txn pk slot root db = (r, db')" "db_inv db"
  obtains (recorded) v where "r = Inr Valid" "get_validator_id_in_txn db pk = Inr v"
      "check_block_proposal db pk slot root = Inr Valid"
      "db' = db\<lparr>signed_blocks := signed_blocks db @
          [\<lparr>br_validator_id = v, br_slot = uint slot, br_signing_root = to_hash256_raw root\<rparr>]\<rparr>"
    | (same) "r = Inr SameData" "db' = db" "check_block_proposal db pk slot root = Inr SameData"
    | (refused) e where "r = Inl e" "db' = db" "check_block_proposal db pk slot root = Inl e"
proof (cases "check_block_proposal db pk slot root")
  case (Inl e)
  with assms(1) have "r = Inl e" "db' = db"
    by (auto simp: check_and_insert_block_signing_root_txn_def op_bind_def op_read_def)
  from this Inl show ?thesis by (rule refused)
next
  case (Inr x)
  show ?thesis
  proof (cases x)
    case SameData
    with assms(1) Inr have "r = Inr SameData" "db' = db"
      by (auto simp: check_and_insert_block_signing_root_txn_def op_bind_def op_read_def op_return_def)
    from this Inr [unfolded SameData] show ?thesis by (rule same)
  next
    case Valid
    with Inr obtain v where v: "get_validator_id_in_txn db pk = Inr v"
      using check_block_proposal_Ok_id by blast
    have "insert_block_proposal pk slot root db = (Inr (), db\<lparr>signed_blocks := signed_blocks db @
          [\<lparr>br_validator_id = v, br_slot = uint slot, br_signing_root = to_hash256_raw root\<rparr>]\<rparr>)"
      using Inr Valid v assms(2) check_block_proposal_Valid [OF _ v, of slot root]
      by (subst insert_block_proposal_Ok) (auto simp: db_inv_def)
    with assms(1) Inr Valid v have "r = Inr Valid" "db' = db\<lparr>signed_blocks := signed_blocks db @
          [\<lparr>br_validator_id = v, br_slot = uint slot, br_signing_root = to_hash256_raw root\<rparr>]\<rparr>"
      by (auto simp: check_and_insert_block_signing_root_txn_def op_bind_def op_read_def op_return_def)
    from this(1) v Inr [unfolded Valid] this(2) show ?thesis by (rule recorded)
  qed
qed

lemma sign_attestation_cases:
  assumes "check_and_insert_attestation_signing_root pk source target root db = (r, db')" "db_inv db"
  obtains (recorded) v where "r = Inr Valid" "get_validator_id_in_txn db pk = Inr v"
      "check_attestation db pk source target root = Inr Valid"
      "db' = db\<lparr>signed_attestations := signed_attestations db @
          [\<lparr>ar_validator_id = v, ar_source_epoch = uint source, ar_target_epoch = uint target,
            ar_signing_root = to_hash256_raw root\<rparr>]\<rparr>"
    | (same) "r = Inr SameData" "db' = db" "check_attestation db pk source target root = Inr SameData"
    | (refused) e where "r = Inl e" "db' = db" "check_attestation db pk source target root = Inl e"
proof -
  note defs = check_and_insert_attestation_signing_root_def
    check_and_insert_attestation_signing_root_txn_def op_bind_def op_read_def op_return_def
  show ?thesis
  proof (cases "check_attestation db pk source target root")
    case (Inl e)
    with assms(1) have "r = Inl e" "db' = db" by (auto simp: defs)
    from this Inl show ?thesis by (rule refused)
  next
    case (Inr x)
    show ?thesis
    proof (cases x)
      case SameData
      with assms(1) Inr have "r = Inr SameData" "db' = db" by (auto simp: defs)
      from this Inr [unfolded SameData] show ?thesis by (rule same)
    next
      case Valid
      with Inr obtain v where v: "get_validator_id_in_txn db pk = Inr v"
        using check_attestation_Ok_id by blast
      have c: "source \<le> target" "sql_u63 (uint target)"
          "\<forall>r \<in> set (attestations_of db v). ar_target_epoch r \<noteq> uint target"
        using Inr Valid v assms(2) check_attestation_Valid [OF _ v, of source target root]
        by (auto simp: db_inv_def)
      then have "sql_u63 (uint source)" by (auto simp: sql_u63_def word_le_def)
      with c v have "insert_attestation pk source target root db = (Inr (), db\<lparr>signed_attestations :=
          signed_attestations db @
          [\<lparr>ar_validator_id = v, ar_source_epoch = uint source, ar_target_epoch = uint target,
            ar_signing_root = to_hash256_raw root\<rparr>]\<rparr>)"
        by (subst insert_attestation_Ok) auto
      with assms(1) Inr Valid v have "r = Inr Valid" "db' = db\<lparr>signed_attestations :=
          signed_attestations db @
          [\<lparr>ar_validator_id = v, ar_source_epoch = uint source, ar_target_epoch = uint target,
            ar_signing_root = to_hash256_raw root\<rparr>]\<rparr>"
        by (auto simp: defs)
      from this(1) v Inr [unfolded Valid] this(2) show ?thesis by (rule recorded)
    qed
  qed
qed

lemma sign_block_inv:
  assumes "check_and_insert_block_signing_root_txn pk slot root db = (r, db')" "db_inv db"
  shows "db_inv db'"
  using assms
proof (cases rule: sign_block_cases)
  case (recorded v)
  from recorded(2) have "v \<in> vr_id ` set (validators db)"
    by (blast dest: get_validator_id_lookup lookup_id_member)
  moreover from recorded(3) have "sql_u63 (uint slot)"
      "\<forall>r \<in> set (blocks_of db v). br_slot r \<noteq> uint slot"
    using check_block_proposal_Valid [OF _ recorded(2)] assms(2) by (auto simp: db_inv_def)
  ultimately show ?thesis
    unfolding recorded(4) by (intro insert_block_row_inv assms(2))
qed (use assms in auto)

lemma sign_attestation_inv:
  assumes "check_and_insert_attestation_signing_root pk source target root db = (r, db')" "db_inv db"
  shows "db_inv db'"
  using assms
proof (cases rule: sign_attestation_cases)
  case (recorded v)
  from recorded(2) have "v \<in> vr_id ` set (validators db)"
    by (blast dest: get_validator_id_lookup lookup_id_member)
  moreover from recorded(3) have c: "source \<le> target" "sql_u63 (uint target)"
      "\<forall>r \<in> set (attestations_of db v).
        ar_target_epoch r \<noteq> uint target \<and>
        \<not> (ar_source_epoch r < uint source \<and> uint target < ar_target_epoch r) \<and>
        \<not> (uint source < ar_source_epoch r \<and> ar_target_epoch r < uint target)"
    using check_attestation_Valid [OF _ recorded(2)] assms(2) by (auto simp: db_inv_def)
  moreover from c have "sql_u63 (uint source)" by (auto simp: sql_u63_def word_le_def)
  ultimately show ?thesis
    unfolding recorded(4) by (intro insert_attestation_row_inv assms(2)) auto
qed (use assms in auto)

end
