(* ===== verification/Slashing_Protection.thy ===== *)
theory Slashing_Protection
  imports Slashing_Database
begin

text \<open>
  What the rows of the database say about the messages signed in the past. A message is protected
  when the checks refuse everything that would be slashable together with it; the operations of
  \<open>slashing_database.rs\<close> never give up the protection of a message.
\<close>

section \<open>Protected messages\<close>

text \<open>
  A message signed in the past is protected by the rows of its validator when it is one of them,
  or when the rows bound it from above: then every later message has to lie beyond it.
\<close>

definition block_protected :: "block_row list \<Rightarrow> int \<Rightarrow> hash256 \<Rightarrow> bool" where
  "block_protected rows s h \<longleftrightarrow>
     (\<exists>r \<in> set rows. br_slot r = s \<and> br_signing_root r = h) \<or>
     (rows \<noteq> [] \<and> (\<forall>r \<in> set rows. s \<le> br_slot r \<and> (br_slot r = s \<longrightarrow> br_signing_root r = 0)))"

definition attestation_protected :: "attestation_row list \<Rightarrow> int \<Rightarrow> int \<Rightarrow> hash256 \<Rightarrow> bool" where
  "attestation_protected rows s t h \<longleftrightarrow>
     (\<exists>r \<in> set rows. ar_source_epoch r = s \<and> ar_target_epoch r = t \<and> ar_signing_root r = h) \<or>
     (rows \<noteq> [] \<and> (\<forall>r \<in> set rows. s \<le> ar_source_epoch r \<and> t \<le> ar_target_epoch r \<and>
        (ar_target_epoch r = t \<longrightarrow> ar_signing_root r = 0)))"

lemma block_protected_append:
  assumes "block_protected rows s h" "rows = [] \<or> (\<exists>r \<in> set rows. br_slot r < br_slot row)"
  shows "block_protected (rows @ [row]) s h"
  using assms by (fastforce simp: block_protected_def)

lemma attestation_protected_append:
  assumes "attestation_protected rows s t h"
    "rows = [] \<or> (\<exists>r \<in> set rows. ar_source_epoch r \<le> ar_source_epoch row) \<and>
       (\<exists>r \<in> set rows. ar_target_epoch r < ar_target_epoch row)"
  shows "attestation_protected (rows @ [row]) s t h"
  using assms by (fastforce simp: attestation_protected_def)

lemma below_max_iff: "below_max i xs \<longleftrightarrow> (\<exists>x \<in> set xs. i < x)"
  by (auto simp: below_max_def sql_max_Some split: option.splits intro: less_le_trans)

lemma exists_max: "xs \<noteq> [] \<Longrightarrow> \<exists>x \<in> set xs. \<forall>y \<in> set xs. (f y :: int) \<le> f x"
  using max_by_key_Some [of f xs] by (cases "max_by_key f xs") auto

lemma block_protected_prune:
  assumes "block_protected rows s h"
  shows "block_protected (filter (\<lambda>r. \<not> (br_slot r < m \<and> below_max (br_slot r) (map br_slot rows))) rows) s h"
proof -
  let ?keep = "\<lambda>r. \<not> (br_slot r < m \<and> below_max (br_slot r) (map br_slot rows))"
  have "rows \<noteq> []" using assms by (auto simp: block_protected_def)
  then obtain x where x: "x \<in> set rows" "\<forall>y \<in> set rows. br_slot y \<le> br_slot x"
    using exists_max [of rows br_slot] by auto
  then have xk: "x \<in> set (filter ?keep rows)" by (auto simp: below_max_iff not_less)
  have gone: "br_slot r < br_slot r'"
    if "r \<in> set rows" "\<not> ?keep r" "r' \<in> set rows" "?keep r'" for r r'
    using that by (auto simp: below_max_iff not_less)
  from assms consider
      (row) r where "r \<in> set rows" "br_slot r = s" "br_signing_root r = h"
    | (bound) "\<forall>r \<in> set rows. s \<le> br_slot r \<and> (br_slot r = s \<longrightarrow> br_signing_root r = 0)"
    by (auto simp: block_protected_def)
  then show ?thesis
  proof cases
    case row
    show ?thesis
    proof (cases "?keep r")
      case True
      with row show ?thesis by (auto simp: block_protected_def)
    next
      case False
      have "\<forall>r' \<in> set (filter ?keep rows). s < br_slot r'"
        using row False gone by auto
      with xk show ?thesis unfolding block_protected_def
        by (metis (no_types, lifting) empty_iff less_imp_le list.set(1) order_less_irrefl)
    qed
  next
    case bound
    with xk show ?thesis unfolding block_protected_def
      by (metis (no_types, lifting) empty_iff filter_is_subset list.set(1) subsetD)
  qed
qed

lemma attestation_protected_prune:
  assumes "attestation_protected rows s t h"
    and "\<forall>a \<in> set rows. \<forall>b \<in> set rows.
      \<not> (ar_source_epoch a < ar_source_epoch b \<and> ar_target_epoch b < ar_target_epoch a)"
  shows "attestation_protected (filter (\<lambda>r. \<not> (ar_target_epoch r < m \<and>
           below_max (ar_target_epoch r) (map ar_target_epoch rows))) rows) s t h"
proof -
  let ?keep = "\<lambda>r. \<not> (ar_target_epoch r < m \<and> below_max (ar_target_epoch r) (map ar_target_epoch rows))"
  have "rows \<noteq> []" using assms by (auto simp: attestation_protected_def)
  then obtain x where x: "x \<in> set rows" "\<forall>y \<in> set rows. ar_target_epoch y \<le> ar_target_epoch x"
    using exists_max [of rows ar_target_epoch] by auto
  then have xk: "x \<in> set (filter ?keep rows)" by (auto simp: below_max_iff not_less)
  have gone: "ar_target_epoch r < ar_target_epoch r'"
    if "r \<in> set rows" "\<not> ?keep r" "r' \<in> set rows" "?keep r'" for r r'
    using that by (auto simp: below_max_iff not_less)
  have gone': "ar_source_epoch r \<le> ar_source_epoch r'"
    if "r \<in> set rows" "\<not> ?keep r" "r' \<in> set rows" "?keep r'" for r r'
    using assms(2) that gone [OF that] by (meson not_le)
  from assms consider
      (row) r where "r \<in> set rows" "ar_source_epoch r = s" "ar_target_epoch r = t" "ar_signing_root r = h"
    | (bound) "\<forall>r \<in> set rows. s \<le> ar_source_epoch r \<and> t \<le> ar_target_epoch r \<and>
        (ar_target_epoch r = t \<longrightarrow> ar_signing_root r = 0)"
    by (auto simp: attestation_protected_def)
  then show ?thesis
  proof cases
    case row
    show ?thesis
    proof (cases "?keep r")
      case True
      with row show ?thesis by (auto simp: attestation_protected_def)
    next
      case False
      have "\<forall>r' \<in> set (filter ?keep rows). s \<le> ar_source_epoch r' \<and> t < ar_target_epoch r'"
        using row False gone gone' by auto
      with xk show ?thesis unfolding attestation_protected_def
        by (metis (no_types, lifting) empty_iff less_imp_le list.set(1) order_less_irrefl)
    qed
  next
    case bound
    with xk show ?thesis unfolding attestation_protected_def
      by (metis (no_types, lifting) empty_iff filter_is_subset list.set(1) subsetD)
  qed
qed

lemma block_protected_raise:
  assumes "block_protected rows s h" "\<forall>r \<in> set rows. br_slot r \<le> m"
  shows "block_protected [\<lparr>br_validator_id = v, br_slot = m, br_signing_root = 0\<rparr>] s h"
  using assms by (auto simp: block_protected_def neq_Nil_conv)

lemma attestation_protected_raise:
  assumes "attestation_protected rows s t h"
    "\<forall>r \<in> set rows. ar_source_epoch r \<le> ms \<and> ar_target_epoch r \<le> mt"
  shows "attestation_protected [\<lparr>ar_validator_id = v, ar_source_epoch = ms, ar_target_epoch = mt,
      ar_signing_root = 0\<rparr>] s t h"
  using assms by (auto simp: attestation_protected_def neq_Nil_conv)

section \<open>Protection under a change of one validator's rows\<close>

lemma blocks_of_append [simp]:
  "blocks_of (db\<lparr>signed_blocks := signed_blocks db @ [row]\<rparr>) v =
     blocks_of db v @ (if br_validator_id row = v then [row] else [])"
  by (simp add: blocks_of_def)

lemma blocks_of_filter [simp]:
  "blocks_of (db\<lparr>signed_blocks := filter P (signed_blocks db)\<rparr>) v = filter P (blocks_of db v)"
  by (simp add: blocks_of_def conj_commute)

lemma attestations_of_append [simp]:
  "attestations_of (db\<lparr>signed_attestations := signed_attestations db @ [row]\<rparr>) v =
     attestations_of db v @ (if ar_validator_id row = v then [row] else [])"
  by (simp add: attestations_of_def)

lemma attestations_of_filter [simp]:
  "attestations_of (db\<lparr>signed_attestations := filter P (signed_attestations db)\<rparr>) v =
     filter P (attestations_of db v)"
  by (simp add: attestations_of_def conj_commute)

lemma rows_of_other_table [simp]:
  "blocks_of (db\<lparr>signed_attestations := x\<rparr>) v = blocks_of db v"
  "attestations_of (db\<lparr>signed_blocks := y\<rparr>) v = attestations_of db v"
  "lookup_id (db\<lparr>signed_blocks := y\<rparr>) pk = lookup_id db pk"
  "lookup_id (db\<lparr>signed_attestations := x\<rparr>) pk = lookup_id db pk"
  by (simp_all add: blocks_of_def attestations_of_def lookup_id_def)

type_synonym block_message = "pubkey \<times> slot \<times> signing_root"
type_synonym attestation_message = "pubkey \<times> epoch \<times> epoch \<times> signing_root"

definition protects_block :: "slashing_db \<Rightarrow> block_message \<Rightarrow> bool" where
  "protects_block db = (\<lambda>(pk, slot, root).
     \<exists>v. lookup_id db pk = Some v \<and> block_protected (blocks_of db v) (uint slot) (to_hash256_raw root))"

definition protects_attestation :: "slashing_db \<Rightarrow> attestation_message \<Rightarrow> bool" where
  "protects_attestation db = (\<lambda>(pk, source, target, root).
     \<exists>v. lookup_id db pk = Some v \<and>
       attestation_protected (attestations_of db v) (uint source) (uint target) (to_hash256_raw root))"

definition protection_le :: "slashing_db \<Rightarrow> slashing_db \<Rightarrow> bool" where
  "protection_le db db' \<longleftrightarrow>
     (\<forall>m. protects_block db m \<longrightarrow> protects_block db' m) \<and>
     (\<forall>m. protects_attestation db m \<longrightarrow> protects_attestation db' m)"

lemma protection_le_refl [simp]: "protection_le db db"
  by (simp add: protection_le_def)

lemma protection_le_trans [trans]: "protection_le a b \<Longrightarrow> protection_le b c \<Longrightarrow> protection_le a c"
  by (simp add: protection_le_def)

lemma registry_le_protection: "registry_le db db' \<Longrightarrow> protection_le db db'"
  by (fastforce simp: registry_le_def protection_le_def protects_block_def protects_attestation_def
      blocks_of_def attestations_of_def)

lemma prune_signed_blocks_protection:
  "prune_signed_blocks m pk db = (r, db') \<Longrightarrow> protection_le db db'"
proof -
  assume a: "prune_signed_blocks m pk db = (r, db')"
  show ?thesis
  proof (cases "\<exists>v n. get_validator_id_in_txn db pk = Inr v \<and> to_sql m = Inr n")
    case False
    with a have "db' = db" by (auto simp: prune_signed_blocks_def split: sum.splits)
    then show ?thesis by simp
  next
    case True
    then obtain v n where vn: "get_validator_id_in_txn db pk = Inr v" "to_sql m = Inr n" by auto
    with a have db': "db' = db\<lparr>signed_blocks :=
             filter (\<lambda>r. \<not> (br_validator_id r = v \<and> br_slot r < n \<and>
                            below_max (br_slot r) (map br_slot (blocks_of db v)))) (signed_blocks db)\<rparr>"
      by (auto simp: prune_signed_blocks_def)
    have "block_protected (blocks_of db' v') s h" if "block_protected (blocks_of db v') s h" for v' s h
    proof (cases "v' = v")
      case True
      have "blocks_of db' v = filter (\<lambda>r. \<not> (br_slot r < n \<and>
          below_max (br_slot r) (map br_slot (blocks_of db v)))) (blocks_of db v)"
        unfolding db' by (auto simp: blocks_of_filter intro: filter_cong)
      with that True block_protected_prune show ?thesis by metis
    next
      case False
      then have "blocks_of db' v' = blocks_of db v'"
        unfolding db' by (auto simp: blocks_of_filter filter_id_conv)
      with that show ?thesis by simp
    qed
    then show ?thesis
      unfolding protection_le_def protects_block_def protects_attestation_def
      by (auto simp: db' simp del: blocks_of_filter)
  qed
qed

lemma prune_signed_attestations_protection:
  "prune_signed_attestations m pk db = (r, db') \<Longrightarrow> db_inv db \<Longrightarrow> protection_le db db'"
proof -
  assume a: "prune_signed_attestations m pk db = (r, db')" and inv: "db_inv db"
  show ?thesis
  proof (cases "\<exists>v n. get_validator_id_in_txn db pk = Inr v \<and> to_sql m = Inr n")
    case False
    with a have "db' = db" by (auto simp: prune_signed_attestations_def split: sum.splits)
    then show ?thesis by simp
  next
    case True
    then obtain v n where vn: "get_validator_id_in_txn db pk = Inr v" "to_sql m = Inr n" by auto
    with a have db': "db' = db\<lparr>signed_attestations :=
             filter (\<lambda>r. \<not> (ar_validator_id r = v \<and> ar_target_epoch r < n \<and>
                below_max (ar_target_epoch r) (map ar_target_epoch (attestations_of db v))))
               (signed_attestations db)\<rparr>"
      by (auto simp: prune_signed_attestations_def)
    have ns: "\<forall>a \<in> set (attestations_of db v). \<forall>b \<in> set (attestations_of db v).
      \<not> (ar_source_epoch a < ar_source_epoch b \<and> ar_target_epoch b < ar_target_epoch a)"
      using inv by (auto simp: db_inv_def no_surround_def)
    have "attestation_protected (attestations_of db' v') s t h"
      if "attestation_protected (attestations_of db v') s t h" for v' s t h
    proof (cases "v' = v")
      case True
      have "attestations_of db' v = filter (\<lambda>r. \<not> (ar_target_epoch r < n \<and>
          below_max (ar_target_epoch r) (map ar_target_epoch (attestations_of db v)))) (attestations_of db v)"
        unfolding db' by (auto simp: attestations_of_filter intro: filter_cong)
      with that True attestation_protected_prune [OF _ ns] show ?thesis by metis
    next
      case False
      then have "attestations_of db' v' = attestations_of db v'"
        unfolding db' by (auto simp: attestations_of_filter filter_id_conv)
      with that show ?thesis by simp
    qed
    then show ?thesis
      unfolding protection_le_def protects_block_def protects_attestation_def
      by (auto simp: db' simp del: attestations_of_filter)
  qed
qed

section \<open>Signing one message\<close>

lemma protection_leI:
  assumes "\<And>pk. lookup_id db' pk = lookup_id db pk"
    and "\<And>v s h. block_protected (blocks_of db v) s h \<Longrightarrow> block_protected (blocks_of db' v) s h"
    and "\<And>v s t h. attestation_protected (attestations_of db v) s t h \<Longrightarrow>
          attestation_protected (attestations_of db' v) s t h"
  shows "protection_le db db'"
  using assms by (fastforce simp: protection_le_def protects_block_def protects_attestation_def)

lemma protects_block_append:
  assumes "lookup_id db pk = Some v" "validators_wf db"
    and "blocks_of db v = [] \<or> (\<exists>r \<in> set (blocks_of db v). br_slot r < uint slot)"
    and "db' = db\<lparr>signed_blocks := signed_blocks db @
           [\<lparr>br_validator_id = v, br_slot = uint slot, br_signing_root = to_hash256_raw root\<rparr>]\<rparr>"
  shows "protection_le db db'" "protects_block db' (pk, slot, root)"
proof -
  show "protects_block db' (pk, slot, root)"
    using assms(1) unfolding assms(4) protects_block_def by (simp add: block_protected_def)
  show "protection_le db db'"
    unfolding assms(4)
    using assms(3) by (intro protection_leI) (auto simp del: set_blocks_of intro!: block_protected_append)
qed

lemma protects_attestation_append:
  assumes "lookup_id db pk = Some v" "validators_wf db"
    and "attestations_of db v = [] \<or>
       (\<exists>r \<in> set (attestations_of db v). ar_source_epoch r \<le> uint source) \<and>
       (\<exists>r \<in> set (attestations_of db v). ar_target_epoch r < uint target)"
    and "db' = db\<lparr>signed_attestations := signed_attestations db @
           [\<lparr>ar_validator_id = v, ar_source_epoch = uint source, ar_target_epoch = uint target,
             ar_signing_root = to_hash256_raw root\<rparr>]\<rparr>"
  shows "protection_le db db'" "protects_attestation db' (pk, source, target, root)"
proof -
  show "protects_attestation db' (pk, source, target, root)"
    using assms(1) unfolding assms(4) protects_attestation_def by (simp add: attestation_protected_def)
  show "protection_le db db'"
    unfolding assms(4)
    using assms(3) by (intro protection_leI) (auto simp del: set_attestations_of intro!: attestation_protected_append)
qed

lemma sign_block_protection:
  assumes "check_and_insert_block_signing_root_txn pk slot root db = (r, db')" "db_inv db"
  shows "protection_le db db'"
    "r = Inr Valid \<Longrightarrow> protects_block db' (pk, slot, root)"
    "r = Inr Valid \<Longrightarrow> protects_block db (pk, slot', root') \<Longrightarrow> slot' \<noteq> slot"
proof -
  have "protection_le db db' \<and> (r = Inr Valid \<longrightarrow> protects_block db' (pk, slot, root) \<and>
      (protects_block db (pk, slot', root') \<longrightarrow> slot' \<noteq> slot))"
    using assms
  proof (cases rule: sign_block_cases)
    case (recorded v)
    have v: "lookup_id db pk = Some v" using recorded(2) by (rule get_validator_id_lookup)
    have wf: "blocks_wf db" "validators_wf db" using assms(2) by (auto simp: db_inv_def)
    from recorded(3) have c: "\<forall>r \<in> set (blocks_of db v). br_slot r \<noteq> uint slot"
        "blocks_of db v = [] \<or> (\<exists>r \<in> set (blocks_of db v). br_slot r < uint slot)"
      unfolding check_block_proposal_Valid [OF wf(1) recorded(2)] by blast+
    have "slot' \<noteq> slot" if "protects_block db (pk, slot', root')"
      using that v c by (fastforce simp: protects_block_def block_protected_def simp del: set_blocks_of)
    with protects_block_append [OF v wf(2) c(2) recorded(4)] show ?thesis by blast
  qed auto
  then show "protection_le db db'" "r = Inr Valid \<Longrightarrow> protects_block db' (pk, slot, root)"
    "r = Inr Valid \<Longrightarrow> protects_block db (pk, slot', root') \<Longrightarrow> slot' \<noteq> slot" by auto
qed

text \<open>
  Two attestations of one validator are slashable: they have the same target, or one surrounds the
  other. Two blocks of one validator are slashable when they have the same slot.
\<close>

definition block_conflict :: "block_message \<Rightarrow> block_message \<Rightarrow> bool" where
  "block_conflict = (\<lambda>(pk, slot, _) (pk', slot', _). pk = pk' \<and> slot = slot')"

definition attestation_conflict :: "attestation_message \<Rightarrow> attestation_message \<Rightarrow> bool" where
  "attestation_conflict = (\<lambda>(pk, s, t, _) (pk', s', t', _). pk = pk' \<and>
     (t = t' \<or> s < s' \<and> t' < t \<or> s' < s \<and> t < t'))"

lemma sign_attestation_protection:
  assumes "check_and_insert_attestation_signing_root pk source target root db = (r, db')" "db_inv db"
  shows "protection_le db db'"
    "r = Inr Valid \<Longrightarrow> protects_attestation db' (pk, source, target, root)"
    "r = Inr Valid \<Longrightarrow> protects_attestation db m \<Longrightarrow> \<not> attestation_conflict m (pk, source, target, root)"
proof -
  have "protection_le db db' \<and> (r = Inr Valid \<longrightarrow> protects_attestation db' (pk, source, target, root) \<and>
      (protects_attestation db m \<longrightarrow> \<not> attestation_conflict m (pk, source, target, root)))"
    using assms
  proof (cases rule: sign_attestation_cases)
    case (recorded v)
    have v: "lookup_id db pk = Some v" using recorded(2) by (rule get_validator_id_lookup)
    have wf: "attestations_wf db" "validators_wf db" using assms(2) by (auto simp: db_inv_def)
    from recorded(3) have c: "\<forall>r \<in> set (attestations_of db v). ar_target_epoch r \<noteq> uint target \<and>
        \<not> (ar_source_epoch r < uint source \<and> uint target < ar_target_epoch r) \<and>
        \<not> (uint source < ar_source_epoch r \<and> ar_target_epoch r < uint target)"
      "attestations_of db v = [] \<or>
       (\<exists>r \<in> set (attestations_of db v). ar_source_epoch r \<le> uint source) \<and>
       (\<exists>r \<in> set (attestations_of db v). ar_target_epoch r < uint target)"
      unfolding check_attestation_Valid [OF wf(1) recorded(2)] by blast+
    have "\<not> attestation_conflict m (pk, source, target, root)" if "protects_attestation db m"
      using that v c
      by (cases m) (fastforce simp: protects_attestation_def attestation_protected_def
          attestation_conflict_def word_less_def simp del: set_attestations_of)
    with protects_attestation_append [OF v wf(2) c(2) recorded(4)] show ?thesis by blast
  qed auto
  then show "protection_le db db'"
    "r = Inr Valid \<Longrightarrow> protects_attestation db' (pk, source, target, root)"
    "r = Inr Valid \<Longrightarrow> protects_attestation db m \<Longrightarrow> \<not> attestation_conflict m (pk, source, target, root)"
    by auto
qed

section \<open>Messages the database records\<close>

text \<open>
  The rows with a signing root: \<open>SameData\<close> is only answered for them. An attestation is identified
  by its target epoch and signing root, as the check of the database does it.
\<close>

definition recorded_blocks :: "slashing_db \<Rightarrow> block_message set" where
  "recorded_blocks db = {(pk, slot, root). \<not> is_null root \<and>
     (\<exists>v. lookup_id db pk = Some v \<and>
       (\<exists>r \<in> set (blocks_of db v). br_slot r = uint slot \<and> br_signing_root r = to_hash256_raw root))}"

definition attestation_key :: "attestation_message \<Rightarrow> pubkey \<times> epoch \<times> signing_root" where
  "attestation_key = (\<lambda>(pk, source, target, root). (pk, target, root))"

definition recorded_attestations :: "slashing_db \<Rightarrow> (pubkey \<times> epoch \<times> signing_root) set" where
  "recorded_attestations db = {(pk, target, root). \<not> is_null root \<and>
     (\<exists>v. lookup_id db pk = Some v \<and>
       (\<exists>r \<in> set (attestations_of db v). ar_target_epoch r = uint target \<and>
          ar_signing_root r = to_hash256_raw root))}"

text \<open>A step that keeps the protection of every message and records no message.\<close>

definition guard_le :: "slashing_db \<Rightarrow> slashing_db \<Rightarrow> bool" where
  "guard_le db db' \<longleftrightarrow> protection_le db db' \<and>
     recorded_blocks db' \<subseteq> recorded_blocks db \<and> recorded_attestations db' \<subseteq> recorded_attestations db"

lemma guard_le_refl [simp]: "guard_le db db"
  by (simp add: guard_le_def)

lemma guard_le_trans [trans]: "guard_le a b \<Longrightarrow> guard_le b c \<Longrightarrow> guard_le a c"
  by (auto simp: guard_le_def intro: protection_le_trans)

lemma guard_le_protects:
  "guard_le db db' \<Longrightarrow> protects_block db m \<Longrightarrow> protects_block db' m"
  "guard_le db db' \<Longrightarrow> protects_attestation db a \<Longrightarrow> protects_attestation db' a"
  unfolding guard_le_def protection_le_def by blast+

lemma lookup_id_registered:
  assumes "validators_wf db" "v \<in> vr_id ` set (validators db)"
  obtains pk where "lookup_id db pk = Some v"
proof -
  from assms(2) obtain r where r: "r \<in> set (validators db)" "vr_id r = v" by auto
  then obtain r' where r': "find (\<lambda>x. vr_public_key x = vr_public_key r) (validators db) = Some r'"
    by (cases "find (\<lambda>x. vr_public_key x = vr_public_key r) (validators db)") (auto simp: find_eq_None)
  with r assms(1) have "r' = r"
    by (auto simp: validators_wf_def distinct_map dest!: find_SomeD dest: inj_onD)
  with r r' have "lookup_id db (vr_public_key r) = Some v" by (simp add: lookup_id_def)
  then show ?thesis by (rule that)
qed

lemma registry_le_guard:
  assumes "registry_le db db'" "db_inv db"
  shows "guard_le db db'"
proof -
  have wf: "validators_wf db" "validators_wf db'" using assms(1,2) by (auto simp: registry_le_def db_inv_def)
  have same: "blocks_of db' v = blocks_of db v" "attestations_of db' v = attestations_of db v" for v
    using assms(1) by (auto simp: registry_le_def blocks_of_def attestations_of_def)
  have old_id: "lookup_id db pk = Some v"
    if l: "lookup_id db' pk = Some v" and m: "v \<in> vr_id ` set (validators db)" for pk v
  proof -
    obtain pk0 where pk0: "lookup_id db pk0 = Some v" using lookup_id_registered [OF wf(1) m] .
    then have "lookup_id db' pk0 = Some v" using assms(1) by (auto simp: registry_le_def)
    with l pk0 lookup_id_inj [OF wf(2)] show ?thesis by metis
  qed
  have "r \<in> set (blocks_of db v) \<Longrightarrow> v \<in> vr_id ` set (validators db)"
    "a \<in> set (attestations_of db v) \<Longrightarrow> v \<in> vr_id ` set (validators db)" for r a v
    using assms(2) by (auto simp: db_inv_defs)
  then have "recorded_blocks db' \<subseteq> recorded_blocks db" "recorded_attestations db' \<subseteq> recorded_attestations db"
    unfolding recorded_blocks_def recorded_attestations_def same
    by (auto simp del: set_blocks_of set_attestations_of dest: old_id) (use old_id in blast)+
  then show ?thesis using registry_le_protection [OF assms(1)] by (simp add: guard_le_def)
qed

lemma recorded_filter:
  "recorded_blocks (db\<lparr>signed_blocks := filter P (signed_blocks db)\<rparr>) \<subseteq> recorded_blocks db"
  "recorded_attestations (db\<lparr>signed_attestations := filter Q (signed_attestations db)\<rparr>) \<subseteq>
     recorded_attestations db"
  by (fastforce simp: recorded_blocks_def recorded_attestations_def simp del: set_blocks_of set_attestations_of)+

lemma is_null_raw: "is_null root \<longleftrightarrow> to_hash256_raw root = 0"
  by (cases root) simp

lemma to_hash256_raw_inj [simp]: "to_hash256_raw root = to_hash256_raw root' \<longleftrightarrow> root = root'"
  by (cases root; cases root') auto

lemma recorded_blocks_append:
  assumes "lookup_id db pk = Some v" "validators_wf db"
  shows "recorded_blocks (db\<lparr>signed_blocks := signed_blocks db @
      [\<lparr>br_validator_id = v, br_slot = uint slot, br_signing_root = to_hash256_raw root\<rparr>]\<rparr>) =
    recorded_blocks db \<union> (if is_null root then {} else {(pk, slot, root)})"
    (is "recorded_blocks ?db = ?R")
proof -
  have "m \<in> recorded_blocks ?db \<longleftrightarrow> m \<in> ?R" for m
  proof (cases m)
    case (fields pk' slot' root')
    have "lookup_id db pk' = Some v \<longleftrightarrow> pk' = pk" using assms lookup_id_inj by blast
    then show ?thesis
      unfolding fields recorded_blocks_def
      by (cases "lookup_id db pk'") (auto simp: word_uint_eq_iff [where 'a = 64, symmetric] simp del: set_blocks_of)
  qed
  then show ?thesis by blast
qed

lemma recorded_blocks_other [simp]:
  "recorded_blocks (db\<lparr>signed_attestations := x\<rparr>) = recorded_blocks db"
  "recorded_attestations (db\<lparr>signed_blocks := y\<rparr>) = recorded_attestations db"
  by (simp_all add: recorded_blocks_def recorded_attestations_def)

lemma recorded_attestations_append:
  assumes "lookup_id db pk = Some v" "validators_wf db"
  shows "recorded_attestations (db\<lparr>signed_attestations := signed_attestations db @
      [\<lparr>ar_validator_id = v, ar_source_epoch = s, ar_target_epoch = uint target,
        ar_signing_root = to_hash256_raw root\<rparr>]\<rparr>) =
    recorded_attestations db \<union> (if is_null root then {} else {(pk, target, root)})"
    (is "recorded_attestations ?db = ?R")
proof -
  have "m \<in> recorded_attestations ?db \<longleftrightarrow> m \<in> ?R" for m
  proof (cases m)
    case (fields pk' target' root')
    have "lookup_id db pk' = Some v \<longleftrightarrow> pk' = pk" using assms lookup_id_inj by blast
    then show ?thesis
      unfolding fields recorded_attestations_def
      by (cases "lookup_id db pk'") (auto simp: word_uint_eq_iff [where 'a = 64, symmetric] simp del: set_attestations_of)
  qed
  then show ?thesis by blast
qed

lemma sign_block_recorded:
  assumes "check_and_insert_block_signing_root_txn pk slot root db = (r, db')" "db_inv db"
  shows "recorded_blocks db' \<subseteq> recorded_blocks db \<union> (if r = Inr Valid then {(pk, slot, root)} else {})"
    "recorded_attestations db' = recorded_attestations db"
    "r = Inr SameData \<Longrightarrow> (pk, slot, root) \<in> recorded_blocks db"
proof -
  have "recorded_blocks db' \<subseteq> recorded_blocks db \<union> (if r = Inr Valid then {(pk, slot, root)} else {}) \<and>
    recorded_attestations db' = recorded_attestations db \<and>
    (r = Inr SameData \<longrightarrow> (pk, slot, root) \<in> recorded_blocks db)"
    using assms
  proof (cases rule: sign_block_cases)
    case (recorded v)
    with assms(2) recorded_blocks_append [of db pk v slot root] get_validator_id_lookup [OF recorded(2)]
    show ?thesis by (auto simp: db_inv_def)
  next
    case same
    then obtain v where v: "get_validator_id_in_txn db pk = Inr v" using check_block_proposal_Ok_id by blast
    with same assms(2) have "(pk, slot, root) \<in> recorded_blocks db"
      by (auto simp: recorded_blocks_def check_block_proposal_SameData db_inv_def
          dest: get_validator_id_lookup simp del: set_blocks_of)
    with same show ?thesis by simp
  qed auto
  then show "recorded_blocks db' \<subseteq> recorded_blocks db \<union> (if r = Inr Valid then {(pk, slot, root)} else {})"
    "recorded_attestations db' = recorded_attestations db"
    "r = Inr SameData \<Longrightarrow> (pk, slot, root) \<in> recorded_blocks db" by blast+
qed

lemma sign_attestation_recorded:
  assumes "check_and_insert_attestation_signing_root pk source target root db = (r, db')" "db_inv db"
  shows "recorded_attestations db' \<subseteq> recorded_attestations db \<union> (if r = Inr Valid then {(pk, target, root)} else {})"
    "recorded_blocks db' = recorded_blocks db"
    "r = Inr SameData \<Longrightarrow> (pk, target, root) \<in> recorded_attestations db"
proof -
  have "recorded_attestations db' \<subseteq> recorded_attestations db \<union> (if r = Inr Valid then {(pk, target, root)} else {}) \<and>
    recorded_blocks db' = recorded_blocks db \<and>
    (r = Inr SameData \<longrightarrow> (pk, target, root) \<in> recorded_attestations db)"
    using assms
  proof (cases rule: sign_attestation_cases)
    case (recorded v)
    with assms(2) recorded_attestations_append [of db pk v "uint source" target root]
      get_validator_id_lookup [OF recorded(2)]
    show ?thesis by (auto simp: db_inv_def)
  next
    case same
    then obtain v where v: "get_validator_id_in_txn db pk = Inr v" using check_attestation_Ok_id by blast
    with same assms(2) have "(pk, target, root) \<in> recorded_attestations db"
      by (auto simp: recorded_attestations_def check_attestation_SameData db_inv_def
          dest: get_validator_id_lookup simp del: set_attestations_of)
    with same show ?thesis by simp
  qed auto
  then show "recorded_attestations db' \<subseteq> recorded_attestations db \<union> (if r = Inr Valid then {(pk, target, root)} else {})"
    "recorded_blocks db' = recorded_blocks db"
    "r = Inr SameData \<Longrightarrow> (pk, target, root) \<in> recorded_attestations db" by blast+
qed

lemma prune_signed_blocks_guard:
  assumes "prune_signed_blocks m pk db = (r, db')"
  shows "guard_le db db'"
proof -
  have "recorded_blocks db' \<subseteq> recorded_blocks db \<and> recorded_attestations db' \<subseteq> recorded_attestations db"
    using assms recorded_filter(1) by (auto simp: prune_signed_blocks_def split: sum.splits)
  with prune_signed_blocks_protection [OF assms] show ?thesis by (simp add: guard_le_def)
qed

lemma prune_signed_attestations_guard:
  assumes "prune_signed_attestations m pk db = (r, db')" "db_inv db"
  shows "guard_le db db'"
proof -
  have "recorded_blocks db' \<subseteq> recorded_blocks db \<and> recorded_attestations db' \<subseteq> recorded_attestations db"
    using assms recorded_filter(2) by (auto simp: prune_signed_attestations_def split: sum.splits)
  with prune_signed_attestations_protection [OF assms] show ?thesis by (simp add: guard_le_def)
qed

end
