(* ===== verification/Slashing_Interchange.thy ===== *)
theory Slashing_Interchange
  imports Slashing_Protection
begin

text \<open>
  The EIP-3076 interchange format (\<open>common/eip_3076/src/lib.rs\<close>) and its import into and export
  from the slashing protection database (\<open>slashing_database.rs\<close>), together with the export that
  disables keys (\<open>export_slashing_protection_for_keys\<close> of
  \<open>validator_client/lighthouse_validator_store/src/lib.rs\<close>).
\<close>

section \<open>The format\<close>

record interchange_block =
  ib_slot :: slot
  ib_signing_root :: "hash256 option"

record interchange_attestation =
  ia_source_epoch :: epoch
  ia_target_epoch :: epoch
  ia_signing_root :: "hash256 option"

record interchange_metadata =
  interchange_format_version :: u64
  im_genesis_validators_root :: hash256

record interchange_data =
  id_pubkey :: pubkey
  id_signed_blocks :: "interchange_block list"
  id_signed_attestations :: "interchange_attestation list"

record interchange =
  ic_metadata :: interchange_metadata
  ic_data :: "interchange_data list"

definition SUPPORTED_INTERCHANGE_FORMAT_VERSION :: u64 where
  "SUPPORTED_INTERCHANGE_FORMAT_VERSION = 5"

datatype interchange_import_outcome =
    Success pubkey validator_summary
  | Failure pubkey not_safe

fun failed :: "interchange_import_outcome \<Rightarrow> bool" where
  "failed (Success _ _) = False"
| "failed (Failure _ _) = True"

datatype interchange_error =
    UnsupportedVersion u64
  | GenesisValidatorsMismatch hash256 hash256
  | InterchangeSQLError sql_error
  | InterchangeSQLPoolError
  | InterchangeNotSafe not_safe
  | AtomicBatchAborted "interchange_import_outcome list"

section \<open>Import\<close>

text \<open>
  \<open>import_interchange_record\<close>. The maxima of the record are merged with the maxima of the
  database, everything the validator has stored is replaced by one block and one attestation
  at these maxima with a null signing root, and the summary of the result is checked.
\<close>

definition import_blocks :: "pubkey \<Rightarrow> validator_summary \<Rightarrow> interchange_block list \<Rightarrow> unit txn" where
  "import_blocks pk prev_summary blocks =
     (case max_by_key ib_slot blocks of
        None \<Rightarrow> op_return ()
      | Some max_block \<Rightarrow>
          op_bind (clear_signed_blocks pk) (\<lambda>_.
          insert_block_proposal pk (max_or (max_block_slot prev_summary) (ib_slot max_block))
            default_signing_root))"

definition import_attestations ::
  "pubkey \<Rightarrow> validator_summary \<Rightarrow> interchange_attestation list \<Rightarrow> unit txn" where
  "import_attestations pk prev_summary atts =
     (case (max_by_key ia_source_epoch atts, max_by_key ia_target_epoch atts) of
        (Some max_source_att, Some max_target_att) \<Rightarrow>
          op_bind (clear_signed_attestations pk) (\<lambda>_.
          insert_attestation pk
            (max_or (max_attestation_source prev_summary) (ia_source_epoch max_source_att))
            (max_or (max_attestation_target prev_summary) (ia_target_epoch max_target_att))
            default_signing_root)
      | _ \<Rightarrow> op_return ())"

definition import_interchange_record :: "interchange_data \<Rightarrow> validator_summary txn" where
  "import_interchange_record record =
     op_bind (register_validators_in_txn [id_pubkey record]) (\<lambda>_.
     op_bind (op_read (\<lambda>db. validator_summary_in_txn db (id_pubkey record))) (\<lambda>prev_summary.
     op_bind (import_blocks (id_pubkey record) prev_summary (id_signed_blocks record)) (\<lambda>_.
     op_bind (import_attestations (id_pubkey record) prev_summary (id_signed_attestations record)) (\<lambda>_.
     op_bind (op_read (\<lambda>db. validator_summary_in_txn db (id_pubkey record))) (\<lambda>summary.
     if check_block_consistency summary prev_summary (id_signed_blocks record \<noteq> []) \<and>
        check_attestation_consistency summary prev_summary (id_signed_attestations record \<noteq> [])
     then op_return summary
     else op_read (\<lambda>_. Err ConsistencyError))))))"

text \<open>
  The loop over the records: a record that cannot be imported is noted and the loop goes on in
  the same transaction.
\<close>

fun import_records ::
  "interchange_data list \<Rightarrow> slashing_db \<Rightarrow> interchange_import_outcome list \<times> slashing_db" where
  "import_records [] db = ([], db)"
| "import_records (record # rest) db =
     (let (r, db1) = import_interchange_record record db;
          outcome = (case r of
                       Inr summary \<Rightarrow> Success (id_pubkey record) summary
                     | Inl error \<Rightarrow> Failure (id_pubkey record) error);
          (outcomes, db2) = import_records rest db1
      in (outcome # outcomes, db2))"

definition import_interchange_info ::
  "sql_env \<Rightarrow> interchange \<Rightarrow> hash256 \<Rightarrow>
   (slashing_db, interchange_import_outcome list, interchange_error) op" where
  "import_interchange_info env ic genesis_validators_root db =
     (let version = interchange_format_version (ic_metadata ic) in
      if version \<noteq> SUPPORTED_INTERCHANGE_FORMAT_VERSION then (Err (UnsupportedVersion version), db)
      else if genesis_validators_root \<noteq> im_genesis_validators_root (ic_metadata ic)
      then (Err (GenesisValidatorsMismatch (im_genesis_validators_root (ic_metadata ic))
                   genesis_validators_root), db)
      else if \<not> pool_get env then (Err InterchangeSQLPoolError, db)
      else if \<not> txn_begin env then (Err (InterchangeSQLError BeginFailure), db)
      else let (import_outcomes, db') = import_records (ic_data ic) db in
        if list_all (\<lambda>c. \<not> failed c) import_outcomes
        then if txn_commit env then (Ok import_outcomes, db')
             else (Err (InterchangeSQLError CommitFailure), db)
        else (Err (AtomicBatchAborted import_outcomes), db))"

section \<open>Export\<close>

text \<open>
  The columns of a row are read with \<open>row.get\<close>, whose conversion errors become an \<open>InterchangeError\<close>
  of their own.
\<close>

definition interchange_column :: "int \<Rightarrow> (u64, interchange_error) result" where
  "interchange_column i =
     (if 0 \<le> i then Ok (word_of_int i) else Err (InterchangeSQLError FromSqlConversionFailure))"

definition export_interchange_blocks_for_validator ::
  "slashing_db \<Rightarrow> validator_id \<Rightarrow> (interchange_block list, interchange_error) result" where
  "export_interchange_blocks_for_validator db v =
     collect_results (\<lambda>r.
       bindE (interchange_column (br_slot r)) (\<lambda>slot.
       Ok \<lparr>ib_slot = slot, ib_signing_root = to_hash256 (SigningRoot (br_signing_root r))\<rparr>))
       (sort_key br_slot (blocks_of db v))"

definition export_interchange_attestations_for_validator ::
  "slashing_db \<Rightarrow> validator_id \<Rightarrow> (interchange_attestation list, interchange_error) result" where
  "export_interchange_attestations_for_validator db v =
     collect_results (\<lambda>r.
       bindE (interchange_column (ar_source_epoch r)) (\<lambda>source.
       bindE (interchange_column (ar_target_epoch r)) (\<lambda>target.
       Ok \<lparr>ia_source_epoch = source, ia_target_epoch = target,
           ia_signing_root = to_hash256 (SigningRoot (ar_signing_root r))\<rparr>)))
       (sort_key ar_source_epoch (sort_key ar_target_epoch (attestations_of db v)))"

definition export_interchange_info_in_txn ::
  "hash256 \<Rightarrow> pubkey list option \<Rightarrow> slashing_db \<Rightarrow> (interchange, interchange_error) result" where
  "export_interchange_info_in_txn genesis_validators_root selected_pubkeys db =
     bindE (case selected_pubkeys of
              Some pks \<Rightarrow> collect_results (\<lambda>pk.
                 bindE (map_err InterchangeNotSafe (get_validator_id_ignoring_status db pk))
                   (\<lambda>v. Ok (v, pk))) pks
            | None \<Rightarrow> Ok (list_all_registered_validators db)) (\<lambda>to_export.
     bindE (collect_results (\<lambda>(v, pk).
              bindE (export_interchange_blocks_for_validator db v) (\<lambda>blocks.
              bindE (export_interchange_attestations_for_validator db v) (\<lambda>atts.
              Ok \<lparr>id_pubkey = pk, id_signed_blocks = blocks, id_signed_attestations = atts\<rparr>)))
              to_export) (\<lambda>data.
     Ok \<lparr>ic_metadata = \<lparr>interchange_format_version = SUPPORTED_INTERCHANGE_FORMAT_VERSION,
                        im_genesis_validators_root = genesis_validators_root\<rparr>,
         ic_data = data\<rparr>))"

definition export_interchange_info ::
  "sql_env \<Rightarrow> hash256 \<Rightarrow> pubkey list option \<Rightarrow> slashing_db \<Rightarrow>
   (interchange, interchange_error) result" where
  "export_interchange_info env genesis_validators_root selected_pubkeys db =
     (if \<not> pool_get env then Err InterchangeSQLPoolError
      else if \<not> txn_begin env then Err (InterchangeSQLError BeginFailure)
      else export_interchange_info_in_txn genesis_validators_root selected_pubkeys db)"

definition export_all_interchange_info ::
  "sql_env \<Rightarrow> hash256 \<Rightarrow> slashing_db \<Rightarrow> (interchange, interchange_error) result" where
  "export_all_interchange_info env genesis_validators_root =
     export_interchange_info env genesis_validators_root None"

text \<open>
  \<open>export_slashing_protection_for_keys\<close>: every key known to the database is disabled and its
  history exported, in one transaction; unknown keys are left out.
\<close>

fun disable_known_keys :: "pubkey list \<Rightarrow> slashing_db \<Rightarrow> pubkey list \<times> slashing_db" where
  "disable_known_keys [] db = ([], db)"
| "disable_known_keys (pk # pks) db =
     (case get_validator_id_ignoring_status db pk of
        Inl _ \<Rightarrow> disable_known_keys pks db
      | Inr v \<Rightarrow> (let (known, db') = disable_known_keys pks (snd (update_validator_status v False db))
                  in (pk # known, db')))"

definition export_slashing_protection_for_keys ::
  "sql_env \<Rightarrow> hash256 \<Rightarrow> pubkey list \<Rightarrow> (slashing_db, interchange, interchange_error) op" where
  "export_slashing_protection_for_keys env genesis_validators_root pks db =
     (if \<not> pool_get env then (Err (InterchangeNotSafe SQLPoolError), db)
      else if \<not> txn_begin env then (Err (InterchangeNotSafe (SQLError BeginFailure)), db)
      else let (known, db') = disable_known_keys pks db in
        case export_interchange_info_in_txn genesis_validators_root (Some known) db' of
          Inl e \<Rightarrow> (Err e, db)
        | Inr ic \<Rightarrow> if txn_commit env then (Ok ic, db')
                    else (Err (InterchangeNotSafe (SQLError CommitFailure)), db))"

section \<open>Minification\<close>

datatype eip_3076_error = MaxInconsistent

type_synonym validator_maxima = "interchange_block option \<times> interchange_attestation option"

definition iter_max :: "'a::linorder list \<Rightarrow> 'a option" where
  "iter_max xs = max_by_key (\<lambda>x. x) xs"

definition merge_attestation_maxima ::
  "interchange_attestation option \<Rightarrow> epoch option \<Rightarrow> epoch option \<Rightarrow>
   (interchange_attestation option, eip_3076_error) result" where
  "merge_attestation_maxima max_attestation max_source_epoch max_target_epoch =
     (case (max_source_epoch, max_target_epoch) of
        (Some source, Some target) \<Rightarrow>
          (case max_attestation of
             Some prev_max \<Rightarrow>
               Ok (Some (prev_max\<lparr>ia_source_epoch := max (ia_source_epoch prev_max) source,
                                  ia_target_epoch := max (ia_target_epoch prev_max) target\<rparr>))
           | None \<Rightarrow> Ok (Some \<lparr>ia_source_epoch = source, ia_target_epoch = target,
                               ia_signing_root = None\<rparr>))
      | (None, None) \<Rightarrow> Ok max_attestation
      | _ \<Rightarrow> Err MaxInconsistent)"

definition merge_block_maxima ::
  "interchange_block option \<Rightarrow> slot option \<Rightarrow> interchange_block option" where
  "merge_block_maxima max_block max_slot_opt =
     (case max_slot_opt of
        None \<Rightarrow> max_block
      | Some max_slot \<Rightarrow>
          (case max_block of
             Some prev_max \<Rightarrow> Some (prev_max\<lparr>ib_slot := max (ib_slot prev_max) max_slot\<rparr>)
           | None \<Rightarrow> Some \<lparr>ib_slot = max_slot, ib_signing_root = None\<rparr>))"

text \<open>
  The map from public keys to maxima. The source iterates over a hash map, in no given order;
  the model keeps the keys in the order in which they first occur.
\<close>

fun upsert :: "'k \<Rightarrow> 'v \<Rightarrow> ('k \<times> 'v) list \<Rightarrow> ('k \<times> 'v) list" where
  "upsert k v [] = [(k, v)]"
| "upsert k v ((k', v') # kvs) = (if k' = k then (k, v) # kvs else (k', v') # upsert k v kvs)"

definition minify_step ::
  "(pubkey \<times> validator_maxima) list \<Rightarrow> interchange_data \<Rightarrow>
   ((pubkey \<times> validator_maxima) list, eip_3076_error) result" where
  "minify_step validator_data data =
     (let (max_block, max_attestation) =
            (case map_of validator_data (id_pubkey data) of None \<Rightarrow> (None, None) | Some m \<Rightarrow> m)
      in bindE (merge_attestation_maxima max_attestation
                 (iter_max (map ia_source_epoch (id_signed_attestations data)))
                 (iter_max (map ia_target_epoch (id_signed_attestations data)))) (\<lambda>max_attestation'.
         Ok (upsert (id_pubkey data)
               (merge_block_maxima max_block (iter_max (map ib_slot (id_signed_blocks data))),
                max_attestation') validator_data)))"

definition option_to_list :: "'a option \<Rightarrow> 'a list" where
  "option_to_list x = (case x of None \<Rightarrow> [] | Some y \<Rightarrow> [y])"

definition minify :: "interchange \<Rightarrow> (interchange, eip_3076_error) result" where
  "minify ic =
     bindE (try_fold minify_step [] (ic_data ic)) (\<lambda>validator_data.
     Ok (ic\<lparr>ic_data := map (\<lambda>(pk, maybe_block, maybe_att).
             \<lparr>id_pubkey = pk, id_signed_blocks = option_to_list maybe_block,
              id_signed_attestations = option_to_list maybe_att\<rparr>) validator_data\<rparr>))"

definition interchange_equiv :: "interchange \<Rightarrow> interchange \<Rightarrow> bool" where
  "interchange_equiv self other \<longleftrightarrow>
     ic_metadata self = ic_metadata other \<and> set (ic_data self) = set (ic_data other)"

section \<open>Imports keep the invariant and the protection\<close>

lemma validator_summary_Ok:
  assumes "blocks_wf db" "attestations_wf db" "get_validator_id_in_txn db pk = Inr v"
  shows "validator_summary_in_txn db pk = Inr \<lparr>
     min_block_slot = map_option word_of_int (sql_min (map br_slot (blocks_of db v))),
     max_block_slot = map_option word_of_int (sql_max (map br_slot (blocks_of db v))),
     min_attestation_source = map_option word_of_int (sql_min (map ar_source_epoch (attestations_of db v))),
     min_attestation_target = map_option word_of_int (sql_min (map ar_target_epoch (attestations_of db v))),
     max_attestation_source = map_option word_of_int (sql_max (map ar_source_epoch (attestations_of db v))),
     max_attestation_target = map_option word_of_int (sql_max (map ar_target_epoch (attestations_of db v)))\<rparr>"
proof -
  have mi: "column_opt (sql_min xs) = Inr (map_option word_of_int (sql_min xs))"
    if "\<forall>x \<in> set xs. sql_u63 x" for xs
    using that by (intro column_opt_Ok) (auto simp: sql_min_Some)
  have ma: "column_opt (sql_max xs) = Inr (map_option word_of_int (sql_max xs))"
    if "\<forall>x \<in> set xs. sql_u63 x" for xs
    using that by (intro column_opt_Ok) (auto simp: sql_max_Some)
  have "\<forall>x \<in> set (map br_slot (blocks_of db v)). sql_u63 x"
    "\<forall>x \<in> set (map ar_source_epoch (attestations_of db v)). sql_u63 x"
    "\<forall>x \<in> set (map ar_target_epoch (attestations_of db v)). sql_u63 x"
    using assms by (auto simp: blocks_wf_def attestations_wf_def)
  then show ?thesis
    by (simp add: validator_summary_in_txn_def assms(3) Let_def mi ma)
qed

lemma max_or_bounds:
  fixes m :: u64
  assumes "\<forall>x \<in> set xs. sql_u63 x"
  shows "uint m \<le> uint (max_or (map_option word_of_int (sql_max xs)) m)"
    and "\<forall>x \<in> set xs. x \<le> uint (max_or (map_option word_of_int (sql_max xs)) m)"
proof -
  show "uint m \<le> uint (max_or (map_option word_of_int (sql_max xs)) m)"
    by (auto simp: max_or_def word_le_def [symmetric] split: option.split)
  show "\<forall>x \<in> set xs. x \<le> uint (max_or (map_option word_of_int (sql_max xs)) m)"
  proof
    fix x assume x: "x \<in> set xs"
    then obtain M where M: "sql_max xs = Some M" by (cases "sql_max xs") auto
    then have "x \<le> M" "sql_u63 M" using x assms by (auto simp: sql_max_Some)
    moreover have "(word_of_int M :: u64) \<le> max (word_of_int M) m" by simp
    ultimately show "x \<le> uint (max_or (map_option word_of_int (sql_max xs)) m)"
      using M by (auto simp: max_or_def word_le_def uint_word_of_int_u63)
  qed
qed

lemma max_or_range:
  fixes m :: u64
  assumes "\<forall>x \<in> set xs. sql_u63 x" "sql_u63 (uint m)"
  shows "sql_u63 (uint (max_or (map_option word_of_int (sql_max xs)) m))"
  using assms by (auto simp: max_or_def max_def sql_max_Some uint_word_of_int_u63 split: option.split)

lemma get_validator_id_other_table [simp]:
  "get_validator_id_in_txn (db\<lparr>signed_blocks := y\<rparr>) pk = get_validator_id_in_txn db pk"
  "get_validator_id_in_txn (db\<lparr>signed_attestations := x\<rparr>) pk = get_validator_id_in_txn db pk"
  by (simp_all add: get_validator_id_in_txn_def get_validator_id_with_status_def)

text \<open>One validator's rows replaced by a single row with a null signing root.\<close>

definition raise_blocks :: "validator_id \<Rightarrow> int \<Rightarrow> slashing_db \<Rightarrow> slashing_db" where
  "raise_blocks v m db = db\<lparr>signed_blocks := filter (\<lambda>r. br_validator_id r \<noteq> v) (signed_blocks db) @
     [\<lparr>br_validator_id = v, br_slot = m, br_signing_root = 0\<rparr>]\<rparr>"

definition raise_attestations :: "validator_id \<Rightarrow> int \<Rightarrow> int \<Rightarrow> slashing_db \<Rightarrow> slashing_db" where
  "raise_attestations v ms mt db = db\<lparr>signed_attestations :=
     filter (\<lambda>r. ar_validator_id r \<noteq> v) (signed_attestations db) @
     [\<lparr>ar_validator_id = v, ar_source_epoch = ms, ar_target_epoch = mt, ar_signing_root = 0\<rparr>]\<rparr>"

lemma blocks_of_raise [simp]:
  "blocks_of (raise_blocks v m db) v' =
     (if v' = v then [\<lparr>br_validator_id = v, br_slot = m, br_signing_root = 0\<rparr>] else blocks_of db v')"
  "blocks_of (raise_attestations v ms mt db) v' = blocks_of db v'"
  by (auto simp: raise_blocks_def raise_attestations_def blocks_of_def intro!: filter_cong)

lemma attestations_of_raise [simp]:
  "attestations_of (raise_attestations v ms mt db) v' =
     (if v' = v then [\<lparr>ar_validator_id = v, ar_source_epoch = ms, ar_target_epoch = mt,
        ar_signing_root = 0\<rparr>] else attestations_of db v')"
  "attestations_of (raise_blocks v m db) v' = attestations_of db v'"
  by (auto simp: raise_blocks_def raise_attestations_def attestations_of_def intro!: filter_cong)

lemma raise_registry [simp]:
  "get_validator_id_in_txn (raise_blocks v m db) pk = get_validator_id_in_txn db pk"
  "get_validator_id_in_txn (raise_attestations v ms mt db) pk = get_validator_id_in_txn db pk"
  "lookup_id (raise_blocks v m db) pk = lookup_id db pk"
  "lookup_id (raise_attestations v ms mt db) pk = lookup_id db pk"
  by (simp_all add: raise_blocks_def raise_attestations_def)

lemma raise_blocks_inv:
  "db_inv db \<Longrightarrow> v \<in> vr_id ` set (validators db) \<Longrightarrow> sql_u63 m \<Longrightarrow> db_inv (raise_blocks v m db)"
  by (auto simp: raise_blocks_def db_inv_defs)

lemma raise_attestations_inv:
  "db_inv db \<Longrightarrow> v \<in> vr_id ` set (validators db) \<Longrightarrow> sql_u63 ms \<Longrightarrow> sql_u63 mt \<Longrightarrow>
     db_inv (raise_attestations v ms mt db)"
  by (auto simp: raise_attestations_def db_inv_defs)

lemma recorded_raise:
  "recorded_blocks (raise_blocks v m db) \<subseteq> recorded_blocks db"
  "recorded_attestations (raise_blocks v m db) = recorded_attestations db"
  "recorded_attestations (raise_attestations v ms mt db) \<subseteq> recorded_attestations db"
  "recorded_blocks (raise_attestations v ms mt db) = recorded_blocks db"
  by (auto simp: recorded_blocks_def recorded_attestations_def is_null_raw
      simp del: set_blocks_of set_attestations_of split: if_splits)

lemma raise_blocks_guard:
  assumes "\<forall>r \<in> set (blocks_of db v). br_slot r \<le> m"
  shows "guard_le db (raise_blocks v m db)"
proof -
  have "protection_le db (raise_blocks v m db)"
    using assms by (intro protection_leI) (auto simp del: set_blocks_of intro: block_protected_raise)
  then show ?thesis using recorded_raise by (simp add: guard_le_def)
qed

lemma raise_attestations_guard:
  assumes "\<forall>r \<in> set (attestations_of db v). ar_source_epoch r \<le> ms \<and> ar_target_epoch r \<le> mt"
  shows "guard_le db (raise_attestations v ms mt db)"
proof -
  have "protection_le db (raise_attestations v ms mt db)"
    using assms by (intro protection_leI) (auto simp del: set_attestations_of intro: attestation_protected_raise)
  then show ?thesis using recorded_raise by (simp add: guard_le_def)
qed

lemma import_blocks_cases:
  assumes "import_blocks pk prev blocks db = (r, db')" "db_inv db"
    "get_validator_id_in_txn db pk = Inr v" "validator_summary_in_txn db pk = Inr prev"
  obtains (none) "blocks = []" "db' = db" "r = Inr ()"
    | (some) m where "blocks \<noteq> []" "r = Inr ()" "sql_u63 m" "db' = raise_blocks v m db"
        "\<forall>r \<in> set (blocks_of db v). br_slot r \<le> m" "\<forall>b \<in> set blocks. uint (ib_slot b) \<le> m"
    | (out_of_range) e b where "r = Inl e" "e \<noteq> ConsistencyError" "db_inv db'"
        "b \<in> set blocks" "\<not> sql_u63 (uint (ib_slot b))"
proof (cases "max_by_key ib_slot blocks")
  case None
  then have "blocks = []" "db' = db" "r = Inr ()"
    using assms(1) by (auto simp: import_blocks_def op_return_def)
  then show ?thesis by (rule none)
next
  case (Some b)
  let ?db = "db\<lparr>signed_blocks := filter (\<lambda>r. br_validator_id r \<noteq> v) (signed_blocks db)\<rparr>"
  let ?xs = "map br_slot (blocks_of db v)"
  let ?m = "max_or (map_option word_of_int (sql_max ?xs)) (ib_slot b)"
  have ne: "blocks \<noteq> []" using Some by auto
  have prev: "max_block_slot prev = map_option word_of_int (sql_max ?xs)"
    using validator_summary_Ok [of db pk v] assms(2-4) by (auto simp: db_inv_def)
  have wf: "\<forall>x \<in> set ?xs. sql_u63 x" using assms(2) by (auto simp: db_inv_defs)
  have clear: "clear_signed_blocks pk db = (Inr (), ?db)"
    by (simp add: clear_signed_blocks_def assms(3))
  have run: "(r, db') = insert_block_proposal pk ?m default_signing_root ?db"
    using assms(1) by (simp add: import_blocks_def Some op_bind_def clear prev)
  have em: "blocks_of ?db v = []" by (simp add: blocks_of_def)
  show ?thesis
  proof (cases "sql_u63 (uint ?m)")
    case True
    have "(r, db') = (Inr (), raise_blocks v (uint ?m) db)"
      unfolding run using True assms(3) em
      by (simp add: insert_block_proposal_def raise_blocks_def default_signing_root_def
          del: blocks_of_filter)
    then have "r = Inr ()" "db' = raise_blocks v (uint ?m) db" by auto
    moreover have "\<forall>r \<in> set (blocks_of db v). br_slot r \<le> uint ?m"
      using max_or_bounds(2) [OF wf] by (auto simp del: set_blocks_of)
    moreover have "\<forall>b' \<in> set blocks. uint (ib_slot b') \<le> uint ?m"
      using max_or_bounds(1) [OF wf] max_by_key_ge [OF Some] unfolding word_le_def by (meson order_trans)
    ultimately show ?thesis using True ne by (intro some)
  next
    case False
    have "(r, db') = (Inl (SQLError ToSqlConversionFailure), ?db)"
      unfolding run using False assms(3) by (simp add: insert_block_proposal_def)
    moreover have "b \<in> set blocks" "\<not> sql_u63 (uint (ib_slot b))"
      using False max_or_range [OF wf] max_by_key_Some [OF Some] by blast+
    ultimately show ?thesis using assms(2) by (intro out_of_range) (auto intro: filter_blocks_inv)
  qed
qed

lemma import_attestations_cases:
  assumes "import_attestations pk prev atts db = (r, db')" "db_inv db"
    "get_validator_id_in_txn db pk = Inr v"
    "max_attestation_source prev = map_option word_of_int (sql_max (map ar_source_epoch (attestations_of db v)))"
    "max_attestation_target prev = map_option word_of_int (sql_max (map ar_target_epoch (attestations_of db v)))"
  obtains (none) "atts = []" "db' = db" "r = Inr ()"
    | (some) ms mt where "atts \<noteq> []" "r = Inr ()" "sql_u63 ms" "sql_u63 mt"
        "db' = raise_attestations v ms mt db"
        "\<forall>r \<in> set (attestations_of db v). ar_source_epoch r \<le> ms \<and> ar_target_epoch r \<le> mt"
        "\<forall>a \<in> set atts. uint (ia_source_epoch a) \<le> ms \<and> uint (ia_target_epoch a) \<le> mt"
    | (out_of_range) e a where "r = Inl e" "e \<noteq> ConsistencyError" "db_inv db'" "a \<in> set atts"
        "\<not> (sql_u63 (uint (ia_source_epoch a)) \<and> sql_u63 (uint (ia_target_epoch a)))"
proof (cases "atts = []")
  case True
  then have "db' = db" "r = Inr ()"
    using assms(1) by (auto simp: import_attestations_def op_return_def)
  with True show ?thesis by (intro none)
next
  case ne: False
  then obtain a b where ab: "max_by_key ia_source_epoch atts = Some a" "max_by_key ia_target_epoch atts = Some b"
    by (metis max_by_key_None not_Some_eq)
  let ?db = "db\<lparr>signed_attestations := filter (\<lambda>r. ar_validator_id r \<noteq> v) (signed_attestations db)\<rparr>"
  let ?xs = "map ar_source_epoch (attestations_of db v)" and ?ys = "map ar_target_epoch (attestations_of db v)"
  let ?s = "max_or (map_option word_of_int (sql_max ?xs)) (ia_source_epoch a)"
  let ?t = "max_or (map_option word_of_int (sql_max ?ys)) (ia_target_epoch b)"
  have wf: "\<forall>x \<in> set ?xs. sql_u63 x" "\<forall>x \<in> set ?ys. sql_u63 x"
    using assms(2) by (auto simp: db_inv_defs)
  have clear: "clear_signed_attestations pk db = (Inr (), ?db)"
    by (simp add: clear_signed_attestations_def assms(3))
  have run: "(r, db') = insert_attestation pk ?s ?t default_signing_root ?db"
    using assms(1) by (simp add: import_attestations_def ab op_bind_def clear assms(4,5))
  have em: "attestations_of ?db v = []" by (simp add: attestations_of_def)
  show ?thesis
  proof (cases "sql_u63 (uint ?s) \<and> sql_u63 (uint ?t)")
    case True
    have "(r, db') = (Inr (), raise_attestations v (uint ?s) (uint ?t) db)"
      unfolding run using True assms(3) em
      by (simp add: insert_attestation_def raise_attestations_def default_signing_root_def
          del: attestations_of_filter)
    then have "r = Inr ()" "db' = raise_attestations v (uint ?s) (uint ?t) db" by auto
    moreover have "\<forall>r \<in> set (attestations_of db v). ar_source_epoch r \<le> uint ?s \<and> ar_target_epoch r \<le> uint ?t"
      using max_or_bounds(2) [OF wf(1)] max_or_bounds(2) [OF wf(2)] by (auto simp del: set_attestations_of)
    moreover have "\<forall>c \<in> set atts. uint (ia_source_epoch c) \<le> uint ?s \<and> uint (ia_target_epoch c) \<le> uint ?t"
      using max_or_bounds(1) [OF wf(1)] max_or_bounds(1) [OF wf(2)] max_by_key_ge [OF ab(1)] max_by_key_ge [OF ab(2)]
      unfolding word_le_def by (meson order_trans)
    ultimately show ?thesis using True ne by (intro some) auto
  next
    case False
    have "(r, db') = (Inl (SQLError ToSqlConversionFailure), ?db)"
      unfolding run using False assms(3)
      by (cases "sql_u63 (uint ?s)") (auto simp: insert_attestation_def)
    then have err: "r = Inl (SQLError ToSqlConversionFailure)" "db_inv db'"
      using assms(2) by (auto intro: filter_attestations_inv)
    have "a \<in> set atts" "b \<in> set atts" using max_by_key_Some [OF ab(1)] max_by_key_Some [OF ab(2)] by auto
    moreover have "\<not> sql_u63 (uint (ia_source_epoch a)) \<or> \<not> sql_u63 (uint (ia_target_epoch b))"
      using False max_or_range [OF wf(1)] max_or_range [OF wf(2)] by blast
    ultimately show ?thesis using err by (metis out_of_range not_safe.distinct(1) not_safe.simps)
  qed
qed

text \<open>
  The messages of an interchange record are protected against every other message, whatever their
  signing roots.
\<close>

definition protects_record :: "slashing_db \<Rightarrow> interchange_data \<Rightarrow> bool" where
  "protects_record db record \<longleftrightarrow>
     (\<forall>b \<in> set (id_signed_blocks record). \<forall>root. protects_block db (id_pubkey record, ib_slot b, root)) \<and>
     (\<forall>a \<in> set (id_signed_attestations record). \<forall>root.
        protects_attestation db (id_pubkey record, ia_source_epoch a, ia_target_epoch a, root))"

lemma summary_raise_blocks:
  assumes "db_inv db" "get_validator_id_in_txn db pk = Inr v" "db_inv (raise_blocks v m db)"
    "validator_summary_in_txn db pk = Inr prev"
  shows "validator_summary_in_txn (raise_blocks v m db) pk =
      Inr (prev\<lparr>min_block_slot := Some (word_of_int m), max_block_slot := Some (word_of_int m)\<rparr>)"
  using assms validator_summary_Ok [of db pk v] validator_summary_Ok [of "raise_blocks v m db" pk v]
  by (auto simp: db_inv_def sql_min_def sql_max_def)

lemma summary_raise_attestations:
  assumes "db_inv db" "get_validator_id_in_txn db pk = Inr v" "db_inv (raise_attestations v ms mt db)"
    "validator_summary_in_txn db pk = Inr prev"
  shows "validator_summary_in_txn (raise_attestations v ms mt db) pk =
      Inr (prev\<lparr>min_attestation_source := Some (word_of_int ms), max_attestation_source := Some (word_of_int ms),
        min_attestation_target := Some (word_of_int mt), max_attestation_target := Some (word_of_int mt)\<rparr>)"
  using assms validator_summary_Ok [of db pk v] validator_summary_Ok [of "raise_attestations v ms mt db" pk v]
  by (auto simp: db_inv_def sql_min_def sql_max_def)

lemma monotonic_sql_max:
  "sql_u63 m \<Longrightarrow> \<forall>x \<in> set xs. sql_u63 x \<and> x \<le> m \<Longrightarrow>
     monotonic (Some (word_of_int m :: u64)) (map_option word_of_int (sql_max xs))"
  by (auto simp: monotonic_def sql_max_Some word_le_sql uint_word_of_int_u63 split: option.split)

lemma protects_record_mono: "guard_le db db' \<Longrightarrow> protects_record db record \<Longrightarrow> protects_record db' record"
  by (auto simp: protects_record_def intro: guard_le_protects)

lemma raise_blocks_protects:
  "lookup_id db pk = Some v \<Longrightarrow> uint s \<le> m \<Longrightarrow> protects_block (raise_blocks v m db) (pk, s, root)"
  by (auto simp: protects_block_def block_protected_def)

lemma raise_attestations_protects:
  "lookup_id db pk = Some v \<Longrightarrow> uint s \<le> ms \<Longrightarrow> uint t \<le> mt \<Longrightarrow>
     protects_attestation (raise_attestations v ms mt db) (pk, s, t, root)"
  by (auto simp: protects_attestation_def attestation_protected_def)

lemma register_validator_total: "\<exists>db'. register_validator_in_txn pk db = (Inr (), db')"
  by (auto simp: register_validator_in_txn_def op_bind_def op_read_def op_return_def insert_validator_def
      update_validator_status_def get_validator_id_with_status_Ok find_eq_None
      split: option.split bool.split)

lemma import_interchange_record_registered:
  obtains db1 v where "register_validators_in_txn [id_pubkey record] db = (Inr (), db1)"
    "registry_le db db1" "validators_wf db \<Longrightarrow> get_validator_id_in_txn db1 (id_pubkey record) = Inr v"
proof -
  obtain db1 where reg: "register_validator_in_txn (id_pubkey record) db = (Inr (), db1)"
    using register_validator_total by blast
  then have "register_validators_in_txn [id_pubkey record] db = (Inr (), db1)"
    by (simp add: register_validators_in_txn_def op_bind_def op_return_def)
  with reg register_validator_registry [OF reg] register_validator_enabled [OF reg] that show ?thesis
    by metis
qed

lemma import_blocks_Ok:
  assumes "import_blocks pk prev blocks db = (Inr u, db')" "db_inv db"
    "get_validator_id_in_txn db pk = Inr v" "validator_summary_in_txn db pk = Inr prev"
  obtains x y where "db_inv db'" "guard_le db db'" "get_validator_id_in_txn db' pk = Inr v"
    "\<forall>b \<in> set blocks. \<forall>root. protects_block db' (pk, ib_slot b, root)"
    "attestations_of db' v = attestations_of db v"
    "validator_summary_in_txn db' pk = Inr (prev\<lparr>min_block_slot := x, max_block_slot := y\<rparr>)"
    "check_block_consistency (prev\<lparr>min_block_slot := x, max_block_slot := y\<rparr>) prev (blocks \<noteq> [])"
proof (rule import_blocks_cases [OF assms])
  assume "blocks = []" "db' = db" "Inr u = Inr ()"
  with assms show ?thesis
    by (intro that [where x = "min_block_slot prev" and y = "max_block_slot prev"]) (auto simp: check_block_consistency_def)
next
  fix m assume m: "blocks \<noteq> []" "sql_u63 m" "db' = raise_blocks v m db"
    "\<forall>r \<in> set (blocks_of db v). br_slot r \<le> m" "\<forall>b \<in> set blocks. uint (ib_slot b) \<le> m"
  have v: "lookup_id db pk = Some v" "v \<in> vr_id ` set (validators db)"
    using assms(3) by (auto dest: get_validator_id_lookup lookup_id_member)
  have inv: "db_inv db'" unfolding m(3) using assms(2) v(2) m(2) by (rule raise_blocks_inv)
  have prev: "max_block_slot prev = map_option word_of_int (sql_max (map br_slot (blocks_of db v)))"
    using validator_summary_Ok [of db pk v] assms(2-4) by (auto simp: db_inv_def)
  have "\<forall>x \<in> set (map br_slot (blocks_of db v)). sql_u63 x \<and> x \<le> m"
    using assms(2) m(4) by (auto simp: db_inv_defs)
  from monotonic_sql_max [OF m(2) this] m(1)
  have "check_block_consistency (prev\<lparr>min_block_slot := Some (word_of_int m),
      max_block_slot := Some (word_of_int m)\<rparr>) prev (blocks \<noteq> [])"
    by (simp add: check_block_consistency_def prev)
  then show ?thesis
    using inv m v assms summary_raise_blocks [OF assms(2,3) inv [unfolded m(3)] assms(4)]
    by (intro that) (auto simp: m(3) raise_blocks_guard raise_blocks_protects simp del: set_blocks_of)
qed auto

lemma import_attestations_Ok:
  assumes "import_attestations pk prev atts db = (Inr u, db')" "db_inv db"
    "get_validator_id_in_txn db pk = Inr v" "validator_summary_in_txn db pk = Inr mid"
    "max_attestation_source prev = max_attestation_source mid"
    "max_attestation_target prev = max_attestation_target mid"
    "min_attestation_source prev = min_attestation_source mid"
    "min_attestation_target prev = min_attestation_target mid"
  obtains s where "db_inv db'" "guard_le db db'"
    "\<forall>a \<in> set atts. \<forall>root. protects_attestation db' (pk, ia_source_epoch a, ia_target_epoch a, root)"
    "validator_summary_in_txn db' pk = Inr s"
    "min_block_slot s = min_block_slot mid" "max_block_slot s = max_block_slot mid"
    "check_attestation_consistency s prev (atts \<noteq> [])"
proof -
  have prev: "max_attestation_source prev = map_option word_of_int (sql_max (map ar_source_epoch (attestations_of db v)))"
    "max_attestation_target prev = map_option word_of_int (sql_max (map ar_target_epoch (attestations_of db v)))"
    using validator_summary_Ok [of db pk v] assms(2-6) by (auto simp: db_inv_def)
  show ?thesis
  proof (rule import_attestations_cases [OF assms(1-3) prev])
    assume "atts = []" "db' = db"
    with assms show ?thesis
      by (intro that [of mid]) (auto simp: check_attestation_consistency_def)
  next
    fix ms mt assume m: "atts \<noteq> []" "sql_u63 ms" "sql_u63 mt" "db' = raise_attestations v ms mt db"
      "\<forall>r \<in> set (attestations_of db v). ar_source_epoch r \<le> ms \<and> ar_target_epoch r \<le> mt"
      "\<forall>a \<in> set atts. uint (ia_source_epoch a) \<le> ms \<and> uint (ia_target_epoch a) \<le> mt"
    have v: "lookup_id db pk = Some v" "v \<in> vr_id ` set (validators db)"
      using assms(3) by (auto dest: get_validator_id_lookup lookup_id_member)
    have inv: "db_inv db'" unfolding m(4) using assms(2) v(2) m(2,3) by (rule raise_attestations_inv)
    have "\<forall>x \<in> set (map ar_source_epoch (attestations_of db v)). sql_u63 x \<and> x \<le> ms"
      "\<forall>x \<in> set (map ar_target_epoch (attestations_of db v)). sql_u63 x \<and> x \<le> mt"
      using assms(2) m(5) by (auto simp: db_inv_defs)
    from monotonic_sql_max [OF m(2) this(1)] monotonic_sql_max [OF m(3) this(2)] m(1)
    have "check_attestation_consistency (mid\<lparr>min_attestation_source := Some (word_of_int ms),
        max_attestation_source := Some (word_of_int ms), min_attestation_target := Some (word_of_int mt),
        max_attestation_target := Some (word_of_int mt)\<rparr>) prev (atts \<noteq> [])"
      by (simp add: check_attestation_consistency_def prev)
    then show ?thesis
      using inv m v assms summary_raise_attestations [OF assms(2,3) inv [unfolded m(4)] assms(4)]
      by (intro that) (auto simp: m(4) raise_attestations_guard raise_attestations_protects
          simp del: set_attestations_of)
  qed auto
qed

text \<open>The two inserts of a record, on a database in which its key is registered.\<close>

lemma import_rows_Ok:
  assumes "import_blocks (id_pubkey record) prev (id_signed_blocks record) db = (Inr u, db2)"
    and "import_attestations (id_pubkey record) prev (id_signed_attestations record) db2 = (Inr u', db3)"
    and "db_inv db" "get_validator_id_in_txn db (id_pubkey record) = Inr v"
    and "validator_summary_in_txn db (id_pubkey record) = Inr prev"
  obtains s where "db_inv db3" "guard_le db db3" "protects_record db3 record"
    "validator_summary_in_txn db3 (id_pubkey record) = Inr s"
    "check_block_consistency s prev (id_signed_blocks record \<noteq> [])"
    "check_attestation_consistency s prev (id_signed_attestations record \<noteq> [])"
proof -
  let ?pk = "id_pubkey record"
  from import_blocks_Ok [OF assms(1,3-5)] obtain x y where
    s2: "db_inv db2" "guard_le db db2" "get_validator_id_in_txn db2 ?pk = Inr v"
      "\<forall>b \<in> set (id_signed_blocks record). \<forall>root. protects_block db2 (?pk, ib_slot b, root)"
      "validator_summary_in_txn db2 ?pk = Inr (prev\<lparr>min_block_slot := x, max_block_slot := y\<rparr>)"
      "check_block_consistency (prev\<lparr>min_block_slot := x, max_block_slot := y\<rparr>) prev
         (id_signed_blocks record \<noteq> [])" by metis
  from import_attestations_Ok [OF assms(2) s2(1,3,5)] obtain s where
    s3: "db_inv db3" "guard_le db2 db3"
      "\<forall>a \<in> set (id_signed_attestations record). \<forall>root.
         protects_attestation db3 (?pk, ia_source_epoch a, ia_target_epoch a, root)"
      "validator_summary_in_txn db3 ?pk = Inr s" "min_block_slot s = x" "max_block_slot s = y"
      "check_attestation_consistency s prev (id_signed_attestations record \<noteq> [])"
    by (auto simp del: split_paired_All)
  have "check_block_consistency s prev (id_signed_blocks record \<noteq> [])"
    using s2(6) s3(5,6) by (simp add: check_block_consistency_def split: if_splits)
  moreover have "protects_record db3 record"
    using s2(4) s3(2,3) by (auto simp: protects_record_def intro: guard_le_protects)
  moreover have "guard_le db db3" using s2(2) s3(2) guard_le_trans by blast
  ultimately show ?thesis using that s3 by blast
qed

definition record_in_range :: "interchange_data \<Rightarrow> bool" where
  "record_in_range record \<longleftrightarrow>
     (\<forall>b \<in> set (id_signed_blocks record). sql_u63 (uint (ib_slot b))) \<and>
     (\<forall>a \<in> set (id_signed_attestations record).
        sql_u63 (uint (ia_source_epoch a)) \<and> sql_u63 (uint (ia_target_epoch a)))"

lemma import_rows_Err:
  assumes "import_blocks (id_pubkey record) prev (id_signed_blocks record) db = (r2, db2)"
    and "import_attestations (id_pubkey record) prev (id_signed_attestations record) db2 = (r3, db3)"
    and "db_inv db" "get_validator_id_in_txn db (id_pubkey record) = Inr v"
    and "validator_summary_in_txn db (id_pubkey record) = Inr prev"
  shows "r2 = Inl e \<Longrightarrow> e \<noteq> ConsistencyError \<and> db_inv db2 \<and> \<not> record_in_range record"
    and "r2 = Inr u \<Longrightarrow> r3 = Inl e \<Longrightarrow> e \<noteq> ConsistencyError \<and> db_inv db3 \<and> \<not> record_in_range record"
proof -
  show "r2 = Inl e \<Longrightarrow> e \<noteq> ConsistencyError \<and> db_inv db2 \<and> \<not> record_in_range record"
    using assms(1,3-5) by (auto elim!: import_blocks_cases simp: record_in_range_def)
  assume r: "r2 = Inr u" "r3 = Inl e"
  from import_blocks_Ok [OF assms(1) [unfolded r(1)] assms(3-5)]
  have "db_inv db2" "get_validator_id_in_txn db2 (id_pubkey record) = Inr v" "attestations_of db2 v = attestations_of db v"
    by metis+
  moreover have "max_attestation_source prev = map_option word_of_int (sql_max (map ar_source_epoch (attestations_of db v)))"
    "max_attestation_target prev = map_option word_of_int (sql_max (map ar_target_epoch (attestations_of db v)))"
    using validator_summary_Ok [of db "id_pubkey record" v] assms(3-5) by (auto simp: db_inv_def)
  ultimately show "e \<noteq> ConsistencyError \<and> db_inv db3 \<and> \<not> record_in_range record"
    using assms(2) r(2) by (auto elim!: import_attestations_cases simp: record_in_range_def)
qed

lemma import_interchange_record_cases:
  assumes "import_interchange_record record db = (r, db')" "db_inv db"
  obtains (imported) s where "r = Inr s" "db_inv db'" "guard_le db db'" "protects_record db' record"
    | (failed) e where "r = Inl e" "e \<noteq> ConsistencyError" "db_inv db'" "\<not> record_in_range record"
proof -
  let ?pk = "id_pubkey record"
  obtain db1 v where reg: "register_validators_in_txn [?pk] db = (Inr (), db1)" "registry_le db db1"
    and v: "get_validator_id_in_txn db1 ?pk = Inr v"
    using import_interchange_record_registered [of "record" db] assms(2) by (metis db_inv_def)
  have inv1: "db_inv db1" and le1: "guard_le db db1"
    using reg assms(2) by (auto intro: registry_le_inv registry_le_guard)
  from inv1 v obtain prev where prev: "validator_summary_in_txn db1 ?pk = Inr prev"
    using validator_summary_Ok by (metis db_inv_def)
  obtain r2 db2 where bl: "import_blocks ?pk prev (id_signed_blocks record) db1 = (r2, db2)" by fastforce
  obtain r3 db3 where att: "import_attestations ?pk prev (id_signed_attestations record) db2 = (r3, db3)"
    by fastforce
  note err = import_rows_Err [OF bl att inv1 v prev]
  note run = assms(1) [unfolded import_interchange_record_def op_bind_def op_read_def]
  show ?thesis
  proof (cases r2)
    case (Inl e)
    with run have "r = Inl e" "db' = db2" by (simp_all add: reg prev bl)
    with err(1) [OF Inl] failed show ?thesis by blast
  next
    case (Inr u)
    show ?thesis
    proof (cases r3)
      case (Inl e)
      with run Inr have "r = Inl e" "db' = db3" by (simp_all add: reg prev bl att)
      with err(2) [OF Inr Inl] failed show ?thesis by blast
    next
      case Inr3: (Inr u')
      obtain s where s: "db_inv db3" "guard_le db1 db3" "protects_record db3 record"
          "validator_summary_in_txn db3 ?pk = Inr s"
          "check_block_consistency s prev (id_signed_blocks record \<noteq> [])"
          "check_attestation_consistency s prev (id_signed_attestations record \<noteq> [])"
        using import_rows_Ok [OF bl [unfolded Inr] att [unfolded Inr3] inv1 v prev] .
      with run Inr Inr3 have "r = Inr s" "db' = db3" by (simp_all add: reg prev bl att op_return_def)
      with s le1 guard_le_trans imported show ?thesis by blast
    qed
  qed
qed

end
