(* ===== verification/Signing_Guard.thy ===== *)
theory Signing_Guard
  imports Lighthouse_Prelude
begin

text \<open>
  Histories of events on a state, and the contract of a state that guards the release of
  signatures. The slashing protection database fulfils it for blocks and for attestations.
\<close>

section \<open>Histories\<close>

fun run_events :: "('e \<Rightarrow> 's \<Rightarrow> 's) \<Rightarrow> 'e list \<Rightarrow> 's \<Rightarrow> 's" where
  "run_events exec [] s = s"
| "run_events exec (e # es) s = run_events exec es (exec e s)"

fun event_log :: "('e \<Rightarrow> 's \<Rightarrow> 's) \<Rightarrow> ('e \<Rightarrow> 's \<Rightarrow> 'm list) \<Rightarrow> 'e list \<Rightarrow> 's \<Rightarrow> 'm list" where
  "event_log exec out [] s = []"
| "event_log exec out (e # es) s = out e s @ event_log exec out es (exec e s)"

lemma event_log_map_filter:
  "event_log exec (\<lambda>e s. map f (filter P (out e s))) es s = map f (filter P (event_log exec out es s))"
  by (induction es arbitrary: s) auto

lemma sorted_wrt_map_filter:
  "sorted_wrt R (map f (filter P xs)) \<longleftrightarrow> sorted_wrt (\<lambda>x y. P x \<and> P y \<longrightarrow> R (f x) (f y)) xs"
  by (induction xs) auto

section \<open>The contract of a signing guard\<close>

text \<open>
  A signing guard is a state with events. An event releases signatures (\<open>signed\<close>), answers that a
  message was signed before (\<open>resigned\<close>) and makes messages known that count as signed (\<open>known\<close>: the
  signed ones and, for an import, those of the file). The laws say that a known message is
  protected from then on, that no signature is released that conflicts with a protected message,
  and that the state remembers as recorded only what was signed.
\<close>

locale signing_guard =
  fixes exec :: "'e \<Rightarrow> 's \<Rightarrow> 's"
    and signed :: "'e \<Rightarrow> 's \<Rightarrow> 'm list"
    and resigned :: "'e \<Rightarrow> 's \<Rightarrow> 'm list"
    and known :: "'e \<Rightarrow> 's \<Rightarrow> 'm list"
    and inv :: "'s \<Rightarrow> bool"
    and protects :: "'s \<Rightarrow> 'm \<Rightarrow> bool"
    and conflict :: "'m \<Rightarrow> 'm \<Rightarrow> bool"
    and key :: "'m \<Rightarrow> 'k"
    and recorded :: "'s \<Rightarrow> 'k set"
  assumes exec_inv: "inv s \<Longrightarrow> inv (exec e s)"
    and exec_mono: "inv s \<Longrightarrow> protects s m \<Longrightarrow> protects (exec e s) m"
    and known_protected: "inv s \<Longrightarrow> m \<in> set (known e s) \<Longrightarrow> protects (exec e s) m"
    and signed_known: "set (signed e s) \<subseteq> set (known e s)"
    and signed_fresh: "inv s \<Longrightarrow> protects s m \<Longrightarrow> m' \<in> set (signed e s) \<Longrightarrow> \<not> conflict m m'"
    and signed_pairwise: "inv s \<Longrightarrow> sorted_wrt (\<lambda>m m'. \<not> conflict m m') (signed e s)"
    and recorded_signed: "inv s \<Longrightarrow> recorded (exec e s) \<subseteq> recorded s \<union> key ` set (signed e s)"
    and resigned_recorded: "inv s \<Longrightarrow> key ` set (resigned e s) \<subseteq> recorded s \<union> key ` set (signed e s)"
begin

lemma run_inv: "inv s \<Longrightarrow> inv (run_events exec es s)"
  by (induction es arbitrary: s) (auto simp: exec_inv)

lemma run_mono: "inv s \<Longrightarrow> protects s m \<Longrightarrow> protects (run_events exec es s) m"
  by (induction es arbitrary: s) (auto simp: exec_inv exec_mono)

lemma log_protected:
  "inv s \<Longrightarrow> m \<in> set (event_log exec known es s) \<Longrightarrow> protects (run_events exec es s) m"
  by (induction es arbitrary: s) (auto simp: exec_inv run_mono known_protected)

lemma log_known: "set (event_log exec signed es s) \<subseteq> set (event_log exec known es s)"
  by (induction es arbitrary: s) (use signed_known in fastforce)+

lemma log_fresh:
  "inv s \<Longrightarrow> protects s m \<Longrightarrow> m' \<in> set (event_log exec signed es s) \<Longrightarrow> \<not> conflict m m'"
proof (induction es arbitrary: s)
  case (Cons e es)
  then consider "m' \<in> set (signed e s)" | "m' \<in> set (event_log exec signed es (exec e s))" by auto
  then show ?case using Cons signed_fresh exec_inv exec_mono by cases blast+
qed simp

lemma log_pairwise: "inv s \<Longrightarrow> sorted_wrt (\<lambda>m m'. \<not> conflict m m') (event_log exec signed es s)"
proof (induction es arbitrary: s)
  case (Cons e es)
  have "protects (exec e s) m" if "m \<in> set (signed e s)" for m
    using that known_protected [OF Cons.prems] signed_known by blast
  then have "\<not> conflict m m'" if "m \<in> set (signed e s)" "m' \<in> set (event_log exec signed es (exec e s))" for m m'
    using that log_fresh [OF exec_inv] Cons.prems by blast
  with Cons show ?case by (simp add: sorted_wrt_append signed_pairwise exec_inv)
qed simp

text \<open>A signature released after a history conflicts with nothing the history made known.\<close>

lemma signed_after_history:
  "inv s \<Longrightarrow> m \<in> set (event_log exec known es s) \<Longrightarrow>
     m' \<in> set (event_log exec signed es' (run_events exec es s)) \<Longrightarrow> \<not> conflict m m'"
  using log_protected log_fresh run_inv by blast

lemma run_recorded:
  "inv s \<Longrightarrow> recorded (run_events exec es s) \<subseteq> recorded s \<union> key ` set (event_log exec signed es s)"
  by (induction es arbitrary: s) (use exec_inv recorded_signed in fastforce)+

lemma log_resigned:
  "inv s \<Longrightarrow> key ` set (event_log exec resigned es s) \<subseteq> recorded s \<union> key ` set (event_log exec signed es s)"
proof (induction es arbitrary: s)
  case (Cons e es)
  with Cons.IH [OF exec_inv] recorded_signed [of s e] resigned_recorded [of s e] show ?case
    by (auto simp: image_Un) blast+
qed simp

end

end
