(* ===== verification/Slashing_Safety.thy ===== *)
theory Slashing_Safety
  imports Slashing_Interchange Signing_Guard
begin

text \<open>
  The slashing protection database as a signing guard: the calls that write to it as events, the
  messages it answers for, and the two interpretations of the contract, for blocks and for
  attestations. The properties of whole histories follow from the contract.
\<close>

section \<open>Whole operations\<close>

lemma import_records_Ok:
  assumes "import_records records db = (outcomes, db')" "db_inv db" "list_all (\<lambda>c. \<not> failed c) outcomes"
  shows "db_inv db'" "guard_le db db'" "\<forall>entry \<in> set records. protects_record db' entry"
proof -
  have "db_inv db' \<and> guard_le db db' \<and> (\<forall>entry \<in> set records. protects_record db' entry)"
    using assms
  proof (induction records arbitrary: db outcomes)
    case (Cons entry rest)
    obtain r db1 where one: "import_interchange_record entry db = (r, db1)" by fastforce
    from Cons.prems(1) one obtain outs where more: "import_records rest db1 = (outs, db')"
      and outs: "outcomes = (case r of Inr s \<Rightarrow> Success (id_pubkey entry) s
        | Inl e \<Rightarrow> Failure (id_pubkey entry) e) # outs" by (auto simp: Let_def split: prod.splits)
    from one Cons.prems(2) show ?case
    proof (cases rule: import_interchange_record_cases)
      case (imported s)
      have "db_inv db' \<and> guard_le db1 db' \<and> (\<forall>entry \<in> set rest. protects_record db' entry)"
        using Cons.IH [OF more imported(2)] Cons.prems(3) outs imported(1) by simp
      with imported guard_le_trans [of db db1 db'] protects_record_mono [of db1 db'] show ?thesis by auto
    qed (use Cons.prems(3) outs in auto)
  qed simp
  then show "db_inv db'" "guard_le db db'" "\<forall>entry \<in> set records. protects_record db' entry" by blast+
qed

lemma import_interchange_info_cases:
  assumes "import_interchange_info env ic root db = (r, db')" "db_inv db"
  obtains (imported) outcomes where "r = Inr outcomes" "list_all (\<lambda>c. \<not> failed c) outcomes" "db_inv db'"
      "guard_le db db'" "\<forall>record \<in> set (ic_data ic). protects_record db' record"
    | (unchanged) e where "r = Inl e" "db' = db"
proof -
  obtain outs db1 where ir: "import_records (ic_data ic) db = (outs, db1)" by fastforce
  have "(\<exists>e. r = Inl e) \<and> db' = db \<or> r = Inr outs \<and> db' = db1 \<and> list_all (\<lambda>c. \<not> failed c) outs"
    using assms(1) unfolding import_interchange_info_def ir Let_def by (auto split: if_splits)
  with import_records_Ok [OF ir assms(2)] imported unchanged show ?thesis by blast
qed

lemma disable_known_keys_registry: "disable_known_keys pks db = (known, db') \<Longrightarrow> registry_le db db'"
proof (induction pks arbitrary: db known)
  case (Cons pk pks)
  show ?case
  proof (cases "get_validator_id_ignoring_status db pk")
    case (Inl e)
    with Cons show ?thesis by simp
  next
    case (Inr v)
    have "registry_le db (snd (update_validator_status v False db))"
      using update_validator_status_registry [OF surjective_pairing] .
    with Inr Cons registry_le_trans show ?thesis by (force simp: Let_def split: prod.splits)
  qed
qed simp

lemma export_for_keys_registry:
  "export_slashing_protection_for_keys env root pks db = (r, db') \<Longrightarrow> registry_le db db'"
  by (auto simp: export_slashing_protection_for_keys_def Let_def
      split: if_splits prod.splits sum.splits dest: disable_known_keys_registry)

lemma with_transaction_cases:
  assumes "with_transaction env f db = (r, db')"
  obtains (committed) a where "r = Inr a" "f db = (Inr a, db')"
    | (rolled_back) e where "r = Inl e" "db' = db"
  using assms by (auto simp: with_transaction_def split: if_splits prod.splits sum.splits)

lemma for_each_guard:
  assumes "op_for_each f xs db = (r, db')" "db_inv db"
    and "\<And>x db r db'. f x db = (r, db') \<Longrightarrow> db_inv db \<Longrightarrow> db_inv db' \<and> guard_le db db'"
  shows "db_inv db' \<and> guard_le db db'"
  using assms(1,2)
proof (induction xs arbitrary: db)
  case (Cons x xs)
  from Cons.prems(1) show ?case
    unfolding op_for_each.simps
  proof (rule op_bind_cases)
    fix y db1 assume "f x db = (Inr y, db1)" "op_for_each f xs db1 = (r, db')"
    with Cons assms(3) guard_le_trans show ?thesis by blast
  qed (use Cons.prems assms(3) in auto)
qed (simp add: op_return_def)

lemma prune_all_signed_blocks_guard:
  assumes "prune_all_signed_blocks env pks slot db = (r, db')" "db_inv db"
  shows "db_inv db' \<and> guard_le db db'"
  using assms(1) unfolding prune_all_signed_blocks_def
proof (cases rule: with_transaction_cases)
  case (committed a)
  from for_each_guard [OF committed(2) assms(2)] show ?thesis
    using prune_signed_blocks_guard prune_signed_blocks_inv by blast
qed (use assms in auto)

lemma prune_all_signed_attestations_guard:
  assumes "prune_all_signed_attestations env pks target db = (r, db')" "db_inv db"
  shows "db_inv db' \<and> guard_le db db'"
  using assms(1) unfolding prune_all_signed_attestations_def
proof (cases rule: with_transaction_cases)
  case (committed a)
  from for_each_guard [OF committed(2) assms(2)] show ?thesis
    using prune_signed_attestations_guard prune_signed_attestations_inv by blast
qed (use assms in auto)

lemma registry_le_guarded: "registry_le db db' \<Longrightarrow> db_inv db \<Longrightarrow> db_inv db' \<and> guard_le db db'"
  by (auto intro: registry_le_inv registry_le_guard)

lemma register_validators_guard:
  assumes "register_validators env pks db = (r, db')" "db_inv db"
  shows "db_inv db' \<and> guard_le db db'"
  using assms(1) unfolding register_validators_def
proof (cases rule: with_transaction_cases)
  case (committed a)
  from register_validators_registry [OF committed(2)] assms(2) show ?thesis by (rule registry_le_guarded)
qed (use assms in auto)

section \<open>One attestation of a batch\<close>

definition message_of ::
  "attestation_data signing_root_fn \<Rightarrow> attestation_request \<Rightarrow> attestation_message" where
  "message_of signing_root = (\<lambda>(att, pk, domain, _).
     (pk, cp_epoch (ad_source att), cp_epoch (ad_target att), SigningRoot (signing_root att domain)))"

definition sign_one ::
  "attestation_data signing_root_fn \<Rightarrow> attestation_request \<Rightarrow> slashing_db \<Rightarrow>
   (safe, not_safe) result \<times> slashing_db" where
  "sign_one signing_root = (\<lambda>(att, pk, domain, check) db.
     case check of
       CheckNo \<Rightarrow> (Ok Valid, db)
     | CheckYes \<Rightarrow> check_and_insert_attestation_signing_root pk (cp_epoch (ad_source att))
         (cp_epoch (ad_target att)) (SigningRoot (signing_root att domain)) db)"

text \<open>
  The messages that the database vouches for. A request with \<open>CheckSlashability::No\<close> is answered \<open>Valid\<close>
  without a look at the database and without an entry in it, so it is not among them.
\<close>

definition answered ::
  "attestation_data signing_root_fn \<Rightarrow> safe \<Rightarrow> attestation_request \<Rightarrow> (safe, not_safe) result \<Rightarrow>
   attestation_message list" where
  "answered signing_root x req r =
     (if snd (snd (snd req)) = CheckYes \<and> r = Ok x then [message_of signing_root req] else [])"

lemma check_and_insert_each_run:
  "check_and_insert_each f reqs db = (rs, db') \<Longrightarrow>
     db' = run_events (\<lambda>req. snd \<circ> sign_one f req) reqs db \<and>
     concat (map2 (answered f x) reqs rs) =
       event_log (\<lambda>req. snd \<circ> sign_one f req) (\<lambda>req. answered f x req \<circ> fst \<circ> sign_one f req) reqs db \<and>
     length rs = length reqs"
proof (induction f reqs db arbitrary: rs rule: check_and_insert_each.induct)
  case (2 f att pk domain reqs db)
  then show ?case by (auto simp: sign_one_def answered_def Let_def split: prod.splits)
next
  case (3 f att pk domain reqs db)
  then show ?case by (auto simp: sign_one_def Let_def split: prod.splits)
qed simp

lemma sign_one_laws:
  assumes "db_inv db" "sign_one f req db = (r, db')"
  shows "db_inv db'" "protection_le db db'" "recorded_blocks db' = recorded_blocks db"
    "m \<in> set (answered f Valid req r) \<Longrightarrow> protects_attestation db' m"
    "m \<in> set (answered f Valid req r) \<Longrightarrow> protects_attestation db m' \<Longrightarrow> \<not> attestation_conflict m' m"
    "recorded_attestations db' \<subseteq> recorded_attestations db \<union> attestation_key ` set (answered f Valid req r)"
    "attestation_key ` set (answered f SameData req r) \<subseteq> recorded_attestations db"
proof -
  obtain att pk domain c where req: "req = (att, pk, domain, c)" by (cases req)
  have "db_inv db' \<and> protection_le db db' \<and> recorded_blocks db' = recorded_blocks db \<and>
      (m \<in> set (answered f Valid req r) \<longrightarrow> protects_attestation db' m \<and>
        (protects_attestation db m' \<longrightarrow> \<not> attestation_conflict m' m)) \<and>
      recorded_attestations db' \<subseteq> recorded_attestations db \<union> attestation_key ` set (answered f Valid req r) \<and>
      attestation_key ` set (answered f SameData req r) \<subseteq> recorded_attestations db"
  proof (cases c)
    case CheckNo
    then show ?thesis using assms by (auto simp: req sign_one_def answered_def)
  next
    case CheckYes
    then have run: "check_and_insert_attestation_signing_root pk (cp_epoch (ad_source att))
         (cp_epoch (ad_target att)) (SigningRoot (f att domain)) db = (r, db')"
      using assms(2) by (simp add: req sign_one_def)
    show ?thesis
      using sign_attestation_inv [OF run assms(1)] sign_attestation_protection [OF run assms(1)]
        sign_attestation_recorded [OF run assms(1)]
      by (cases "r = Inr Valid"; cases "r = Inr SameData")
         (auto simp: req CheckYes answered_def message_of_def attestation_key_def)
  qed
  then show "db_inv db'" "protection_le db db'" "recorded_blocks db' = recorded_blocks db"
    "m \<in> set (answered f Valid req r) \<Longrightarrow> protects_attestation db' m"
    "m \<in> set (answered f Valid req r) \<Longrightarrow> protects_attestation db m' \<Longrightarrow> \<not> attestation_conflict m' m"
    "recorded_attestations db' \<subseteq> recorded_attestations db \<union> attestation_key ` set (answered f Valid req r)"
    "attestation_key ` set (answered f SameData req r) \<subseteq> recorded_attestations db" by blast+
qed

interpretation one_attestation: signing_guard
  "\<lambda>req. snd \<circ> sign_one f req"
  "\<lambda>req. answered f Valid req \<circ> fst \<circ> sign_one f req"
  "\<lambda>req. answered f SameData req \<circ> fst \<circ> sign_one f req"
  "\<lambda>req. answered f Valid req \<circ> fst \<circ> sign_one f req"
  db_inv protects_attestation attestation_conflict attestation_key recorded_attestations
  for f
proof
  fix db req m m' assume inv: "db_inv db"
  note laws = sign_one_laws [OF inv surjective_pairing, where f = f and req = req]
  show "db_inv ((snd \<circ> sign_one f req) db)"
    using laws(1) by simp
  show "protects_attestation db m \<Longrightarrow> protects_attestation ((snd \<circ> sign_one f req) db) m"
    using laws(2) unfolding protection_le_def comp_def by blast
  show "m \<in> set ((answered f Valid req \<circ> fst \<circ> sign_one f req) db) \<Longrightarrow>
      protects_attestation ((snd \<circ> sign_one f req) db) m"
    using laws(4) by simp
  show "protects_attestation db m \<Longrightarrow> m' \<in> set ((answered f Valid req \<circ> fst \<circ> sign_one f req) db) \<Longrightarrow>
      \<not> attestation_conflict m m'"
    using laws(5) by simp
  show "sorted_wrt (\<lambda>m m'. \<not> attestation_conflict m m') ((answered f Valid req \<circ> fst \<circ> sign_one f req) db)"
    by (simp add: answered_def)
  show "recorded_attestations ((snd \<circ> sign_one f req) db) \<subseteq> recorded_attestations db \<union>
      attestation_key ` set ((answered f Valid req \<circ> fst \<circ> sign_one f req) db)"
    using laws(6) by simp
  show "attestation_key ` set ((answered f SameData req \<circ> fst \<circ> sign_one f req) db) \<subseteq>
      recorded_attestations db \<union> attestation_key ` set ((answered f Valid req \<circ> fst \<circ> sign_one f req) db)"
    using laws(7) by auto
qed simp

lemma run_sign_one:
  "db_inv db \<Longrightarrow> protection_le db (run_events (\<lambda>req. snd \<circ> sign_one f req) reqs db) \<and>
     recorded_blocks (run_events (\<lambda>req. snd \<circ> sign_one f req) reqs db) = recorded_blocks db"
proof (induction reqs arbitrary: db)
  case (Cons req reqs)
  note laws = sign_one_laws [OF Cons.prems surjective_pairing, where f = f and req = req]
  show ?case using Cons.IH [OF laws(1)] laws(2,3) protection_le_trans by auto
qed simp

lemma check_and_insert_attestations_cases:
  assumes "check_and_insert_attestations f env reqs db = (r, db')"
  obtains (committed) rs where "r = Inr rs" "db' = run_events (\<lambda>req. snd \<circ> sign_one f req) reqs db"
      "\<And>x. concat (map2 (answered f x) reqs rs) =
         event_log (\<lambda>req. snd \<circ> sign_one f req) (\<lambda>req. answered f x req \<circ> fst \<circ> sign_one f req) reqs db"
    | (rolled_back) e where "r = Inl e" "db' = db"
  using assms unfolding check_and_insert_attestations_def
proof (cases rule: with_transaction_cases)
  case (committed rs)
  then have "check_and_insert_each f reqs db = (rs, db')" by (auto simp: Let_def split: prod.splits)
  from check_and_insert_each_run [OF this] committed that(1) show ?thesis by blast
qed (use that in auto)

section \<open>Events\<close>

text \<open>
  The calls of the public operations of the database that write to it, with the outcomes of the
  connection pool and of the transaction.
\<close>

datatype db_event =
    RegisterValidators sql_env "pubkey list"
  | SignBlock sql_env pubkey beacon_block_header hash256
  | SignAttestations sql_env "attestation_request list"
  | PruneBlocks sql_env "pubkey list" slot
  | PruneAttestations sql_env "pubkey list" epoch
  | ImportInterchange sql_env interchange hash256
  | ExportForKeys sql_env hash256 "pubkey list"

fun exec_event ::
  "beacon_block_header signing_root_fn \<Rightarrow> attestation_data signing_root_fn \<Rightarrow>
   db_event \<Rightarrow> slashing_db \<Rightarrow> slashing_db" where
  "exec_event b a (RegisterValidators env pks) db = snd (register_validators env pks db)"
| "exec_event b a (SignBlock env pk header domain) db =
     snd (check_and_insert_block_proposal b env pk header domain db)"
| "exec_event b a (SignAttestations env reqs) db = snd (check_and_insert_attestations a env reqs db)"
| "exec_event b a (PruneBlocks env pks slot) db = snd (prune_all_signed_blocks env pks slot db)"
| "exec_event b a (PruneAttestations env pks target) db =
     snd (prune_all_signed_attestations env pks target db)"
| "exec_event b a (ImportInterchange env ic root) db = snd (import_interchange_info env ic root db)"
| "exec_event b a (ExportForKeys env root pks) db =
     snd (export_slashing_protection_for_keys env root pks db)"

text \<open>The messages for which an event answers \<open>x\<close>.\<close>

fun block_answers ::
  "beacon_block_header signing_root_fn \<Rightarrow> safe \<Rightarrow> db_event \<Rightarrow> slashing_db \<Rightarrow> block_message list" where
  "block_answers b x (SignBlock env pk header domain) db =
     (if fst (check_and_insert_block_proposal b env pk header domain db) = Ok x
      then [(pk, bh_slot header, SigningRoot (b header domain))] else [])"
| "block_answers b x _ db = []"

fun attestation_answers ::
  "attestation_data signing_root_fn \<Rightarrow> safe \<Rightarrow> db_event \<Rightarrow> slashing_db \<Rightarrow> attestation_message list" where
  "attestation_answers a x (SignAttestations env reqs) db =
     (case fst (check_and_insert_attestations a env reqs db) of
        Inl _ \<Rightarrow> []
      | Inr rs \<Rightarrow> concat (map2 (answered a x) reqs rs))"
| "attestation_answers a x _ db = []"

text \<open>All answers \<open>x\<close> of a batch, each with the check that its request asked for.\<close>

fun batch_answers ::
  "attestation_data signing_root_fn \<Rightarrow> safe \<Rightarrow> db_event \<Rightarrow> slashing_db \<Rightarrow>
   (attestation_message \<times> check_slashability) list" where
  "batch_answers a x (SignAttestations env reqs) db =
     (case fst (check_and_insert_attestations a env reqs db) of
        Inl _ \<Rightarrow> []
      | Inr rs \<Rightarrow> map (\<lambda>(req, _). (message_of a req, snd (snd (snd req))))
          (filter (\<lambda>(_, r). r = Ok x) (zip reqs rs)))"
| "batch_answers a x _ db = []"

lemma batch_answers_checked:
  "attestation_answers a x e db = map fst (filter (\<lambda>p. snd p = CheckYes) (batch_answers a x e db))"
proof -
  have "concat (map2 (answered a x) reqs rs) = map fst (filter (\<lambda>p. snd p = CheckYes)
      (map (\<lambda>(req, _). (message_of a req, snd (snd (snd req)))) (filter (\<lambda>(_, r). r = Ok x) (zip reqs rs))))" for reqs rs
    by (induction reqs rs rule: list_induct2') (auto simp: answered_def)
  then show ?thesis by (cases e) (simp_all split: sum.splits)
qed

text \<open>The messages that an import brings in.\<close>

definition imported_root :: "hash256 option \<Rightarrow> signing_root" where
  "imported_root h = SigningRoot (case h of None \<Rightarrow> 0 | Some x \<Rightarrow> x)"

fun imported_blocks :: "db_event \<Rightarrow> slashing_db \<Rightarrow> block_message list" where
  "imported_blocks (ImportInterchange env ic root) db =
     (case fst (import_interchange_info env ic root db) of
        Inl _ \<Rightarrow> []
      | Inr _ \<Rightarrow> concat (map (\<lambda>entry. map (\<lambda>x. (id_pubkey entry, ib_slot x, imported_root (ib_signing_root x)))
                 (id_signed_blocks entry)) (ic_data ic)))"
| "imported_blocks _ db = []"

fun imported_attestations :: "db_event \<Rightarrow> slashing_db \<Rightarrow> attestation_message list" where
  "imported_attestations (ImportInterchange env ic root) db =
     (case fst (import_interchange_info env ic root db) of
        Inl _ \<Rightarrow> []
      | Inr _ \<Rightarrow> concat (map (\<lambda>entry.
            map (\<lambda>x. (id_pubkey entry, ia_source_epoch x, ia_target_epoch x, imported_root (ia_signing_root x)))
                 (id_signed_attestations entry)) (ic_data ic)))"
| "imported_attestations _ db = []"

definition known_blocks ::
  "beacon_block_header signing_root_fn \<Rightarrow> db_event \<Rightarrow> slashing_db \<Rightarrow> block_message list" where
  "known_blocks b e db = block_answers b Valid e db @ imported_blocks e db"

definition known_attestations ::
  "attestation_data signing_root_fn \<Rightarrow> db_event \<Rightarrow> slashing_db \<Rightarrow> attestation_message list" where
  "known_attestations a e db = attestation_answers a Valid e db @ imported_attestations e db"

section \<open>Every event fulfils the contract\<close>

lemma exec_event_quiet:
  assumes "db_inv db"
    and "\<And>env pk header domain. e \<noteq> SignBlock env pk header domain" "\<And>env reqs. e \<noteq> SignAttestations env reqs"
  shows "db_inv (exec_event b a e db) \<and> guard_le db (exec_event b a e db)"
proof (cases e)
  case (RegisterValidators env pks)
  then show ?thesis using register_validators_guard [OF surjective_pairing assms(1)] by simp
next
  case (PruneBlocks env pks s)
  then show ?thesis using prune_all_signed_blocks_guard [OF surjective_pairing assms(1)] by simp
next
  case (PruneAttestations env pks s)
  then show ?thesis using prune_all_signed_attestations_guard [OF surjective_pairing assms(1)] by simp
next
  case (ImportInterchange env ic root)
  show ?thesis
    unfolding ImportInterchange exec_event.simps
    by (rule import_interchange_info_cases [OF surjective_pairing assms(1)]) (use assms in auto)
next
  case (ExportForKeys env root pks)
  then show ?thesis
    using registry_le_guarded [OF export_for_keys_registry [OF surjective_pairing] assms(1)] by simp
qed (use assms in auto)

lemma imported_protected:
  assumes "db_inv db"
  shows "m \<in> set (imported_blocks e db) \<Longrightarrow> protects_block (exec_event b a e db) m"
    and "m' \<in> set (imported_attestations e db) \<Longrightarrow> protects_attestation (exec_event b a e db) m'"
proof -
  have "(m \<in> set (imported_blocks e db) \<longrightarrow> protects_block (exec_event b a e db) m) \<and>
      (m' \<in> set (imported_attestations e db) \<longrightarrow> protects_attestation (exec_event b a e db) m')"
  proof (cases e)
    case (ImportInterchange env ic root)
    show ?thesis
      unfolding ImportInterchange exec_event.simps imported_blocks.simps imported_attestations.simps
      by (rule import_interchange_info_cases [OF surjective_pairing assms(1), of env ic root])
         (auto simp: protects_record_def)
  qed auto
  then show "m \<in> set (imported_blocks e db) \<Longrightarrow> protects_block (exec_event b a e db) m"
    "m' \<in> set (imported_attestations e db) \<Longrightarrow> protects_attestation (exec_event b a e db) m'" by blast+
qed

lemma sign_block_event:
  assumes "check_and_insert_block_proposal b env pk header domain db = (r, db')" "db_inv db"
  shows "db_inv db'" "protection_le db db'" "recorded_attestations db' = recorded_attestations db"
    "r = Inr Valid \<Longrightarrow> protects_block db' (pk, bh_slot header, SigningRoot (b header domain))"
    "r = Inr Valid \<Longrightarrow> protects_block db m \<Longrightarrow>
       \<not> block_conflict m (pk, bh_slot header, SigningRoot (b header domain))"
    "recorded_blocks db' \<subseteq> recorded_blocks db \<union>
       (if r = Inr Valid then {(pk, bh_slot header, SigningRoot (b header domain))} else {})"
    "r = Inr SameData \<Longrightarrow> (pk, bh_slot header, SigningRoot (b header domain)) \<in> recorded_blocks db"
proof -
  let ?m = "(pk, bh_slot header, SigningRoot (b header domain))"
  have "db_inv db' \<and> protection_le db db' \<and> recorded_attestations db' = recorded_attestations db \<and>
    (r = Inr Valid \<longrightarrow> protects_block db' ?m \<and> (protects_block db m \<longrightarrow> \<not> block_conflict m ?m)) \<and>
    recorded_blocks db' \<subseteq> recorded_blocks db \<union> (if r = Inr Valid then {?m} else {}) \<and>
    (r = Inr SameData \<longrightarrow> ?m \<in> recorded_blocks db)"
    using assms(1) unfolding check_and_insert_block_proposal_def check_and_insert_block_signing_root_def
  proof (cases rule: with_transaction_cases)
    case (committed a)
    note laws = sign_block_inv [OF committed(2) assms(2)] sign_block_protection [OF committed(2) assms(2)]
      sign_block_recorded [OF committed(2) assms(2)]
    have "\<not> block_conflict m ?m" if "a = Valid" "protects_block db m"
      using laws(4) that by (cases m) (auto simp: block_conflict_def)
    with laws committed(1) show ?thesis by simp
  qed (use assms in auto)
  then show "db_inv db'" "protection_le db db'" "recorded_attestations db' = recorded_attestations db"
    "r = Inr Valid \<Longrightarrow> protects_block db' ?m" "r = Inr Valid \<Longrightarrow> protects_block db m \<Longrightarrow> \<not> block_conflict m ?m"
    "recorded_blocks db' \<subseteq> recorded_blocks db \<union> (if r = Inr Valid then {?m} else {})"
    "r = Inr SameData \<Longrightarrow> ?m \<in> recorded_blocks db"
    by blast+
qed

lemma sign_attestations_event:
  assumes "check_and_insert_attestations a env reqs db = (r, db')" "db_inv db"
  shows "db_inv db'" "protection_le db db'" "recorded_blocks db' = recorded_blocks db"
proof -
  have "db_inv db' \<and> protection_le db db' \<and> recorded_blocks db' = recorded_blocks db"
    using assms(1)
  proof (cases rule: check_and_insert_attestations_cases)
    case (committed rs)
    then show ?thesis using one_attestation.run_inv run_sign_one assms(2) by auto
  qed (use assms(2) in auto)
  then show "db_inv db'" "protection_le db db'" "recorded_blocks db' = recorded_blocks db" by blast+
qed

lemma exec_event_inv: "db_inv db \<Longrightarrow> db_inv (exec_event b a e db)"
  by (cases e) (auto intro: sign_block_event(1) [OF surjective_pairing] sign_attestations_event(1) [OF surjective_pairing]
      simp del: exec_event.simps(1,4-7) dest: exec_event_quiet)

lemma exec_event_protection: "db_inv db \<Longrightarrow> protection_le db (exec_event b a e db)"
  by (cases e) (auto intro: sign_block_event(2) [OF surjective_pairing] sign_attestations_event(2) [OF surjective_pairing]
      simp del: exec_event.simps(1,4-7) dest: exec_event_quiet simp: guard_le_def)

lemma attestation_answers_cases:
  obtains (batch) env reqs where "e = SignAttestations env reqs"
      "exec_event b a e db = run_events (\<lambda>req. snd \<circ> sign_one a req) reqs db"
      "\<And>x. attestation_answers a x e db =
         event_log (\<lambda>req. snd \<circ> sign_one a req) (\<lambda>req. answered a x req \<circ> fst \<circ> sign_one a req) reqs db"
    | (rolled_back) env reqs where "e = SignAttestations env reqs" "exec_event b a e db = db"
        "\<And>x. attestation_answers a x e db = []"
    | (other) "\<And>env reqs. e \<noteq> SignAttestations env reqs" "\<And>x. attestation_answers a x e db = []"
proof (cases e)
  case (SignAttestations env reqs)
  obtain r db' where run: "check_and_insert_attestations a env reqs db = (r, db')" by fastforce
  from run show ?thesis
  proof (cases rule: check_and_insert_attestations_cases)
    case (committed rs)
    with SignAttestations run that(1) show ?thesis by simp
  next
    case (rolled_back err)
    with SignAttestations run that(2) show ?thesis by simp
  qed
qed (use that(3) in auto)

interpretation block_guard: signing_guard
  "exec_event b a" "block_answers b Valid" "block_answers b SameData" "known_blocks b"
  db_inv protects_block block_conflict "\<lambda>m. m" recorded_blocks
  for b a
proof
  fix db e m m' assume inv: "db_inv db"
  show "db_inv (exec_event b a e db)" using inv by (rule exec_event_inv)
  show "protects_block db m \<Longrightarrow> protects_block (exec_event b a e db) m"
    using exec_event_protection [OF inv] unfolding protection_le_def by blast
  note sign = sign_block_event [OF surjective_pairing inv]
  have "m \<in> set (block_answers b Valid e db) \<Longrightarrow> protects_block (exec_event b a e db) m"
    by (cases e) (auto intro: sign(4) split: if_splits)
  then show "m \<in> set (known_blocks b e db) \<Longrightarrow> protects_block (exec_event b a e db) m"
    using imported_protected(1) [OF inv] unfolding known_blocks_def set_append by blast
  show "protects_block db m \<Longrightarrow> m' \<in> set (block_answers b Valid e db) \<Longrightarrow> \<not> block_conflict m m'"
    by (cases e) (auto dest: sign(5) split: if_splits)
  show "sorted_wrt (\<lambda>m m'. \<not> block_conflict m m') (block_answers b Valid e db)"
    by (cases e) auto
  show "recorded_blocks (exec_event b a e db) \<subseteq> recorded_blocks db \<union> (\<lambda>m. m) ` set (block_answers b Valid e db)"
  proof (cases e)
    case (SignBlock env pk header domain)
    then show ?thesis using sign(6) [of b env pk header domain] by (auto split: if_splits)
  next
    case (SignAttestations env reqs)
    then show ?thesis using sign_attestations_event(3) [OF surjective_pairing inv] by simp
  qed (use exec_event_quiet [OF inv, of e b a] in \<open>auto simp: guard_le_def simp del: exec_event.simps\<close>)
  show "(\<lambda>m. m) ` set (block_answers b SameData e db) \<subseteq> recorded_blocks db \<union> (\<lambda>m. m) ` set (block_answers b Valid e db)"
    by (cases e) (auto dest: sign(7) split: if_splits)
qed (simp add: known_blocks_def)

interpretation attestation_guard: signing_guard
  "exec_event b a" "attestation_answers a Valid" "attestation_answers a SameData" "known_attestations a"
  db_inv protects_attestation attestation_conflict attestation_key recorded_attestations
  for b a
proof
  fix db e m m' assume inv: "db_inv db"
  show "db_inv (exec_event b a e db)" using inv by (rule exec_event_inv)
  show "protects_attestation db m \<Longrightarrow> protects_attestation (exec_event b a e db) m"
    using exec_event_protection [OF inv] unfolding protection_le_def by blast
  have "m \<in> set (attestation_answers a Valid e db) \<Longrightarrow> protects_attestation (exec_event b a e db) m"
    by (rule attestation_answers_cases [of e b a db]) (auto intro: one_attestation.log_protected inv simp del: exec_event.simps attestation_answers.simps)
  then show "m \<in> set (known_attestations a e db) \<Longrightarrow> protects_attestation (exec_event b a e db) m"
    using imported_protected(2) [OF inv] unfolding known_attestations_def set_append by blast
  show "protects_attestation db m \<Longrightarrow> m' \<in> set (attestation_answers a Valid e db) \<Longrightarrow> \<not> attestation_conflict m m'"
    by (rule attestation_answers_cases [of e b a db]) (auto dest: one_attestation.log_fresh [OF inv] simp del: exec_event.simps attestation_answers.simps)
  show "sorted_wrt (\<lambda>m m'. \<not> attestation_conflict m m') (attestation_answers a Valid e db)"
    by (rule attestation_answers_cases [of e b a db]) (auto intro: one_attestation.log_pairwise inv simp del: exec_event.simps attestation_answers.simps)
  show "recorded_attestations (exec_event b a e db) \<subseteq>
      recorded_attestations db \<union> attestation_key ` set (attestation_answers a Valid e db)"
  proof (rule attestation_answers_cases [of e b a db])
    assume "\<And>env reqs. e \<noteq> SignAttestations env reqs"
    then show ?thesis
      using sign_block_event(3) [OF surjective_pairing inv] exec_event_quiet [OF inv, of e b a]
      by (cases e) (auto simp: guard_le_def simp del: exec_event.simps(1,4-7))
  qed (use one_attestation.run_recorded [OF inv] in \<open>auto simp del: exec_event.simps attestation_answers.simps\<close>)
  show "attestation_key ` set (attestation_answers a SameData e db) \<subseteq>
      recorded_attestations db \<union> attestation_key ` set (attestation_answers a Valid e db)"
    by (rule attestation_answers_cases [of e b a db]) (use one_attestation.log_resigned [OF inv] in \<open>auto simp del: exec_event.simps attestation_answers.simps\<close>)
qed (simp add: known_attestations_def)

section \<open>What an import refuses\<close>

lemma protects_every_block:
  assumes "db_inv db" "\<And>root. protects_block db (pk, s, root)" "lookup_id db pk = Some v"
  shows "blocks_of db v \<noteq> []"
    "\<forall>r \<in> set (blocks_of db v). uint s \<le> br_slot r \<and> (br_slot r = uint s \<longrightarrow> br_signing_root r = 0)"
proof -
  let ?rows = "blocks_of db v"
  obtain h where h: "\<forall>r \<in> set ?rows. br_slot r = uint s \<longrightarrow> br_signing_root r \<noteq> h"
  proof (cases "\<exists>r \<in> set ?rows. br_slot r = uint s")
    case True
    then obtain r where r: "r \<in> set ?rows" "br_slot r = uint s" by blast
    then have "\<forall>r' \<in> set ?rows. br_slot r' = uint s \<longrightarrow> r' = r"
      using assms(1) by (fastforce simp: db_inv_defs)
    then show ?thesis using that [of "br_signing_root r + 1"] by force
  qed (use that [of 0] in blast)
  have "block_protected ?rows (uint s) h"
    using assms(2) [of "SigningRoot h"] assms(3) by (simp add: protects_block_def)
  with h show "?rows \<noteq> []"
    "\<forall>r \<in> set ?rows. uint s \<le> br_slot r \<and> (br_slot r = uint s \<longrightarrow> br_signing_root r = 0)"
    by (auto simp: block_protected_def simp del: set_blocks_of)
qed

lemma protects_every_attestation:
  assumes "db_inv db" "\<And>root. protects_attestation db (pk, s, t, root)" "lookup_id db pk = Some v"
  shows "attestations_of db v \<noteq> []"
    "\<forall>r \<in> set (attestations_of db v). uint s \<le> ar_source_epoch r \<and> uint t \<le> ar_target_epoch r \<and>
       (ar_target_epoch r = uint t \<longrightarrow> ar_signing_root r = 0)"
proof -
  let ?rows = "attestations_of db v"
  obtain h where h: "\<forall>r \<in> set ?rows. ar_target_epoch r = uint t \<longrightarrow> ar_signing_root r \<noteq> h"
  proof (cases "\<exists>r \<in> set ?rows. ar_target_epoch r = uint t")
    case True
    then obtain r where r: "r \<in> set ?rows" "ar_target_epoch r = uint t" by blast
    then have "\<forall>r' \<in> set ?rows. ar_target_epoch r' = uint t \<longrightarrow> r' = r"
      using assms(1) by (fastforce simp: db_inv_defs)
    then show ?thesis using that [of "ar_signing_root r + 1"] by force
  qed (use that [of 0] in blast)
  have "attestation_protected ?rows (uint s) (uint t) h"
    using assms(2) [of "SigningRoot h"] assms(3) by (simp add: protects_attestation_def)
  with h show "?rows \<noteq> []"
    "\<forall>r \<in> set ?rows. uint s \<le> ar_source_epoch r \<and> uint t \<le> ar_target_epoch r \<and>
       (ar_target_epoch r = uint t \<longrightarrow> ar_signing_root r = 0)"
    by (auto simp: attestation_protected_def simp del: set_attestations_of)
qed

lemma protected_block_refused:
  assumes "db_inv db" "\<And>root. protects_block db (pk, s, root)" "slot \<le> s"
  shows "\<exists>e. check_block_proposal db pk slot root = Inl e"
proof (rule ccontr)
  assume "\<not> ?thesis"
  then obtain x where x: "check_block_proposal db pk slot root = Inr x"
    by (cases "check_block_proposal db pk slot root") auto
  then obtain v where v: "get_validator_id_in_txn db pk = Inr v" using check_block_proposal_Ok_id by blast
  note rows = protects_every_block [OF assms(1,2) get_validator_id_lookup [OF v]]
  have wf: "blocks_wf db" and le: "uint slot \<le> uint s" using assms by (auto simp: db_inv_def word_le_def)
  show False
  proof (cases x)
    case Valid
    with x v wf rows le show False by (force simp: check_block_proposal_Valid simp del: set_blocks_of)
  next
    case SameData
    with x v wf obtain r where "\<not> is_null root" "r \<in> set (blocks_of db v)" "br_slot r = uint slot"
        "br_signing_root r = to_hash256_raw root"
      by (auto simp: check_block_proposal_SameData simp del: set_blocks_of)
    with rows(2) le show False by (force simp: is_null_raw)
  qed
qed

lemma protected_attestation_refused:
  assumes "db_inv db" "\<And>root. protects_attestation db (pk, s, t, root)"
  shows "target \<le> t \<Longrightarrow> \<exists>e. check_attestation db pk source target root = Inl e"
    "source < s \<Longrightarrow> check_attestation db pk source target root \<noteq> Inr Valid"
proof -
  have wf: "attestations_wf db" using assms by (auto simp: db_inv_def)
  have valid: "\<not> (source < s \<or> target \<le> t)" if x: "check_attestation db pk source target root = Inr Valid"
  proof -
    from x obtain v where v: "get_validator_id_in_txn db pk = Inr v" using check_attestation_Ok_id by blast
    note rows = protects_every_attestation [OF assms get_validator_id_lookup [OF v]]
    from x v wf have "(\<exists>r \<in> set (attestations_of db v). ar_source_epoch r \<le> uint source) \<and>
       (\<exists>r \<in> set (attestations_of db v). ar_target_epoch r < uint target)"
      using rows(1) by (auto simp: check_attestation_Valid simp del: set_attestations_of)
    with rows(2) show ?thesis by (force simp: word_le_def word_less_def)
  qed
  have same: "\<not> target \<le> t" if x: "check_attestation db pk source target root = Inr SameData"
  proof -
    from x obtain v where v: "get_validator_id_in_txn db pk = Inr v" using check_attestation_Ok_id by blast
    note rows = protects_every_attestation [OF assms get_validator_id_lookup [OF v]]
    from x v wf obtain r where "\<not> is_null root" "r \<in> set (attestations_of db v)" "ar_target_epoch r = uint target"
        "ar_signing_root r = to_hash256_raw root"
      by (auto simp: check_attestation_SameData simp del: set_attestations_of)
    with rows(2) show ?thesis by (force simp: is_null_raw word_le_def)
  qed
  show "target \<le> t \<Longrightarrow> \<exists>e. check_attestation db pk source target root = Inl e"
    using valid same by (cases "check_attestation db pk source target root") (auto, metis safe.exhaust)
  show "source < s \<Longrightarrow> check_attestation db pk source target root \<noteq> Inr Valid"
    using valid by blast
qed

lemma import_records_outcomes:
  assumes "import_records records db = (outcomes, db')" "db_inv db"
  shows "Failure pk ConsistencyError \<notin> set outcomes"
    and "list_all record_in_range records \<Longrightarrow> list_all (\<lambda>c. \<not> failed c) outcomes"
proof -
  have "Failure pk ConsistencyError \<notin> set outcomes \<and>
      (list_all record_in_range records \<longrightarrow> list_all (\<lambda>c. \<not> failed c) outcomes)"
    using assms
  proof (induction records arbitrary: db outcomes)
    case (Cons entry rest)
    obtain r db1 where one: "import_interchange_record entry db = (r, db1)" by fastforce
    from Cons.prems(1) one obtain outs where more: "import_records rest db1 = (outs, db')"
      and outs: "outcomes = (case r of Inr s \<Rightarrow> Success (id_pubkey entry) s
        | Inl e \<Rightarrow> Failure (id_pubkey entry) e) # outs" by (auto simp: Let_def split: prod.splits)
    from one Cons.prems(2) show ?case
      by (cases rule: import_interchange_record_cases) (use Cons.IH [OF more] outs in auto)
  qed simp
  then show "Failure pk ConsistencyError \<notin> set outcomes"
    "list_all record_in_range records \<Longrightarrow> list_all (\<lambda>c. \<not> failed c) outcomes" by blast+
qed

section \<open>Exports\<close>

definition exported_block :: "block_row \<Rightarrow> interchange_block" where
  "exported_block r = \<lparr>ib_slot = word_of_int (br_slot r),
     ib_signing_root = to_hash256 (SigningRoot (br_signing_root r))\<rparr>"

definition exported_attestation :: "attestation_row \<Rightarrow> interchange_attestation" where
  "exported_attestation r = \<lparr>ia_source_epoch = word_of_int (ar_source_epoch r),
     ia_target_epoch = word_of_int (ar_target_epoch r),
     ia_signing_root = to_hash256 (SigningRoot (ar_signing_root r))\<rparr>"

lemma collect_results_map: "(\<And>x. x \<in> set xs \<Longrightarrow> f x = Inr (g x)) \<Longrightarrow> collect_results f xs = Inr (map g xs)"
  by (induction xs) auto

lemma interchange_column_Ok: "sql_u63 i \<Longrightarrow> interchange_column i = Inr (word_of_int i)"
  by (simp add: interchange_column_def sql_u63_def)

lemma export_blocks_Ok:
  assumes "blocks_wf db"
  shows "export_interchange_blocks_for_validator db v =
    Inr (map exported_block (sort_key br_slot (blocks_of db v)))"
  unfolding export_interchange_blocks_for_validator_def
  using assms by (intro collect_results_map) (auto simp: blocks_wf_def exported_block_def interchange_column_Ok)

lemma export_attestations_Ok:
  assumes "attestations_wf db"
  shows "export_interchange_attestations_for_validator db v =
    Inr (map exported_attestation (sort_key ar_source_epoch (sort_key ar_target_epoch (attestations_of db v))))"
  unfolding export_interchange_attestations_for_validator_def
  using assms by (intro collect_results_map) (auto simp: attestations_wf_def exported_attestation_def interchange_column_Ok)

definition exported_record :: "slashing_db \<Rightarrow> validator_id \<Rightarrow> pubkey \<Rightarrow> interchange_data" where
  "exported_record db v pk = \<lparr>id_pubkey = pk,
     id_signed_blocks = map exported_block (sort_key br_slot (blocks_of db v)),
     id_signed_attestations =
       map exported_attestation (sort_key ar_source_epoch (sort_key ar_target_epoch (attestations_of db v)))\<rparr>"

lemma export_in_txn_Ok:
  assumes "db_inv db"
    and "case selected of None \<Rightarrow> ids = list_all_registered_validators db
         | Some pks \<Rightarrow> list_all2 (\<lambda>(v, pk) pk'. pk' = pk \<and> lookup_id db pk = Some v) ids pks"
  shows "export_interchange_info_in_txn root selected db = Inr
    \<lparr>ic_metadata = \<lparr>interchange_format_version = SUPPORTED_INTERCHANGE_FORMAT_VERSION,
        im_genesis_validators_root = root\<rparr>,
     ic_data = map (\<lambda>(v, pk). exported_record db v pk) ids\<rparr>"
proof -
  have wf: "blocks_wf db" "attestations_wf db" using assms(1) by (auto simp: db_inv_def)
  have sel: "collect_results (\<lambda>pk. bindE (map_err InterchangeNotSafe (get_validator_id_ignoring_status db pk))
      (\<lambda>v. Ok (v, pk))) pks = Inr ids"
    if "list_all2 (\<lambda>(v, pk) pk'. pk' = pk \<and> lookup_id db pk = Some v) ids pks" for pks
    using that by (induction rule: list_all2_induct)
      (auto simp: get_validator_id_ignoring_lookup [symmetric] split: prod.splits)
  have data: "collect_results (\<lambda>(v, pk).
              bindE (export_interchange_blocks_for_validator db v) (\<lambda>blocks.
              bindE (export_interchange_attestations_for_validator db v) (\<lambda>atts.
              Ok \<lparr>id_pubkey = pk, id_signed_blocks = blocks, id_signed_attestations = atts\<rparr>))) ids
      = Inr (map (\<lambda>(v, pk). exported_record db v pk) ids)" for ids
    by (intro collect_results_map) (auto simp: export_blocks_Ok export_attestations_Ok wf exported_record_def)
  show ?thesis
    using assms(2) sel by (cases selected) (auto simp: export_interchange_info_in_txn_def data)
qed

lemma exported_record_in_range: "db_inv db \<Longrightarrow> record_in_range (exported_record db v pk)"
  by (auto simp: record_in_range_def exported_record_def exported_block_def exported_attestation_def
      db_inv_defs uint_word_of_int_u63)

lemma protected_row:
  "block_protected rows s h \<Longrightarrow> \<exists>r \<in> set rows. s \<le> br_slot r"
  "attestation_protected arows s t h \<Longrightarrow> \<exists>r \<in> set arows. s \<le> ar_source_epoch r \<and> t \<le> ar_target_epoch r"
  by (cases rows; auto simp: block_protected_def) (cases arows; auto simp: attestation_protected_def)

text \<open>A database that has taken in the exported records protects what the exporting one protected.\<close>

lemma exported_record_protects:
  assumes "db_inv db" "db_inv db'" "lookup_id db pk = Some v" "protects_record db' (exported_record db v pk)"
  shows "protects_block db (pk, s, root) \<Longrightarrow> protects_block db' (pk, s, root)"
    and "protects_attestation db (pk, s, t, root) \<Longrightarrow> protects_attestation db' (pk, s, t, root)"
proof -
  assume "protects_block db (pk, s, root)"
  then obtain r where r: "r \<in> set (blocks_of db v)" "uint s \<le> br_slot r"
    using assms(3) by (auto simp: protects_block_def simp del: set_blocks_of dest: protected_row)
  have u: "uint (word_of_int (br_slot r) :: u64) = br_slot r"
    using r(1) assms(1) by (auto simp: db_inv_defs uint_word_of_int_u63)
  have all: "protects_block db' (pk, word_of_int (br_slot r), root)" for root
    using assms(4) r(1) by (auto simp: protects_record_def exported_record_def exported_block_def simp del: set_blocks_of)
  then obtain v' where v': "lookup_id db' pk = Some v'" by (auto simp: protects_block_def)
  from protects_every_block [OF assms(2) all v'] show "protects_block db' (pk, s, root)"
    unfolding protects_block_def block_protected_def using v' r(2) u by (force simp del: set_blocks_of)
next
  assume "protects_attestation db (pk, s, t, root)"
  then obtain r where r: "r \<in> set (attestations_of db v)" "uint s \<le> ar_source_epoch r" "uint t \<le> ar_target_epoch r"
    using assms(3) by (auto simp: protects_attestation_def simp del: set_attestations_of dest: protected_row)
  have u: "uint (word_of_int (ar_source_epoch r) :: u64) = ar_source_epoch r"
    "uint (word_of_int (ar_target_epoch r) :: u64) = ar_target_epoch r"
    using r(1) assms(1) by (auto simp: db_inv_defs uint_word_of_int_u63)
  have all: "protects_attestation db' (pk, word_of_int (ar_source_epoch r), word_of_int (ar_target_epoch r), root)" for root
    using assms(4) r(1)
    by (auto simp: protects_record_def exported_record_def exported_attestation_def simp del: set_attestations_of)
  then obtain v' where v': "lookup_id db' pk = Some v'" by (auto simp: protects_attestation_def)
  from protects_every_attestation [OF assms(2) all v'] show "protects_attestation db' (pk, s, t, root)"
    unfolding protects_attestation_def attestation_protected_def using v' r(2,3) u by (force simp del: set_attestations_of)
qed

section \<open>Moving keys to another database\<close>

lemma list_all_registered_lookup:
  assumes "validators_wf db"
  shows "(v, pk) \<in> set (list_all_registered_validators db) \<longleftrightarrow> lookup_id db pk = Some v"
proof -
  have "(v, pk) \<in> set (list_all_registered_validators db) \<longleftrightarrow>
      (\<exists>r \<in> set (validators db). vr_id r = v \<and> vr_public_key r = pk)"
    by (auto simp: list_all_registered_validators_def)
  also have "\<dots> \<longleftrightarrow> lookup_id db pk = Some v"
  proof
    assume "\<exists>r \<in> set (validators db). vr_id r = v \<and> vr_public_key r = pk"
    then obtain r where r: "r \<in> set (validators db)" "vr_id r = v" "vr_public_key r = pk" by blast
    then obtain r' where r': "find (\<lambda>x. vr_public_key x = pk) (validators db) = Some r'"
      by (cases "find (\<lambda>x. vr_public_key x = pk) (validators db)") (auto simp: find_eq_None)
    then have "r' = r"
      using r assms by (auto simp: validators_wf_def distinct_map dest!: find_SomeD dest: inj_onD)
    with r r' show "lookup_id db pk = Some v" by (simp add: lookup_id_def)
  qed (auto simp: lookup_id_def dest: find_SomeD)
  finally show ?thesis .
qed

lemma protection_le_records:
  assumes "db_inv db" "db_inv db'"
    and "\<And>pk v. lookup_id db pk = Some v \<Longrightarrow> protects_record db' (exported_record db v pk)"
  shows "protection_le db db'"
  unfolding protection_le_def
proof (intro conjI allI impI)
  fix m assume m: "protects_block db m"
  then obtain pk s root v where "m = (pk, s, root)" "lookup_id db pk = Some v"
    by (cases m) (auto simp: protects_block_def)
  with exported_record_protects(1) [OF assms(1,2) _ assms(3)] m show "protects_block db' m" by blast
next
  fix m assume m: "protects_attestation db m"
  then obtain pk s t root v where "m = (pk, s, t, root)" "lookup_id db pk = Some v"
    by (cases m) (auto simp: protects_attestation_def)
  with exported_record_protects(2) [OF assms(1,2) _ assms(3)] m show "protects_attestation db' m" by blast
qed

lemma export_import_all:
  assumes "db_inv db" "db_inv other" "pool_get env" "txn_begin env" "txn_commit env"
  shows "\<exists>ic outcomes other'. export_all_interchange_info env root db = Inr ic \<and>
     import_interchange_info env ic root other = (Inr outcomes, other') \<and>
     protection_le db other' \<and> protection_le other other'"
proof -
  let ?ids = "list_all_registered_validators db"
  define ic where ic: "ic = \<lparr>ic_metadata = \<lparr>interchange_format_version = SUPPORTED_INTERCHANGE_FORMAT_VERSION,
      im_genesis_validators_root = root\<rparr>, ic_data = map (\<lambda>(v, pk). exported_record db v pk) ?ids\<rparr>"
  have "export_all_interchange_info env root db = Inr ic"
    unfolding ic using assms(3,4) export_in_txn_Ok [OF assms(1), where selected = None and ids = ?ids and root = root]
    by (simp add: export_all_interchange_info_def export_interchange_info_def)
  moreover obtain outcomes other' where run: "import_records (ic_data ic) other = (outcomes, other')" by fastforce
  have "list_all record_in_range (ic_data ic)"
    using exported_record_in_range [OF assms(1)] by (auto simp: ic list_all_iff)
  note ok = import_records_outcomes(2) [OF run assms(2) this]
  note imp = import_records_Ok [OF run assms(2) ok]
  moreover have "import_interchange_info env ic root other = (Inr outcomes, other')"
    unfolding import_interchange_info_def Let_def run using assms(3-5) ok by (simp add: ic)
  moreover have "protection_le db other'"
  proof (rule protection_le_records [OF assms(1) imp(1)])
    fix pk v assume "lookup_id db pk = Some v"
    then have "(v, pk) \<in> set ?ids" using assms(1) by (simp add: list_all_registered_lookup db_inv_def)
    then have "exported_record db v pk \<in> set (ic_data ic)" by (force simp: ic)
    with imp(3) show "protects_record other' (exported_record db v pk)" by blast
  qed
  ultimately show ?thesis using imp(2) by (auto simp: guard_le_def)
qed

end
