(* ===== verification/Slashing_Maintenance.thy ===== *)
theory Slashing_Maintenance
  imports Slashing_Safety
begin

text \<open>
  The operations that look after the database: disabling keys on export, pruning, and the
  minification of interchange files. None of them makes a message acceptable that was refused.
\<close>

section \<open>Disabling and enabling keys\<close>

lemma find_update_status:
  "find (\<lambda>r. vr_public_key r = pk) (validators (snd (update_validator_status v st db))) =
     map_option (\<lambda>r. if vr_id r = v then r\<lparr>vr_enabled := st\<rparr> else r)
       (find (\<lambda>r. vr_public_key r = pk) (validators db))"
proof -
  have "find (\<lambda>r. vr_public_key r = pk) (map (\<lambda>r. if vr_id r = v then r\<lparr>vr_enabled := st\<rparr> else r) rs) =
     map_option (\<lambda>r. if vr_id r = v then r\<lparr>vr_enabled := st\<rparr> else r) (find (\<lambda>r. vr_public_key r = pk) rs)" for rs
    by (induction rs) auto
  then show ?thesis by (simp add: update_validator_status_def)
qed

lemma get_validator_id_disabled:
  "get_validator_id_in_txn db pk = Inl (DisabledValidator pk) \<longleftrightarrow>
     (case find (\<lambda>r. vr_public_key r = pk) (validators db) of None \<Rightarrow> False | Some r \<Rightarrow> \<not> vr_enabled r)"
  by (cases "find (\<lambda>r. vr_public_key r = pk) (validators db)")
     (auto simp: get_validator_id_in_txn_def get_validator_id_with_status_Ok)

lemma disable_known_keys_disabled:
  assumes "disable_known_keys pks db = (known, db')"
  shows "known = filter (\<lambda>pk. lookup_id db pk \<noteq> None) pks"
    and "pk \<in> set pks \<Longrightarrow> lookup_id db pk \<noteq> None \<Longrightarrow>
      get_validator_id_in_txn db' pk = Inl (DisabledValidator pk)"
    and "get_validator_id_in_txn db pk = Inl (DisabledValidator pk) \<Longrightarrow>
      get_validator_id_in_txn db' pk = Inl (DisabledValidator pk)"
proof -
  have "known = filter (\<lambda>pk. lookup_id db pk \<noteq> None) pks \<and>
    (pk \<in> set pks \<and> lookup_id db pk \<noteq> None \<or> get_validator_id_in_txn db pk = Inl (DisabledValidator pk) \<longrightarrow>
      get_validator_id_in_txn db' pk = Inl (DisabledValidator pk))"
    using assms
  proof (induction pks arbitrary: db known)
    case (Cons k ks)
    show ?case
    proof (cases "get_validator_id_ignoring_status db k")
      case (Inl e)
      then have "lookup_id db k = None"
        by (metis get_validator_id_ignoring_lookup not_None_eq sum.distinct(1))
      with Cons Inl show ?thesis by auto
    next
      case (Inr v)
      let ?db = "snd (update_validator_status v False db)"
      from Cons.prems Inr obtain known' where rest: "disable_known_keys ks ?db = (known', db')"
        and known: "known = k # known'" by (auto simp: Let_def split: prod.splits)
      have k: "lookup_id db k = Some v" using Inr get_validator_id_ignoring_lookup by blast
      have same: "lookup_id ?db pk = None \<longleftrightarrow> lookup_id db pk = None" for pk
        by (simp add: lookup_id_def find_update_status)
      have "get_validator_id_in_txn ?db k = Inl (DisabledValidator k)"
        using k by (auto simp: get_validator_id_disabled find_update_status lookup_id_def)
      moreover have "get_validator_id_in_txn db pk = Inl (DisabledValidator pk) \<Longrightarrow>
          get_validator_id_in_txn ?db pk = Inl (DisabledValidator pk)" for pk
        by (auto simp: get_validator_id_disabled find_update_status split: option.splits)
      ultimately show ?thesis using Cons.IH [OF rest] known k by (auto simp: same)
    qed
  qed simp
  then show "known = filter (\<lambda>pk. lookup_id db pk \<noteq> None) pks"
    "pk \<in> set pks \<Longrightarrow> lookup_id db pk \<noteq> None \<Longrightarrow> get_validator_id_in_txn db' pk = Inl (DisabledValidator pk)"
    "get_validator_id_in_txn db pk = Inl (DisabledValidator pk) \<Longrightarrow>
      get_validator_id_in_txn db' pk = Inl (DisabledValidator pk)" by blast+
qed

lemma export_for_keys_cases:
  assumes "export_slashing_protection_for_keys env root pks db = (Inr ic, db')" "db_inv db"
  shows "pk \<in> set pks \<Longrightarrow> lookup_id db pk = Some v \<Longrightarrow>
      get_validator_id_in_txn db' pk = Inl (DisabledValidator pk) \<and> exported_record db v pk \<in> set (ic_data ic)"
    and "ic_metadata ic = \<lparr>interchange_format_version = SUPPORTED_INTERCHANGE_FORMAT_VERSION,
        im_genesis_validators_root = root\<rparr>"
    and "list_all record_in_range (ic_data ic)"
proof -
  obtain known where dis: "disable_known_keys pks db = (known, db')"
    and ex: "export_interchange_info_in_txn root (Some known) db' = Inr ic"
    using assms(1) by (auto simp: export_slashing_protection_for_keys_def Let_def
        split: if_splits prod.splits sum.splits)
  have reg: "registry_le db db'" using dis by (rule disable_known_keys_registry)
  then have inv: "db_inv db'" using assms(2) by (rule registry_le_inv)
  let ?ids = "map (\<lambda>pk. (the (lookup_id db' pk), pk)) known"
  have "lookup_id db' pk \<noteq> None" if "pk \<in> set known" for pk
    using that disable_known_keys_disabled(1) [OF dis] reg by (auto simp: registry_le_def)
  then have "list_all2 (\<lambda>(v, pk) pk'. pk' = pk \<and> lookup_id db' pk = Some v) ?ids known"
    by (auto simp: list_all2_conv_all_nth)
  then have ic: "ic = \<lparr>ic_metadata = \<lparr>interchange_format_version = SUPPORTED_INTERCHANGE_FORMAT_VERSION,
        im_genesis_validators_root = root\<rparr>, ic_data = map (\<lambda>(v, pk). exported_record db' v pk) ?ids\<rparr>"
    using ex export_in_txn_Ok [OF inv, where selected = "Some known" and ids = ?ids and root = root] by simp
  then show "ic_metadata ic = \<lparr>interchange_format_version = SUPPORTED_INTERCHANGE_FORMAT_VERSION,
        im_genesis_validators_root = root\<rparr>" "list_all record_in_range (ic_data ic)"
    using exported_record_in_range [OF inv] by (auto simp: list_all_iff)
  assume pk: "pk \<in> set pks" "lookup_id db pk = Some v"
  then have "pk \<in> set known" "lookup_id db' pk = Some v"
    using disable_known_keys_disabled(1) [OF dis] reg by (auto simp: registry_le_def)
  moreover have "exported_record db' v pk = exported_record db v pk"
    using reg by (simp add: exported_record_def registry_le_def blocks_of_def attestations_of_def)
  ultimately have "exported_record db v pk \<in> set (ic_data ic)" by (force simp: ic)
  with disable_known_keys_disabled(2) [OF dis pk(1)] pk(2)
  show "get_validator_id_in_txn db' pk = Inl (DisabledValidator pk) \<and> exported_record db v pk \<in> set (ic_data ic)"
    by simp
qed

lemma register_validator_keeps:
  assumes "register_validator_in_txn pk db = (r, db')" "get_validator_id_in_txn db pk' = Inr v"
  shows "get_validator_id_in_txn db' pk' = Inr v"
proof -
  have ins: "get_validator_id_in_txn (snd (insert_validator pk db)) pk' = Inr v"
    using assms(2) by (auto simp: insert_validator_def get_validator_id_in_txn_Ok find_append)
  have upd: "get_validator_id_in_txn (snd (update_validator_status w True db)) pk' = Inr v" for w
  proof -
    obtain r where "find (\<lambda>r. vr_public_key r = pk') (validators db) = Some r" "vr_id r = v" "vr_enabled r"
      using assms(2) get_validator_id_in_txn_Ok by blast
    then show ?thesis
      by (simp add: get_validator_id_in_txn_def get_validator_id_with_status_Ok find_update_status)
  qed
  have "db' = db \<or> db' = snd (insert_validator pk db) \<or> (\<exists>w. db' = snd (update_validator_status w True db))"
    using assms(1) unfolding register_validator_in_txn_def op_bind_def op_read_def op_return_def
      get_validator_id_with_status_Ok
    by (auto split: option.splits bool.splits) (metis snd_conv)+
  with ins upd assms(2) show ?thesis by auto
qed

lemma register_validators_enabled:
  assumes "register_validators_in_txn pks db = (Inr u, db')" "validators_wf db"
  shows "(\<forall>pk \<in> set pks. \<exists>v. get_validator_id_in_txn db' pk = Inr v) \<and>
    (\<forall>pk v. get_validator_id_in_txn db pk = Inr v \<longrightarrow> get_validator_id_in_txn db' pk = Inr v)"
  using assms
proof (induction pks arbitrary: db)
  case Nil
  then show ?case by (simp add: register_validators_in_txn_def)
next
  case (Cons k ks)
  from Cons.prems(1) obtain w db1 where one: "register_validator_in_txn k db = (Inr w, db1)"
    and rest: "register_validators_in_txn ks db1 = (Inr u, db')"
    by (auto simp: register_validators_in_txn_def elim: op_bind_cases)
  have "validators_wf db1" using register_validator_registry [OF one] Cons.prems(2) by (auto simp: registry_le_def)
  with Cons.IH [OF rest] register_validator_enabled [OF one Cons.prems(2)] register_validator_keeps [OF one]
  show ?case by (metis set_ConsD)
qed

lemma register_validators_total: "\<exists>db'. register_validators_in_txn pks db = (Inr (), db')"
proof (induction pks arbitrary: db)
  case (Cons k ks)
  obtain db1 where "register_validator_in_txn k db = (Inr (), db1)" using register_validator_total by blast
  with Cons show ?case by (auto simp: register_validators_in_txn_def op_bind_def)
qed (simp add: register_validators_in_txn_def op_return_def)

section \<open>Pruning accepts nothing new\<close>

lemma keep_max_Nil:
  assumes "set ys = {r \<in> set xs. P r \<or> (\<forall>r' \<in> set xs. (f r' :: int) \<le> f r)}"
  shows "ys = [] \<longleftrightarrow> xs = []"
proof (cases "xs = []")
  case False
  from exists_max [OF this, of f] assms show ?thesis by fastforce
qed (use assms in simp)

lemma prune_signed_blocks_Ok:
  assumes "prune_signed_blocks m pk db = (Inr u, db')" "get_validator_id_in_txn db pk = Inr v"
  shows "set (blocks_of db' v) = {r \<in> set (blocks_of db v).
      uint m \<le> br_slot r \<or> (\<forall>r' \<in> set (blocks_of db v). br_slot r' \<le> br_slot r)}"
    "get_validator_id_in_txn db' pk = Inr v"
proof -
  from assms have db': "db' = db\<lparr>signed_blocks :=
             filter (\<lambda>r. \<not> (br_validator_id r = v \<and> br_slot r < uint m \<and>
                            below_max (br_slot r) (map br_slot (blocks_of db v)))) (signed_blocks db)\<rparr>"
    by (cases "sql_u63 (uint m)") (auto simp: prune_signed_blocks_def)
  show "get_validator_id_in_txn db' pk = Inr v" using assms(2) by (simp add: db')
  show "set (blocks_of db' v) = {r \<in> set (blocks_of db v).
      uint m \<le> br_slot r \<or> (\<forall>r' \<in> set (blocks_of db v). br_slot r' \<le> br_slot r)}"
    unfolding db' blocks_of_filter set_filter below_max_iff set_map
    by (auto simp: not_less)
qed

lemma prune_signed_attestations_Ok:
  assumes "prune_signed_attestations m pk db = (Inr u, db')" "get_validator_id_in_txn db pk = Inr v"
  shows "set (attestations_of db' v) = {r \<in> set (attestations_of db v).
      uint m \<le> ar_target_epoch r \<or>
      (\<forall>r' \<in> set (attestations_of db v). ar_target_epoch r' \<le> ar_target_epoch r)}"
    "get_validator_id_in_txn db' pk = Inr v"
proof -
  from assms have db': "db' = db\<lparr>signed_attestations :=
             filter (\<lambda>r. \<not> (ar_validator_id r = v \<and> ar_target_epoch r < uint m \<and>
                below_max (ar_target_epoch r) (map ar_target_epoch (attestations_of db v))))
               (signed_attestations db)\<rparr>"
    by (cases "sql_u63 (uint m)") (auto simp: prune_signed_attestations_def)
  show "get_validator_id_in_txn db' pk = Inr v" using assms(2) by (simp add: db')
  show "set (attestations_of db' v) = {r \<in> set (attestations_of db v).
      uint m \<le> ar_target_epoch r \<or>
      (\<forall>r' \<in> set (attestations_of db v). ar_target_epoch r' \<le> ar_target_epoch r)}"
    unfolding db' attestations_of_filter set_filter below_max_iff set_map
    by (auto simp: not_less)
qed

lemma prune_signed_blocks_accepts:
  assumes "prune_signed_blocks m pk db = (Inr u, db')" "db_inv db"
    "check_block_proposal db' pk slot root = Inr x"
  shows "check_block_proposal db pk slot root = Inr x"
proof -
  obtain v where v: "get_validator_id_in_txn db pk = Inr v"
    using assms(1) by (auto simp: prune_signed_blocks_def split: sum.splits)
  note rows = prune_signed_blocks_Ok [OF assms(1) v]
  have wf: "blocks_wf db" "blocks_wf db'"
    using assms(2) prune_signed_blocks_inv [OF assms(1,2)] by (auto simp: db_inv_def)
  note ne = keep_max_Nil [OF rows(1)]
  have low: "br_slot d < br_slot r" if "d \<in> set (blocks_of db v)" "d \<notin> set (blocks_of db' v)"
      "r \<in> set (blocks_of db' v)" for d r
    using that unfolding rows(1) by (auto simp: not_le)
  show ?thesis
  proof (cases x)
    case Valid
    with assms(3) have c: "sql_u63 (uint slot)" "\<forall>r \<in> set (blocks_of db' v). br_slot r \<noteq> uint slot"
        "blocks_of db' v = [] \<or> (\<exists>r \<in> set (blocks_of db' v). br_slot r < uint slot)"
      using check_block_proposal_Valid [OF wf(2) rows(2)] by blast+
    have sub: "set (blocks_of db' v) \<subseteq> set (blocks_of db v)" unfolding rows(1) by blast
    have "\<forall>r \<in> set (blocks_of db v). br_slot r \<noteq> uint slot"
      using c(2,3) low ne by (metis less_trans order_less_irrefl empty_iff list.set(1))
    with c sub ne Valid show ?thesis using check_block_proposal_Valid [OF wf(1) v] by blast
  next
    case SameData
    with assms(3) show ?thesis
      using check_block_proposal_SameData [OF wf(2) rows(2)] check_block_proposal_SameData [OF wf(1) v] rows(1)
      by blast
  qed
qed

lemma prune_signed_attestations_accepts:
  assumes "prune_signed_attestations m pk db = (Inr u, db')" "db_inv db"
    "check_attestation db' pk source target root = Inr x"
  shows "check_attestation db pk source target root = Inr x"
proof -
  obtain v where v: "get_validator_id_in_txn db pk = Inr v"
    using assms(1) by (auto simp: prune_signed_attestations_def split: sum.splits)
  let ?A = "attestations_of db v" and ?B = "attestations_of db' v"
  note rows = prune_signed_attestations_Ok [OF assms(1) v]
  have wf: "attestations_wf db" "attestations_wf db'"
    using assms(2) prune_signed_attestations_inv [OF assms(1,2)] by (auto simp: db_inv_def)
  note ne = keep_max_Nil [OF rows(1)]
  have low: "ar_target_epoch d < ar_target_epoch r \<and> ar_source_epoch d \<le> ar_source_epoch r"
    if "d \<in> set ?A" "d \<notin> set ?B" "r \<in> set ?B" for d r
  proof -
    have "ar_target_epoch d < ar_target_epoch r"
      using that unfolding rows(1) by (auto simp: not_le)
    moreover have "r \<in> set ?A" using that(3) unfolding rows(1) by blast
    ultimately show ?thesis using assms(2) that(1) by (force simp: db_inv_defs)
  qed
  have sub: "set ?B \<subseteq> set ?A" unfolding rows(1) by blast
  show ?thesis
  proof (cases x)
    case Valid
    with assms(3) have c: "source \<le> target" "sql_u63 (uint target)"
      "\<forall>r \<in> set ?B. ar_target_epoch r \<noteq> uint target \<and>
        \<not> (ar_source_epoch r < uint source \<and> uint target < ar_target_epoch r) \<and>
        \<not> (uint source < ar_source_epoch r \<and> ar_target_epoch r < uint target)"
      "?B = [] \<or> (\<exists>r \<in> set ?B. ar_source_epoch r \<le> uint source) \<and> (\<exists>r \<in> set ?B. ar_target_epoch r < uint target)"
      using check_attestation_Valid [OF wf(2) rows(2)] by blast+
    have new: "ar_target_epoch d < uint target \<and> ar_source_epoch d \<le> uint source"
      if d: "d \<in> set ?A" "d \<notin> set ?B" for d
    proof -
      from d(1) ne c(4) obtain r r' where "r \<in> set ?B" "ar_source_epoch r \<le> uint source"
        "r' \<in> set ?B" "ar_target_epoch r' < uint target" by (metis empty_iff list.set(1))
      with low [OF d] show ?thesis by force
    qed
    have "\<forall>r \<in> set ?A. ar_target_epoch r \<noteq> uint target \<and>
        \<not> (ar_source_epoch r < uint source \<and> uint target < ar_target_epoch r) \<and>
        \<not> (uint source < ar_source_epoch r \<and> ar_target_epoch r < uint target)"
    proof
      fix r assume "r \<in> set ?A"
      with c(3) new [of r] show "ar_target_epoch r \<noteq> uint target \<and>
        \<not> (ar_source_epoch r < uint source \<and> uint target < ar_target_epoch r) \<and>
        \<not> (uint source < ar_source_epoch r \<and> ar_target_epoch r < uint target)"
        by (cases "r \<in> set ?B") auto
    qed
    with c sub ne Valid show ?thesis using check_attestation_Valid [OF wf(1) v] by blast
  next
    case SameData
    with assms(3) show ?thesis
      using check_attestation_SameData [OF wf(2) rows(2)] check_attestation_SameData [OF wf(1) v] sub
      by blast
  qed
qed

section \<open>Minification keeps the maxima\<close>

definition opt_max :: "('a::linorder) option \<Rightarrow> 'a option \<Rightarrow> 'a option" where
  "opt_max a b = (case (a, b) of (None, _) \<Rightarrow> b | (_, None) \<Rightarrow> a | (Some x, Some y) \<Rightarrow> Some (max x y))"

lemma iter_max_None [simp]: "iter_max xs = None \<longleftrightarrow> xs = []"
  by (simp add: iter_max_def)

lemma iter_max_Nil [simp]: "iter_max [] = None"
  by simp

lemma iter_max_Cons: "iter_max (x # xs) = opt_max (Some x) (iter_max xs)"
  by (auto simp: iter_max_def opt_max_def max_def split: option.split)

lemma opt_max_assoc: "opt_max (opt_max a b) c = opt_max a (opt_max b c)"
  by (auto simp: opt_max_def max.assoc split: option.splits)

lemma opt_max_None [simp]: "opt_max None a = a" "opt_max a None = a"
  by (auto simp: opt_max_def split: option.split)

lemma iter_max_append: "iter_max (xs @ ys) = opt_max (iter_max xs) (iter_max ys)"
  by (induction xs) (auto simp: iter_max_Cons opt_max_assoc)

lemma iter_max_ge: "x \<in> set xs \<Longrightarrow> iter_max xs = Some m \<Longrightarrow> x \<le> m"
  unfolding iter_max_def by (drule max_by_key_ge) auto

lemma iter_max_option:
  assumes "map_option f v = iter_max xs" "x \<in> set xs"
  shows "\<exists>y. v = Some y \<and> x \<le> f y"
proof (cases v)
  case None
  with assms(1) have "iter_max xs = None" by simp
  with assms(2) show ?thesis by simp
next
  case (Some y)
  with assms(1) have "iter_max xs = Some (f y)" by simp
  with Some iter_max_ge [OF assms(2)] show ?thesis by blast
qed

text \<open>Everything a list of records says of one key.\<close>

definition slots_for :: "pubkey \<Rightarrow> interchange_data list \<Rightarrow> slot list" where
  "slots_for pk ds = concat (map (\<lambda>d. map ib_slot (id_signed_blocks d)) (filter (\<lambda>d. id_pubkey d = pk) ds))"

definition sources_for :: "pubkey \<Rightarrow> interchange_data list \<Rightarrow> epoch list" where
  "sources_for pk ds =
     concat (map (\<lambda>d. map ia_source_epoch (id_signed_attestations d)) (filter (\<lambda>d. id_pubkey d = pk) ds))"

definition targets_for :: "pubkey \<Rightarrow> interchange_data list \<Rightarrow> epoch list" where
  "targets_for pk ds =
     concat (map (\<lambda>d. map ia_target_epoch (id_signed_attestations d)) (filter (\<lambda>d. id_pubkey d = pk) ds))"

lemmas for_key_defs = slots_for_def sources_for_def targets_for_def

definition maxima_of :: "pubkey \<Rightarrow> interchange_data list \<Rightarrow> validator_maxima \<Rightarrow> bool" where
  "maxima_of pk ds m \<longleftrightarrow>
     map_option ib_slot (fst m) = iter_max (slots_for pk ds) \<and>
     map_option ia_source_epoch (snd m) = iter_max (sources_for pk ds) \<and>
     map_option ia_target_epoch (snd m) = iter_max (targets_for pk ds)"

definition minify_inv :: "interchange_data list \<Rightarrow> (pubkey \<times> validator_maxima) list \<Rightarrow> bool" where
  "minify_inv ds vd \<longleftrightarrow> distinct (map fst vd) \<and>
     id_pubkey ` set ds \<subseteq> dom (map_of vd) \<and>
     (\<forall>pk m. map_of vd pk = Some m \<longrightarrow> maxima_of pk ds m)"

lemma map_of_upsert: "map_of (upsert k v kvs) = (map_of kvs)(k \<mapsto> v)"
  by (induction kvs) auto

lemma upsert_keys: "fst ` set (upsert k v kvs) = insert k (fst ` set kvs)"
proof (induction kvs)
  case (Cons kv kvs)
  then show ?case by (cases kv) (simp add: insert_commute)
qed simp

lemma upsert_distinct: "distinct (map fst kvs) \<Longrightarrow> distinct (map fst (upsert k v kvs))"
proof (induction kvs)
  case (Cons kv kvs)
  then show ?case using upsert_keys [of k v kvs] by (cases kv) auto
qed simp

lemma merge_block_maxima_slot:
  "map_option ib_slot (merge_block_maxima mb s) = opt_max (map_option ib_slot mb) s"
  by (auto simp: merge_block_maxima_def opt_max_def split: option.split)

lemma merge_attestation_maxima_Ok:
  assumes "s = None \<longleftrightarrow> t = None"
  obtains ma' where "merge_attestation_maxima ma s t = Inr ma'"
    "map_option ia_source_epoch ma' = opt_max (map_option ia_source_epoch ma) s"
    "map_option ia_target_epoch ma' = opt_max (map_option ia_target_epoch ma) t"
  using assms that by (cases s; cases t; cases ma) (auto simp: merge_attestation_maxima_def opt_max_def)

lemma minify_step_inv:
  assumes "minify_inv ds vd"
  obtains vd' where "minify_step vd d = Inr vd'" "minify_inv (ds @ [d]) vd'"
proof -
  let ?pk = "id_pubkey d"
  obtain mb ma where old: "(case map_of vd ?pk of None \<Rightarrow> (None, None) | Some m \<Rightarrow> m) = (mb, ma)"
    by (meson surj_pair)
  have none: "?pk \<notin> id_pubkey ` set ds \<Longrightarrow> slots_for ?pk ds = [] \<and> sources_for ?pk ds = [] \<and> targets_for ?pk ds = []"
    by (force simp: for_key_defs image_iff)
  have om: "maxima_of ?pk ds (mb, ma)"
  proof (cases "map_of vd ?pk")
    case None
    with assms have "?pk \<notin> id_pubkey ` set ds" unfolding minify_inv_def by blast
    with none old None show ?thesis by (auto simp: maxima_of_def)
  next
    case (Some m)
    with assms old show ?thesis unfolding minify_inv_def by simp
  qed
  obtain ma' where ma': "merge_attestation_maxima ma
        (iter_max (map ia_source_epoch (id_signed_attestations d)))
        (iter_max (map ia_target_epoch (id_signed_attestations d))) = Inr ma'"
      "map_option ia_source_epoch ma' = opt_max (map_option ia_source_epoch ma)
         (iter_max (map ia_source_epoch (id_signed_attestations d)))"
      "map_option ia_target_epoch ma' = opt_max (map_option ia_target_epoch ma)
         (iter_max (map ia_target_epoch (id_signed_attestations d)))"
    using merge_attestation_maxima_Ok [of "iter_max (map ia_source_epoch (id_signed_attestations d))"
        "iter_max (map ia_target_epoch (id_signed_attestations d))" ma] by auto
  let ?m = "(merge_block_maxima mb (iter_max (map ib_slot (id_signed_blocks d))), ma')"
  have step: "minify_step vd d = Inr (upsert ?pk ?m vd)"
    unfolding minify_step_def by (simp add: old ma'(1))
  have "maxima_of ?pk (ds @ [d]) ?m"
    using om ma'(2,3) by (simp add: maxima_of_def for_key_defs merge_block_maxima_slot iter_max_append)
  moreover have "maxima_of pk (ds @ [d]) m \<longleftrightarrow> maxima_of pk ds m" if "pk \<noteq> ?pk" for pk m
    using that by (simp add: maxima_of_def for_key_defs)
  ultimately have "minify_inv (ds @ [d]) (upsert ?pk ?m vd)"
    using assms unfolding minify_inv_def map_of_upsert
    by (auto simp: upsert_distinct split: if_splits simp del: split_paired_All)
  with step that show ?thesis by blast
qed

lemma minify_fold:
  "minify_inv ds vd \<Longrightarrow> \<exists>vd'. try_fold minify_step vd es = Inr vd' \<and> minify_inv (ds @ es) vd'"
proof (induction es arbitrary: ds vd)
  case (Cons e es)
  obtain vd1 where "minify_step vd e = Inr vd1" "minify_inv (ds @ [e]) vd1"
    using minify_step_inv [OF Cons.prems] .
  with Cons.IH [of "ds @ [e]" vd1] show ?case by simp
qed simp

lemma minify_Ok:
  obtains vd where "minify ic = Inr (ic\<lparr>ic_data := map (\<lambda>(pk, maybe_block, maybe_att).
             \<lparr>id_pubkey = pk, id_signed_blocks = option_to_list maybe_block,
              id_signed_attestations = option_to_list maybe_att\<rparr>) vd\<rparr>)" "minify_inv (ic_data ic) vd"
proof -
  have "minify_inv [] []" by (simp add: minify_inv_def)
  from minify_fold [OF this, of "ic_data ic"] that show ?thesis by (auto simp: minify_def)
qed

lemma minified_entry:
  assumes "minify ic = Inr ic'" "entry \<in> set (ic_data ic)"
  obtains entry' where "entry' \<in> set (ic_data ic')" "id_pubkey entry' = id_pubkey entry"
    "\<forall>x \<in> set (id_signed_blocks entry). \<exists>y \<in> set (id_signed_blocks entry'). ib_slot x \<le> ib_slot y"
    "\<forall>x \<in> set (id_signed_attestations entry). \<exists>y \<in> set (id_signed_attestations entry').
       ia_source_epoch x \<le> ia_source_epoch y \<and> ia_target_epoch x \<le> ia_target_epoch y"
proof -
  let ?pk = "id_pubkey entry" and ?ds = "ic_data ic"
  obtain vd where vd: "minify_inv ?ds vd" and data: "ic_data ic' = map (\<lambda>(pk, maybe_block, maybe_att).
             \<lparr>id_pubkey = pk, id_signed_blocks = option_to_list maybe_block,
              id_signed_attestations = option_to_list maybe_att\<rparr>) vd"
    by (rule minify_Ok [of ic]) (use assms(1) in auto)
  from vd assms(2) obtain mb ma where m: "map_of vd ?pk = Some (mb, ma)" and max: "maxima_of ?pk ?ds (mb, ma)"
    unfolding minify_inv_def by (metis domD image_eqI subsetD surj_pair)
  have slot: "ib_slot x \<in> set (slots_for ?pk ?ds)" if "x \<in> set (id_signed_blocks entry)" for x
    using that assms(2) by (auto simp: slots_for_def)
  have epochs: "ia_source_epoch x \<in> set (sources_for ?pk ?ds) \<and> ia_target_epoch x \<in> set (targets_for ?pk ?ds)"
    if "x \<in> set (id_signed_attestations entry)" for x
    using that assms(2) by (auto simp: sources_for_def targets_for_def)
  have "\<exists>y \<in> set (option_to_list mb). ib_slot x \<le> ib_slot y" if "x \<in> set (id_signed_blocks entry)" for x
    using max iter_max_option [OF _ slot [OF that]] by (fastforce simp: maxima_of_def option_to_list_def)
  moreover have "\<exists>y \<in> set (option_to_list ma). ia_source_epoch x \<le> ia_source_epoch y \<and> ia_target_epoch x \<le> ia_target_epoch y"
    if "x \<in> set (id_signed_attestations entry)" for x
    using max iter_max_option [OF _ conjunct1 [OF epochs [OF that]]]
      iter_max_option [OF _ conjunct2 [OF epochs [OF that]]]
    by (fastforce simp: maxima_of_def option_to_list_def)
  moreover have "\<lparr>id_pubkey = ?pk, id_signed_blocks = option_to_list mb,
      id_signed_attestations = option_to_list ma\<rparr> \<in> set (ic_data ic')"
    unfolding data using map_of_SomeD [OF m] by force
  ultimately show ?thesis
    by (intro that [of "\<lparr>id_pubkey = ?pk, id_signed_blocks = option_to_list mb,
      id_signed_attestations = option_to_list ma\<rparr>"]) auto
qed

lemma protects_below:
  assumes "db_inv db" "\<And>root. protects_block db (pk, s, root)" "s' \<le> s"
  shows "protects_block db (pk, s', root)"
proof -
  obtain v where v: "lookup_id db pk = Some v" using assms(2) by (auto simp: protects_block_def)
  from protects_every_block [OF assms(1,2) v] assms(3) v show ?thesis
    unfolding protects_block_def block_protected_def by (force simp: word_le_def simp del: set_blocks_of)
qed

lemma protects_attestation_below:
  assumes "db_inv db" "\<And>root. protects_attestation db (pk, s, t, root)" "s' \<le> s" "t' \<le> t"
  shows "protects_attestation db (pk, s', t', root)"
proof -
  obtain v where v: "lookup_id db pk = Some v" using assms(2) by (auto simp: protects_attestation_def)
  from protects_every_attestation [OF assms(1,2) v] assms(3,4) v show ?thesis
    unfolding protects_attestation_def attestation_protected_def
    by (force simp: word_le_def simp del: set_attestations_of)
qed

lemma minified_protects:
  assumes "minify ic = Inr ic'" "db_inv db" "\<forall>entry \<in> set (ic_data ic'). protects_record db entry"
    "entry \<in> set (ic_data ic)"
  shows "protects_record db entry"
proof -
  obtain entry' where e: "entry' \<in> set (ic_data ic')" "id_pubkey entry' = id_pubkey entry"
    "\<forall>x \<in> set (id_signed_blocks entry). \<exists>y \<in> set (id_signed_blocks entry'). ib_slot x \<le> ib_slot y"
    "\<forall>x \<in> set (id_signed_attestations entry). \<exists>y \<in> set (id_signed_attestations entry').
       ia_source_epoch x \<le> ia_source_epoch y \<and> ia_target_epoch x \<le> ia_target_epoch y"
    using minified_entry [OF assms(1,4)] .
  with assms(3) have p: "protects_record db entry'" by blast
  show ?thesis
    unfolding protects_record_def
    using e(2-4) p protects_below [OF assms(2)] protects_attestation_below [OF assms(2)]
    unfolding protects_record_def by metis
qed

end
