(* ===== verification/Slashing_Properties.thy ===== *)
theory Slashing_Properties
  imports Slashing_Maintenance
begin

text \<open>
  What the slashing protection database guarantees, stated over histories of calls that start
  with an empty database and over the single operations.
\<close>

lemma empty_db_inv [simp]: "db_inv empty_db"
  by (simp add: empty_db_def db_inv_defs)

lemma empty_db_recorded [simp]: "recorded_blocks empty_db = {}" "recorded_attestations empty_db = {}"
  by (auto simp: recorded_blocks_def recorded_attestations_def empty_db_def lookup_id_def)

section \<open>Sample data for the witnesses\<close>

definition ready_env :: sql_env where
  "ready_env = \<lparr>pool_get = True, txn_begin = True, txn_commit = True\<rparr>"

definition sample_entry :: interchange_data where
  "sample_entry = \<lparr>id_pubkey = [1],
     id_signed_blocks = [\<lparr>ib_slot = 10, ib_signing_root = Some 3\<rparr>],
     id_signed_attestations =
       [\<lparr>ia_source_epoch = 2, ia_target_epoch = 5, ia_signing_root = None\<rparr>,
        \<lparr>ia_source_epoch = 3, ia_target_epoch = 4, ia_signing_root = Some 9\<rparr>]\<rparr>"

definition sample_interchange :: interchange where
  "sample_interchange =
     \<lparr>ic_metadata = \<lparr>interchange_format_version = 5, im_genesis_validators_root = 7\<rparr>,
      ic_data = [sample_entry]\<rparr>"

definition sample_header :: "slot \<Rightarrow> beacon_block_header" where
  "sample_header s = \<lparr>bh_slot = s, bh_proposer_index = 0, bh_parent_root = 0, bh_state_root = 0,
     bh_body_root = 0\<rparr>"

definition sample_attestation :: "epoch \<Rightarrow> epoch \<Rightarrow> attestation_data" where
  "sample_attestation s t = \<lparr>ad_slot = 0, ad_index = 0, ad_beacon_block_root = 0,
     ad_source = \<lparr>cp_epoch = s, cp_root = 0\<rparr>, ad_target = \<lparr>cp_epoch = t, cp_root = 0\<rparr>\<rparr>"

definition sample_block_root :: "beacon_block_header signing_root_fn" where
  "sample_block_root header domain = 11"

definition sample_attestation_root :: "attestation_data signing_root_fn" where
  "sample_attestation_root att domain = 12"

text \<open>A database after one import and some signatures.\<close>

definition sample_events :: "db_event list" where
  "sample_events =
     [RegisterValidators ready_env [[1], [2]],
      ImportInterchange ready_env sample_interchange 7,
      SignBlock ready_env [1] (sample_header 12) 0,
      SignBlock ready_env [1] (sample_header 20) 0,
      SignAttestations ready_env
        [(sample_attestation 3 6, [1], 0, CheckYes), (sample_attestation 3 8, [1], 0, CheckYes)]]"

definition sample_db :: slashing_db where
  "sample_db = run_events (exec_event sample_block_root sample_attestation_root) sample_events empty_db"

lemma sample_db_rows [code]:
  "sample_db = \<lparr>
     validators = [\<lparr>vr_id = 1, vr_public_key = [1], vr_enabled = True\<rparr>,
                   \<lparr>vr_id = 2, vr_public_key = [2], vr_enabled = True\<rparr>],
     signed_blocks = [\<lparr>br_validator_id = 1, br_slot = 10, br_signing_root = 0\<rparr>,
                      \<lparr>br_validator_id = 1, br_slot = 12, br_signing_root = 11\<rparr>,
                      \<lparr>br_validator_id = 1, br_slot = 20, br_signing_root = 11\<rparr>],
     signed_attestations =
       [\<lparr>ar_validator_id = 1, ar_source_epoch = 3, ar_target_epoch = 5, ar_signing_root = 0\<rparr>,
        \<lparr>ar_validator_id = 1, ar_source_epoch = 3, ar_target_epoch = 6, ar_signing_root = 12\<rparr>,
        \<lparr>ar_validator_id = 1, ar_source_epoch = 3, ar_target_epoch = 8, ar_signing_root = 12\<rparr>]\<rparr>"
  by code_simp

lemma sample_db_inv: "db_inv sample_db"
  unfolding sample_db_def by (rule block_guard.run_inv) simp

section \<open>Histories\<close>

text \<open>
  C1: no history of calls, of any length and with any outcome of the connection pool and of the
  transactions, makes the database answer \<open>Valid\<close> for two block proposals of one key at one slot.
\<close>

theorem history_no_double_block:
  "sorted_wrt (\<lambda>m m'. \<not> block_conflict m m')
     (event_log (exec_event b a) (block_answers b Valid) es empty_db)"
  by (rule block_guard.log_pairwise) simp

text \<open>The checked answers of a history, within the log of all answers.\<close>

lemma checked_log:
  "event_log (exec_event b a) (attestation_answers a x) es db =
     map fst (filter (\<lambda>p. snd p = CheckYes) (event_log (exec_event b a) (batch_answers a x) es db))"
  unfolding event_log_map_filter [symmetric] batch_answers_checked [symmetric] ..

text \<open>
  C2: no history makes the database answer \<open>Valid\<close> to two checked requests for attestations of one key
  that are a double vote or of which one surrounds the other, within one batch or across batches. A
  request is checked unless it asks for \<open>CheckSlashability::No\<close>, as the caller does for keys whose remote
  signer has a protection of its own; such a request is answered \<open>Valid\<close> unseen and protects nothing.
\<close>

theorem history_no_slashable_attestation:
  "sorted_wrt (\<lambda>(m, c) (m', c'). c = CheckYes \<and> c' = CheckYes \<longrightarrow> \<not> attestation_conflict m m')
     (event_log (exec_event b a) (batch_answers a Valid) es empty_db)"
  using attestation_guard.log_pairwise [OF empty_db_inv, where b = b and a = a and es = es]
  unfolding checked_log sorted_wrt_map_filter by (rule sorted_wrt_mono_rel [rotated]) auto

theorem history_no_slashable_attestation_witness:
  "event_log (exec_event sample_block_root sample_attestation_root) (batch_answers sample_attestation_root Valid)
     sample_events empty_db =
     [(([1], 3, 6, SigningRoot 12), CheckYes), (([1], 3, 8, SigningRoot 12), CheckYes)] \<and>
   \<not> attestation_conflict ([1], 3, 6, SigningRoot 12) ([1], 3, 8, SigningRoot 12)"
proof -
  have log: "event_log (exec_event sample_block_root sample_attestation_root) (batch_answers sample_attestation_root Valid)
      sample_events empty_db =
      [(([1], 3, 6, SigningRoot 12), CheckYes), (([1], 3, 8, SigningRoot 12), CheckYes)]" by code_simp
  from history_no_slashable_attestation [of sample_block_root sample_attestation_root sample_events, unfolded log] log
  show ?thesis by simp
qed

text \<open>
  C3: a block, or an attestation of a checked request, that the database answers \<open>Valid\<close> for is not
  slashable together with any block or attestation that was answered so or imported before, whatever
  happened in between. Attestations answered with \<open>CheckSlashability::No\<close> are not remembered.
\<close>

theorem signed_after_known:
  assumes "db = run_events (exec_event b a) es empty_db"
  shows "(\<forall>m \<in> set (event_log (exec_event b a) (known_blocks b) es empty_db).
            \<forall>m' \<in> set (event_log (exec_event b a) (block_answers b Valid) es' db). \<not> block_conflict m m') \<and>
         (\<forall>m m'. ((m, CheckYes) \<in> set (event_log (exec_event b a) (batch_answers a Valid) es empty_db) \<or>
             m \<in> set (event_log (exec_event b a) imported_attestations es empty_db)) \<and>
            (m', CheckYes) \<in> set (event_log (exec_event b a) (batch_answers a Valid) es' db) \<longrightarrow>
              \<not> attestation_conflict m m')"
proof -
  have known: "set (event_log (exec_event b a) (known_attestations a) es s) =
      set (event_log (exec_event b a) (attestation_answers a Valid) es s) \<union>
      set (event_log (exec_event b a) imported_attestations es s)" for es s
    by (induction es arbitrary: s) (auto simp: known_attestations_def)
  have checked: "(m, CheckYes) \<in> set (event_log (exec_event b a) (batch_answers a Valid) es s) \<longleftrightarrow>
      m \<in> set (event_log (exec_event b a) (attestation_answers a Valid) es s)" for m es s
    unfolding checked_log by force
  show ?thesis
    unfolding assms checked
    using block_guard.signed_after_history [OF empty_db_inv] attestation_guard.signed_after_history [OF empty_db_inv]
      known by blast
qed

theorem signed_after_known_witness:
  "([1], 10, SigningRoot 3) \<in> set (event_log (exec_event sample_block_root sample_attestation_root)
      (known_blocks sample_block_root) sample_events empty_db) \<and>
   ([1], 21, SigningRoot 11) \<in> set (event_log (exec_event sample_block_root sample_attestation_root)
      (block_answers sample_block_root Valid) [SignBlock ready_env [1] (sample_header 21) 0] sample_db) \<and>
   \<not> block_conflict ([1], 10, SigningRoot 3) ([1], 21, SigningRoot 11) \<and>
   (([1], 3, 9, SigningRoot 12), CheckYes) \<in> set (event_log (exec_event sample_block_root sample_attestation_root)
      (batch_answers sample_attestation_root Valid)
      [SignAttestations ready_env [(sample_attestation 3 9, [1], 0, CheckYes)]] sample_db) \<and>
   \<not> attestation_conflict ([1], 3, 6, SigningRoot 12) ([1], 3, 9, SigningRoot 12)"
proof -
  let ?block = "[SignBlock ready_env [1] (sample_header 21) 0]"
  let ?att = "[SignAttestations ready_env [(sample_attestation 3 9, [1], 0, CheckYes)]]"
  have "([1], 10, SigningRoot 3) \<in> set (event_log (exec_event sample_block_root sample_attestation_root)
      (known_blocks sample_block_root) sample_events empty_db)"
    "([1], 21, SigningRoot 11) \<in> set (event_log (exec_event sample_block_root sample_attestation_root)
      (block_answers sample_block_root Valid) ?block sample_db)"
    "(([1], 3, 6, SigningRoot 12), CheckYes) \<in> set (event_log (exec_event sample_block_root sample_attestation_root)
      (batch_answers sample_attestation_root Valid) sample_events empty_db)"
    "(([1], 3, 9, SigningRoot 12), CheckYes) \<in> set (event_log (exec_event sample_block_root sample_attestation_root)
      (batch_answers sample_attestation_root Valid) ?att sample_db)" by code_simp+
  with signed_after_known [OF sample_db_def, of ?block] signed_after_known [OF sample_db_def, of ?att]
  show ?thesis by blast
qed

text \<open>
  C4: an answer \<open>SameData\<close> is only given for a message for which the same signing root was answered
  \<open>Valid\<close> before (or, for an attestation, with the same target epoch earlier in the same batch):
  signing it again produces no new slashable message.
\<close>

theorem same_data_was_signed:
  "set (event_log (exec_event b a) (block_answers b SameData) es empty_db) \<subseteq>
     set (event_log (exec_event b a) (block_answers b Valid) es empty_db) \<and>
   attestation_key ` set (event_log (exec_event b a) (attestation_answers a SameData) es empty_db) \<subseteq>
     attestation_key ` set (event_log (exec_event b a) (attestation_answers a Valid) es empty_db)"
  using block_guard.log_resigned [OF empty_db_inv, where b = b and a = a and es = es]
    attestation_guard.log_resigned [OF empty_db_inv, where b = b and a = a and es = es] by auto

text \<open>
  C5: in every reachable database the keys and their ids are unique, rows refer to registered
  validators and hold values of the SQL range, there is one block per validator and slot and one
  attestation per validator and target, and no stored attestation surrounds another.
\<close>

theorem history_keeps_invariant: "db_inv (run_events (exec_event b a) es empty_db)"
  by (rule block_guard.run_inv) simp

section \<open>Single operations\<close>

text \<open>
  C6: what \<open>check_block_proposal\<close> accepts. \<open>Valid\<close> exactly for an enabled key, a slot in the SQL
  range without a stored block and above the lowest stored slot; \<open>SameData\<close> exactly for a stored
  block with the same non-null signing root.
\<close>

theorem check_block_proposal_accepts:
  assumes "db_inv db"
  shows "check_block_proposal db pk slot root = Ok x \<longleftrightarrow>
    (\<exists>v. get_validator_id_in_txn db pk = Ok v \<and> sql_u63 (uint slot) \<and>
      (case x of
         Valid \<Rightarrow> (\<forall>r \<in> set (blocks_of db v). br_slot r \<noteq> uint slot) \<and>
           (blocks_of db v = [] \<or> (\<exists>r \<in> set (blocks_of db v). br_slot r < uint slot))
       | SameData \<Rightarrow> \<not> is_null root \<and> (\<exists>r \<in> set (blocks_of db v).
           br_slot r = uint slot \<and> br_signing_root r = to_hash256_raw root)))"
proof -
  have wf: "blocks_wf db" using assms by (simp add: db_inv_def)
  show ?thesis
    using check_block_proposal_Valid [OF wf] check_block_proposal_SameData [OF wf]
      check_block_proposal_Ok_id [of db pk slot root x] by (cases x) fastforce+
qed

theorem check_block_proposal_accepts_witness:
  "check_block_proposal sample_db [1] 21 (SigningRoot 5) = Ok Valid"
proof -
  note inv = sample_db_inv
  show ?thesis
    unfolding check_block_proposal_accepts [OF inv] by (rule exI [of _ 1]) code_simp
qed

text \<open>
  C7: what \<open>check_attestation\<close> accepts. \<open>Valid\<close> exactly for an enabled key, a source not above the
  target, a target in the SQL range, no stored attestation with this target or that surrounds
  or is surrounded by the new one, and both epochs above the lower bounds; \<open>SameData\<close> exactly for
  a stored attestation with the same target and the same non-null signing root.
\<close>

theorem check_attestation_accepts:
  assumes "db_inv db"
  shows "check_attestation db pk source target root = Ok x \<longleftrightarrow>
    (\<exists>v. get_validator_id_in_txn db pk = Ok v \<and> source \<le> target \<and> sql_u63 (uint target) \<and>
      (case x of
         Valid \<Rightarrow> (\<forall>r \<in> set (attestations_of db v). ar_target_epoch r \<noteq> uint target \<and>
             \<not> (ar_source_epoch r < uint source \<and> uint target < ar_target_epoch r) \<and>
             \<not> (uint source < ar_source_epoch r \<and> ar_target_epoch r < uint target)) \<and>
           (attestations_of db v = [] \<or>
             (\<exists>r \<in> set (attestations_of db v). ar_source_epoch r \<le> uint source) \<and>
             (\<exists>r \<in> set (attestations_of db v). ar_target_epoch r < uint target))
       | SameData \<Rightarrow> \<not> is_null root \<and> (\<exists>r \<in> set (attestations_of db v).
           ar_target_epoch r = uint target \<and> ar_signing_root r = to_hash256_raw root)))"
proof -
  have wf: "attestations_wf db" using assms by (simp add: db_inv_def)
  have "(check_attestation db pk source target root = Ok x) = (\<exists>v. get_validator_id_in_txn db pk = Ok v \<and>
      check_attestation db pk source target root = Ok x)"
    using check_attestation_Ok_id by blast
  then show ?thesis
    by (cases x) (simp_all add: check_attestation_Valid [OF wf] check_attestation_SameData [OF wf]
        cong: conj_cong del: set_attestations_of)
qed

theorem check_attestation_accepts_witness:
  "check_attestation sample_db [1] 4 9 (SigningRoot 5) = Ok Valid"
proof -
  note inv = sample_db_inv
  show ?thesis
    unfolding check_attestation_accepts [OF inv] by (rule exI [of _ 1]) code_simp
qed

text \<open>
  C8: after a successful import, and after any calls that follow it, the database refuses for every
  key of the file each block at or below one of its imported slots and each attestation at or
  below one of its imported targets; an attestation below an imported source is never newly signed.
\<close>

theorem import_refuses_forever:
  assumes "db_inv db" and "\<not> isl (fst (import_interchange_info env ic gvr db))"
    and "entry \<in> set (ic_data ic)"
    and "later = run_events (exec_event b a) es (snd (import_interchange_info env ic gvr db))"
  shows "(\<forall>x \<in> set (id_signed_blocks entry). \<forall>slot \<le> ib_slot x.
            isl (check_block_proposal later (id_pubkey entry) slot root)) \<and>
         (\<forall>x \<in> set (id_signed_attestations entry).
            (\<forall>target \<le> ia_target_epoch x. isl (check_attestation later (id_pubkey entry) source target root)) \<and>
            (\<forall>s < ia_source_epoch x. check_attestation later (id_pubkey entry) s t root \<noteq> Ok Valid))"
proof -
  let ?db = "snd (import_interchange_info env ic gvr db)"
  have inv: "db_inv ?db" and prot: "protects_record ?db entry"
    by (rule import_interchange_info_cases [OF surjective_pairing assms(1), of env ic gvr]; use assms(2,3) in simp)+
  have later: "db_inv later" "protects_record later entry"
    unfolding assms(4) protects_record_def
    using inv prot block_guard.run_mono [OF inv] attestation_guard.run_mono [OF inv] block_guard.run_inv
    by (auto simp: protects_record_def)
  show ?thesis
  proof (intro conjI ballI allI impI)
    fix x slot assume "x \<in> set (id_signed_blocks entry)" "slot \<le> ib_slot x"
    with later show "isl (check_block_proposal later (id_pubkey entry) slot root)"
      unfolding protects_record_def isl_def by (metis protected_block_refused)
  next
    fix x target assume "x \<in> set (id_signed_attestations entry)" "target \<le> ia_target_epoch x"
    with later show "isl (check_attestation later (id_pubkey entry) source target root)"
      unfolding protects_record_def isl_def by (metis protected_attestation_refused(1))
  next
    fix x s assume "x \<in> set (id_signed_attestations entry)" "s < ia_source_epoch x"
    with later show "check_attestation later (id_pubkey entry) s t root \<noteq> Ok Valid"
      unfolding protects_record_def by (metis protected_attestation_refused(2))
  qed
qed

theorem import_refuses_forever_witness:
  "isl (check_block_proposal (run_events (exec_event sample_block_root sample_attestation_root)
      [SignBlock ready_env [1] (sample_header 12) 0, PruneBlocks ready_env [[1]] 12]
      (snd (import_interchange_info ready_env sample_interchange 7 empty_db))) [1] 9 (SigningRoot 11))"
proof -
  have "\<not> isl (fst (import_interchange_info ready_env sample_interchange 7 empty_db))" by code_simp
  from import_refuses_forever [OF empty_db_inv this _ refl, of sample_entry sample_block_root
      sample_attestation_root "[SignBlock ready_env [1] (sample_header 12) 0, PruneBlocks ready_env [[1]] 12]"
      "SigningRoot 11"]
  show ?thesis by (simp add: sample_interchange_def sample_entry_def)
qed

text \<open>
  C9: an import that fails changes nothing, and the consistency check behind each record never
  fails: a batch is only aborted because a value does not fit into the SQL range.
\<close>

theorem import_failure:
  assumes "db_inv db" and "import_interchange_info env ic gvr db = (Err e, db')"
  shows "db' = db \<and> (\<forall>outcomes. e = AtomicBatchAborted outcomes \<longrightarrow>
     (\<forall>pk. Failure pk ConsistencyError \<notin> set outcomes) \<and> \<not> list_all record_in_range (ic_data ic))"
proof -
  obtain outs db1 where ir: "import_records (ic_data ic) db = (outs, db1)" by fastforce
  have "db' = db" "e = AtomicBatchAborted outcomes \<Longrightarrow>
      outcomes = outs \<and> \<not> list_all (\<lambda>c. \<not> failed c) outs" for outcomes
    using assms(2) unfolding import_interchange_info_def ir Let_def by (auto split: if_splits)
  with import_records_outcomes [OF ir assms(1)] show ?thesis by blast
qed

definition oversized_interchange :: interchange where
  "oversized_interchange = sample_interchange\<lparr>ic_data := [sample_entry, sample_entry\<lparr>id_signed_blocks :=
      [\<lparr>ib_slot = 9223372036854775808, ib_signing_root = None\<rparr>]\<rparr>]\<rparr>"

theorem import_failure_witness:
  "isl (fst (import_interchange_info ready_env oversized_interchange 7 sample_db)) \<and>
   snd (import_interchange_info ready_env oversized_interchange 7 sample_db) = sample_db"
proof -
  note inv = sample_db_inv
  have "isl (fst (import_interchange_info ready_env oversized_interchange 7 sample_db))" by code_simp
  then obtain e where "import_interchange_info ready_env oversized_interchange 7 sample_db =
      (Err e, snd (import_interchange_info ready_env oversized_interchange 7 sample_db))"
    by (metis isl_def prod.collapse)
  from import_failure [OF inv this] \<open>isl _\<close> show ?thesis by simp
qed

text \<open>
  C10: with a working connection, exporting a whole database succeeds, importing the file into another
  database succeeds, and the importing database then protects every message that either of the two
  protected before.
\<close>

theorem export_import_transfers:
  assumes "db_inv db" "db_inv other" "pool_get env" "txn_begin env" "txn_commit env"
  shows "\<exists>ic outcomes other'. export_all_interchange_info env gvr db = Ok ic \<and>
     import_interchange_info env ic gvr other = (Ok outcomes, other') \<and>
     protection_le db other' \<and> protection_le other other'"
  using assms by (rule export_import_all)

theorem export_import_transfers_witness:
  "\<exists>ic outcomes other'. export_all_interchange_info ready_env 7 sample_db = Ok ic \<and>
     import_interchange_info ready_env ic 7 empty_db = (Ok outcomes, other') \<and>
     protection_le sample_db other' \<and> protection_le empty_db other'"
  by (rule export_import_transfers [OF sample_db_inv empty_db_inv]) (simp_all add: ready_env_def)

text \<open>
  C11: \<open>export_slashing_protection_for_keys\<close> exports the whole history of every known key it is
  given and leaves the key disabled, so that no block and no attestation of it is accepted.
\<close>

theorem export_for_keys_disables:
  assumes "db_inv db" "export_slashing_protection_for_keys env gvr pks db = (Ok ic, db')"
    and "pk \<in> set pks" "get_validator_id_ignoring_status db pk = Ok v"
  shows "\<lparr>id_pubkey = pk, id_signed_blocks = map exported_block (sort_key br_slot (blocks_of db v)),
          id_signed_attestations = map exported_attestation
            (sort_key ar_source_epoch (sort_key ar_target_epoch (attestations_of db v)))\<rparr> \<in> set (ic_data ic) \<and>
    check_block_proposal db' pk slot root = Err (DisabledValidator pk) \<and>
    (source \<le> target \<longrightarrow> check_attestation db' pk source target root = Err (DisabledValidator pk))"
  using export_for_keys_cases(1) [OF assms(2,1,3)] assms(4)
  by (auto simp: get_validator_id_ignoring_lookup exported_record_def check_block_proposal_def
      check_attestation_def not_less)

theorem export_for_keys_disables_witness:
  "check_block_proposal (snd (export_slashing_protection_for_keys ready_env 7 [[1], [9]] sample_db)) [1] 30 (SigningRoot 4)
     = Err (DisabledValidator [1])"
proof -
  note inv = sample_db_inv
  have "\<not> isl (fst (export_slashing_protection_for_keys ready_env 7 [[1], [9]] sample_db))" by code_simp
  then obtain ic where "export_slashing_protection_for_keys ready_env 7 [[1], [9]] sample_db =
      (Ok ic, snd (export_slashing_protection_for_keys ready_env 7 [[1], [9]] sample_db))"
    by (metis isl_def obj_sumE prod.collapse)
  moreover have "get_validator_id_ignoring_status sample_db [1] = Ok 1" by code_simp
  ultimately show ?thesis
    using export_for_keys_disables [OF inv] by (metis list.set_intros(1))
qed

text \<open>
  C12: pruning blocks keeps exactly the rows at or above the new minimum and the row with the
  highest slot, and accepts nothing that was refused before.
\<close>

theorem prune_blocks_sound:
  assumes "db_inv db" "prune_signed_blocks new_min pk db = (Ok (), db')"
    and "get_validator_id_in_txn db pk = Ok v"
  shows "set (blocks_of db' v) = {r \<in> set (blocks_of db v).
      uint new_min \<le> br_slot r \<or> (\<forall>r' \<in> set (blocks_of db v). br_slot r' \<le> br_slot r)} \<and>
    (\<forall>slot root x. check_block_proposal db' pk slot root = Ok x \<longrightarrow> check_block_proposal db pk slot root = Ok x)"
  using prune_signed_blocks_Ok(1) [OF assms(2,3)] prune_signed_blocks_accepts [OF assms(2,1)] by blast

theorem prune_blocks_sound_witness:
  "length (blocks_of sample_db 1) = 3 \<and>
   map br_slot (blocks_of (snd (prune_signed_blocks 15 [1] sample_db)) 1) = [20] \<and>
   check_block_proposal sample_db [1] 25 (SigningRoot 4) = Ok Valid"
proof -
  note inv = sample_db_inv
  have id: "get_validator_id_in_txn sample_db [1] = Ok 1" by code_simp
  have "fst (prune_signed_blocks 15 [1] sample_db) = Ok ()" by code_simp
  then have run: "prune_signed_blocks 15 [1] sample_db = (Ok (), snd (prune_signed_blocks 15 [1] sample_db))"
    by (metis prod.collapse)
  have "length (blocks_of sample_db 1) = 3"
    "map br_slot (blocks_of (snd (prune_signed_blocks 15 [1] sample_db)) 1) = [20]"
    "check_block_proposal (snd (prune_signed_blocks 15 [1] sample_db)) [1] 25 (SigningRoot 4) = Ok Valid"
    by code_simp+
  with prune_blocks_sound [OF inv run id] show ?thesis by blast
qed

text \<open>
  C13: pruning attestations keeps exactly the rows at or above the new minimum target and the row
  with the highest target, and accepts nothing that was refused before.
\<close>

theorem prune_attestations_sound:
  assumes "db_inv db" "prune_signed_attestations new_min pk db = (Ok (), db')"
    and "get_validator_id_in_txn db pk = Ok v"
  shows "set (attestations_of db' v) = {r \<in> set (attestations_of db v).
      uint new_min \<le> ar_target_epoch r \<or>
      (\<forall>r' \<in> set (attestations_of db v). ar_target_epoch r' \<le> ar_target_epoch r)} \<and>
    (\<forall>source target root x. check_attestation db' pk source target root = Ok x \<longrightarrow>
       check_attestation db pk source target root = Ok x)"
  using prune_signed_attestations_Ok(1) [OF assms(2,3)] prune_signed_attestations_accepts [OF assms(2,1)] by blast

theorem prune_attestations_sound_witness:
  "map ar_target_epoch (attestations_of sample_db 1) = [5, 6, 8] \<and>
   map ar_target_epoch (attestations_of (snd (prune_signed_attestations 20 [1] sample_db)) 1) = [8] \<and>
   check_attestation sample_db [1] 3 9 (SigningRoot 4) = Ok Valid"
proof -
  note inv = sample_db_inv
  have id: "get_validator_id_in_txn sample_db [1] = Ok 1" by code_simp
  have "fst (prune_signed_attestations 20 [1] sample_db) = Ok ()" by code_simp
  then have run: "prune_signed_attestations 20 [1] sample_db = (Ok (), snd (prune_signed_attestations 20 [1] sample_db))"
    by (metis prod.collapse)
  have "map ar_target_epoch (attestations_of sample_db 1) = [5, 6, 8]"
    "map ar_target_epoch (attestations_of (snd (prune_signed_attestations 20 [1] sample_db)) 1) = [8]"
    "check_attestation (snd (prune_signed_attestations 20 [1] sample_db)) [1] 3 9 (SigningRoot 4) = Ok Valid"
    by code_simp+
  with prune_attestations_sound [OF inv run id] show ?thesis by blast
qed

text \<open>
  C14: minification never fails, and importing the minified file protects every message of the
  original file.
\<close>

theorem minify_import_protects:
  "\<exists>ic'. minify ic = Ok ic' \<and>
     (\<forall>env gvr db. db_inv db \<and> \<not> isl (fst (import_interchange_info env ic' gvr db)) \<longrightarrow>
        (\<forall>entry \<in> set (ic_data ic). protects_record (snd (import_interchange_info env ic' gvr db)) entry))"
proof -
  obtain ic' where ic': "minify ic = Ok ic'" by (rule minify_Ok [of ic])
  have "protects_record (snd (import_interchange_info env ic' gvr db)) entry"
    if "db_inv db" "\<not> isl (fst (import_interchange_info env ic' gvr db))" "entry \<in> set (ic_data ic)" for env gvr db entry
  proof (rule import_interchange_info_cases [OF surjective_pairing that(1), of env ic' gvr])
    assume "db_inv (snd (import_interchange_info env ic' gvr db))"
      "\<forall>record \<in> set (ic_data ic'). protects_record (snd (import_interchange_info env ic' gvr db)) record"
    with minified_protects [OF ic'] that(3) show ?thesis by blast
  qed (use that(2) in simp)
  with ic' show ?thesis by blast
qed

theorem minify_import_protects_witness:
  "\<exists>ic'. minify sample_interchange = Ok ic' \<and>
     protects_record (snd (import_interchange_info ready_env ic' 7 sample_db)) sample_entry"
proof -
  obtain ic' where ic': "minify sample_interchange = Ok ic'"
    and prot: "\<forall>env gvr db. db_inv db \<and> \<not> isl (fst (import_interchange_info env ic' gvr db)) \<longrightarrow>
        (\<forall>entry \<in> set (ic_data sample_interchange).
           protects_record (snd (import_interchange_info env ic' gvr db)) entry)"
    using minify_import_protects [of sample_interchange] by blast
  note inv = sample_db_inv
  have "case minify sample_interchange of Inl _ \<Rightarrow> False
      | Inr ic \<Rightarrow> \<not> isl (fst (import_interchange_info ready_env ic 7 sample_db))" by code_simp
  with ic' prot inv show ?thesis by (auto simp: sample_interchange_def)
qed

text \<open>
  C15: registering keys always succeeds unless the transaction does not, enables all of them and
  keeps every key that was enabled before under its id.
\<close>

theorem register_validators_enables:
  assumes "db_inv db" "pool_get env" "txn_begin env" "txn_commit env"
  shows "\<exists>db'. register_validators env pks db = (Ok (), db') \<and> db_inv db' \<and>
     (\<forall>pk \<in> set pks. \<exists>v. get_validator_id_in_txn db' pk = Ok v) \<and>
     (\<forall>pk v. get_validator_id_in_txn db pk = Ok v \<longrightarrow> get_validator_id_in_txn db' pk = Ok v)"
proof -
  obtain db' where run: "register_validators_in_txn pks db = (Ok (), db')"
    using register_validators_total by blast
  then have "register_validators env pks db = (Ok (), db')"
    using assms(2-4) by (simp add: register_validators_def with_transaction_def)
  moreover have "db_inv db'" using register_validators_guard [OF calculation assms(1)] by blast
  ultimately show ?thesis
    using register_validators_enabled [OF run] assms(1) by (auto simp: db_inv_def)
qed

theorem register_validators_enables_witness:
  "\<exists>db'. register_validators ready_env [[5], [1]] sample_db = (Ok (), db') \<and>
     get_validator_id_in_txn db' [1] = Ok 1 \<and> (\<exists>v. get_validator_id_in_txn db' [5] = Ok v)"
proof -
  note inv = sample_db_inv
  have id: "get_validator_id_in_txn sample_db [1] = Ok 1" by code_simp
  from register_validators_enables [OF inv, of ready_env "[[5], [1]]"] id show ?thesis
    by (auto simp: ready_env_def)
qed

end
