(* ===== verification/Swap_Or_Not_Shuffle.thy ===== *)
theory Swap_Or_Not_Shuffle
  imports Lighthouse_Prelude
begin

unbundle bit_operations_syntax

text \<open>
  The crate \<open>consensus/swap_or_not_shuffle\<close>: \<open>compute_shuffled_index\<close>, which shuffles one index,
  and \<open>shuffle_list\<close>, which shuffles a whole list in place. SHA-256 comes from the crate
  \<open>ethereum_hashing\<close> and is the parameter \<open>hash\<close> on byte strings; hashing piece by piece is
  hashing the concatenation. A \<open>usize\<close> that is an index is a natural number, since the lists have
  at most \<open>2 ^ 24\<close> entries; the entries themselves are words.
\<close>

type_synonym hash_fn = "u8 list \<Rightarrow> u8 list"

section \<open>Bytes\<close>

text \<open>The first \<open>k\<close> bytes of \<open>to_le_bytes\<close>, and \<open>u64::from_le_bytes\<close>.\<close>

fun le_bytes :: "nat \<Rightarrow> nat \<Rightarrow> u8 list" where
  "le_bytes 0 n = []"
| "le_bytes (Suc k) n = of_nat n # le_bytes k (n div 256)"

fun from_le_bytes :: "u8 list \<Rightarrow> nat" where
  "from_le_bytes [] = 0"
| "from_le_bytes (b # bs) = unat b + 256 * from_le_bytes bs"

definition usize_max :: nat where
  "usize_max = 2 ^ 64 - 1"

section \<open>One index\<close>

definition hash_with_round_and_position :: "hash_fn \<Rightarrow> u8 list \<Rightarrow> u8 \<Rightarrow> nat \<Rightarrow> u8 list" where
  "hash_with_round_and_position hash seed round position =
     hash (seed @ [round] @ le_bytes 4 (position div 256))"

definition hash_with_round :: "hash_fn \<Rightarrow> u8 list \<Rightarrow> u8 \<Rightarrow> u8 list" where
  "hash_with_round hash seed round = hash (seed @ [round])"

definition bytes_to_int64 :: "u8 list \<Rightarrow> nat" where
  "bytes_to_int64 bytes = from_le_bytes (take 8 bytes)"

definition do_round :: "hash_fn \<Rightarrow> u8 list \<Rightarrow> nat \<Rightarrow> nat \<Rightarrow> u8 \<Rightarrow> nat \<Rightarrow> nat" where
  "do_round hash seed index pivot round list_size =
     (let flip = (pivot + (list_size - index)) mod list_size;
          position = max index flip;
          source = hash_with_round_and_position hash seed round position;
          byte = source ! (position mod 256 div 8);
          bit_v = drop_bit (position mod 8) byte mod 2
      in if bit_v = 1 then flip else index)"

definition compute_shuffled_index ::
  "hash_fn \<Rightarrow> nat \<Rightarrow> nat \<Rightarrow> u8 list \<Rightarrow> u8 \<Rightarrow> nat option" where
  "compute_shuffled_index hash index list_size seed shuffle_round_count =
     (if list_size = 0 \<or> index \<ge> list_size \<or> list_size > usize_max div 2 \<or> list_size > 2 ^ 24 then None
      else Some (foldl (\<lambda>index r.
             let pivot = bytes_to_int64 (hash_with_round hash seed (of_nat r)) mod list_size
             in do_round hash seed index pivot (of_nat r) list_size)
             index [0..<unat shuffle_round_count]))"

section \<open>A whole list\<close>

datatype panic = CopyFromSlice | IndexOutOfBounds

definition SEED_SIZE :: nat where "SEED_SIZE = 32"
definition ROUND_SIZE :: nat where "ROUND_SIZE = 1"
definition POSITION_WINDOW_SIZE :: nat where "POSITION_WINDOW_SIZE = 4"
definition PIVOT_VIEW_SIZE :: nat where "PIVOT_VIEW_SIZE = SEED_SIZE + ROUND_SIZE"
definition TOTAL_SIZE :: nat where "TOTAL_SIZE = SEED_SIZE + ROUND_SIZE + POSITION_WINDOW_SIZE"

lemmas buf_sizes = SEED_SIZE_def ROUND_SIZE_def POSITION_WINDOW_SIZE_def PIVOT_VIEW_SIZE_def TOTAL_SIZE_def

text \<open>\<open>Buf\<close>: the seed, the round and the position window.\<close>

definition buf_new :: "u8 list \<Rightarrow> (u8 list, panic) result" where
  "buf_new seed = (if length seed = SEED_SIZE then Ok (seed @ replicate (TOTAL_SIZE - SEED_SIZE) 0)
                   else Err CopyFromSlice)"

definition set_round :: "u8 list \<Rightarrow> u8 \<Rightarrow> u8 list" where
  "set_round buf round = buf[SEED_SIZE := round]"

definition raw_pivot :: "hash_fn \<Rightarrow> u8 list \<Rightarrow> nat" where
  "raw_pivot hash buf = from_le_bytes (take 8 (hash (take PIVOT_VIEW_SIZE buf)))"

definition mix_in_position :: "u8 list \<Rightarrow> nat \<Rightarrow> u8 list" where
  "mix_in_position buf position = take PIVOT_VIEW_SIZE buf @ le_bytes POSITION_WINDOW_SIZE position"

text \<open>\<open>masked_swap\<close>: swaps two entries by a mask of zeros or ones.\<close>

definition masked_swap :: "usize list \<Rightarrow> nat \<Rightarrow> nat \<Rightarrow> u8 \<Rightarrow> (usize list, panic) result" where
  "masked_swap input i j bit_v =
     (if i \<ge> length input \<or> j \<ge> length input then Err IndexOutOfBounds
      else let mask = 0 - (ucast bit_v :: usize);
               left = input ! i;
               right = input ! j;
               delta = (left XOR right) AND mask
           in Ok (input[i := left XOR delta, j := right XOR delta]))"

record shuffle_state =
  ss_input :: "usize list"
  ss_buf :: "u8 list"
  ss_source :: "u8 list"
  ss_byte :: u8

text \<open>The body of the two inner loops.\<close>

definition swap_step :: "hash_fn \<Rightarrow> shuffle_state \<Rightarrow> nat \<times> nat \<Rightarrow> (shuffle_state, panic) result" where
  "swap_step hash st = (\<lambda>(i, j).
     let st = (if j AND 255 = 255
               then let buf = mix_in_position (ss_buf st) (drop_bit 8 j)
                    in st\<lparr>ss_buf := buf, ss_source := hash buf\<rparr>
               else st);
         st = (if j AND 7 = 7 then st\<lparr>ss_byte := ss_source st ! drop_bit 3 (j AND 255)\<rparr> else st);
         bit_v = drop_bit (j AND 7) (ss_byte st) AND 1
     in bindE (masked_swap (ss_input st) i j bit_v) (\<lambda>input. Ok (st\<lparr>ss_input := input\<rparr>)))"

text \<open>Loads the hash and the byte of a position, then walks down from it.\<close>

definition swap_loop ::
  "hash_fn \<Rightarrow> usize list \<times> u8 list \<Rightarrow> nat \<Rightarrow> (nat \<times> nat) list \<Rightarrow> (usize list \<times> u8 list, panic) result" where
  "swap_loop hash st0 position pairs =
     (let buf = mix_in_position (snd st0) (drop_bit 8 position);
          source = hash buf
      in bindE (try_fold (swap_step hash)
                  \<lparr>ss_input = fst st0, ss_buf = buf, ss_source = source,
                   ss_byte = source ! drop_bit 3 (position AND 255)\<rparr> pairs) (\<lambda>st.
         Ok (ss_input st, ss_buf st)))"

definition shuffle_round ::
  "hash_fn \<Rightarrow> nat \<Rightarrow> u8 \<Rightarrow> usize list \<times> u8 list \<Rightarrow> (usize list \<times> u8 list, panic) result" where
  "shuffle_round hash list_size r st =
     (let buf = set_round (snd st) r;
          pivot = raw_pivot hash buf mod list_size;
          mirror = drop_bit 1 (pivot + 1);
          mirror' = drop_bit 1 (pivot + list_size + 1);
          end_position = list_size - 1
      in bindE (swap_loop hash (fst st, buf) pivot (map (\<lambda>i. (i, pivot - i)) [0..<mirror])) (\<lambda>st.
         swap_loop hash st end_position
           (map (\<lambda>(loop_iter, i). (i, end_position - loop_iter)) (enumerate 0 [pivot + 1..<mirror']))))"

text \<open>The outer loop. The round counter is a byte, which bounds the number of turns.\<close>

function shuffle_rounds ::
  "hash_fn \<Rightarrow> nat \<Rightarrow> u8 \<Rightarrow> bool \<Rightarrow> u8 \<Rightarrow> usize list \<times> u8 list \<Rightarrow> (usize list \<times> u8 list, panic) result" where
  "shuffle_rounds hash list_size rounds forwards r st =
     bindE (shuffle_round hash list_size r st) (\<lambda>st.
       if forwards
       then if r + 1 = rounds then Ok st else shuffle_rounds hash list_size rounds forwards (r + 1) st
       else if r = 0 then Ok st else shuffle_rounds hash list_size rounds forwards (r - 1) st)"
  by pat_completeness auto

termination
proof (relation "measure (\<lambda>(_, _, rounds, forwards, r, _). if forwards then unat (rounds - (r + 1)) else unat r)",
    goal_cases)
  case (2 hash list_size rounds forwards r st st')
  then have "rounds - (r + 1) \<noteq> 0" by auto
  from measure_unat [OF this] 2 show ?case by (simp add: diff_diff_add)
next
  case (3 hash list_size rounds forwards r st st')
  with measure_unat [of r] show ?case by simp
qed simp

definition shuffle_list ::
  "hash_fn \<Rightarrow> usize list \<Rightarrow> u8 \<Rightarrow> u8 list \<Rightarrow> bool \<Rightarrow> (usize list option, panic) result" where
  "shuffle_list hash input rounds seed forwards =
     (let list_size = length input in
      if input = [] \<or> list_size > usize_max div 2 \<or> list_size > 2 ^ 24 \<or> rounds = 0 then Ok None
      else bindE (buf_new seed) (\<lambda>buf.
           bindE (shuffle_rounds hash list_size rounds forwards (if forwards then 0 else rounds - 1)
                    (input, buf)) (\<lambda>st.
           Ok (Some (fst st)))))"

section \<open>Rounds that are involutions\<close>

text \<open>
  The contract of the rounds of a swap-or-not network on \<open>{..<n}\<close>: every round stays in range
  and undoes itself. A sequence of rounds is then a permutation, undone by the rounds in reverse.
\<close>

locale swap_rounds =
  fixes n :: nat
    and step :: "'r \<Rightarrow> nat \<Rightarrow> nat"
  assumes step_less: "i < n \<Longrightarrow> step r i < n"
    and step_invol: "i < n \<Longrightarrow> step r (step r i) = i"
begin

lemma path_less: "i < n \<Longrightarrow> foldl (\<lambda>i r. step r i) i rs < n"
  by (induction rs arbitrary: i) (auto simp: step_less)

lemma path_rev: "i < n \<Longrightarrow> foldl (\<lambda>i r. step r i) (foldl (\<lambda>i r. step r i) i rs) (rev rs) = i"
  by (induction rs arbitrary: i) (auto simp: step_less step_invol)

lemma path_rev': "i < n \<Longrightarrow> foldl (\<lambda>i r. step r i) (foldl (\<lambda>i r. step r i) i (rev rs)) rs = i"
  using path_rev [of i "rev rs"] by simp

lemma path_bij: "bij_betw (\<lambda>i. foldl (\<lambda>i r. step r i) i rs) {..<n} {..<n}"
  by (rule bij_betw_byWitness [where f' = "\<lambda>i. foldl (\<lambda>i r. step r i) i (rev rs)"])
     (auto simp: path_less path_rev path_rev')

text \<open>Passing over a list: each round moves to place \<open>k\<close> the entry of its partner.\<close>

lemma passes:
  "length xs = n \<Longrightarrow> foldl (\<lambda>xs r. map (\<lambda>k. xs ! step r k) [0..<n]) xs rs =
     map (\<lambda>k. xs ! foldl (\<lambda>i r. step r i) k (rev rs)) [0..<n]"
proof (induction rs arbitrary: xs)
  case Nil
  then show ?case using map_nth [of xs] by simp
next
  case (Cons r rs)
  then show ?case by (simp add: path_less step_less)
qed

end

section \<open>One round\<close>

definition flip_of :: "nat \<Rightarrow> nat \<Rightarrow> nat \<Rightarrow> nat" where
  "flip_of n pivot i = (pivot + (n - i)) mod n"

definition bit_at :: "hash_fn \<Rightarrow> u8 list \<Rightarrow> u8 \<Rightarrow> nat \<Rightarrow> bool" where
  "bit_at hash seed r p \<longleftrightarrow>
     drop_bit (p mod 8) (hash_with_round_and_position hash seed r p ! (p mod 256 div 8)) mod 2 = 1"

definition round_pivot :: "hash_fn \<Rightarrow> u8 list \<Rightarrow> nat \<Rightarrow> u8 \<Rightarrow> nat" where
  "round_pivot hash seed n r = bytes_to_int64 (hash_with_round hash seed r) mod n"

definition index_round :: "hash_fn \<Rightarrow> u8 list \<Rightarrow> nat \<Rightarrow> nat \<Rightarrow> nat \<Rightarrow> nat" where
  "index_round hash seed n r i = do_round hash seed i (round_pivot hash seed n (of_nat r)) (of_nat r) n"

lemma do_round_alt:
  "do_round hash seed i pivot r n =
     (if bit_at hash seed r (max i (flip_of n pivot i)) then flip_of n pivot i else i)"
  by (simp add: do_round_def bit_at_def flip_of_def Let_def)

lemma flip_of_cases: "i < n \<Longrightarrow> pivot < n \<Longrightarrow> flip_of n pivot i = (if i \<le> pivot then pivot - i else pivot + n - i)"
proof -
  assume a: "i < n" "pivot < n"
  show ?thesis
  proof (cases "i \<le> pivot")
    case True
    with a have "pivot + (n - i) = n + (pivot - i)" by simp
    with a True show ?thesis unfolding flip_of_def by (simp del: add_diff_assoc)
  next
    case False
    with a show ?thesis by (simp add: flip_of_def)
  qed
qed

lemma flip_of_less: "i < n \<Longrightarrow> pivot < n \<Longrightarrow> flip_of n pivot i < n"
  by (simp add: flip_of_def)

lemma flip_of_invol: "i < n \<Longrightarrow> pivot < n \<Longrightarrow> flip_of n pivot (flip_of n pivot i) = i"
  by (simp add: flip_of_cases) auto

lemma do_round_less: "i < n \<Longrightarrow> pivot < n \<Longrightarrow> do_round hash seed i pivot r n < n"
  by (simp add: do_round_alt flip_of_less)

lemma do_round_invol:
  "i < n \<Longrightarrow> pivot < n \<Longrightarrow> do_round hash seed (do_round hash seed i pivot r n) pivot r n = i"
  by (simp add: do_round_alt flip_of_invol max.commute)

lemma round_pivot_less: "0 < n \<Longrightarrow> round_pivot hash seed n r < n"
  by (simp add: round_pivot_def)

interpretation index_rounds: swap_rounds n "index_round hash seed n"
  for hash seed n
  by unfold_locales (auto simp: index_round_def intro!: do_round_less do_round_invol round_pivot_less)

lemma compute_shuffled_index_path:
  "compute_shuffled_index hash index n seed rounds =
     (if n = 0 \<or> index \<ge> n \<or> n > usize_max div 2 \<or> n > 2 ^ 24 then None
      else Some (foldl (\<lambda>i r. index_round hash seed n r i) index [0..<unat rounds]))"
  by (simp add: compute_shuffled_index_def index_round_def round_pivot_def Let_def)

section \<open>The inner loops\<close>

lemma masked_swap_Ok:
  assumes "i < length xs" "j < length xs" "b = 0 \<or> b = 1"
  shows "masked_swap xs i j b = Inr (if b = 1 then xs[i := xs ! j, j := xs ! i] else xs)"
proof -
  have "x XOR (x XOR y) = y" "y XOR (x XOR y) = x" for x y :: usize
    by (simp_all add: bit_eq_iff bit_simps) blast+
  with assms show ?thesis by (auto simp: masked_swap_def Let_def)
qed

definition cached :: "hash_fn \<Rightarrow> u8 list \<Rightarrow> u8 \<Rightarrow> nat \<Rightarrow> shuffle_state \<Rightarrow> bool" where
  "cached hash seed r p st \<longleftrightarrow> take PIVOT_VIEW_SIZE (ss_buf st) = seed @ [r] \<and>
     ss_source st = hash_with_round_and_position hash seed r p \<and>
     ss_byte st = ss_source st ! (p mod 256 div 8)"

lemma nat_and_low: "(j::nat) AND 255 = j mod 256" "j AND 7 = j mod 8"
  using take_bit_eq_mask [of 8 j] take_bit_eq_mask [of 3 j] by (simp_all add: take_bit_eq_mod mask_eq_exp_minus_1)

lemma drop_bit_nat: "drop_bit 8 (j::nat) = j div 256" "drop_bit 3 (j::nat) = j div 8" "drop_bit 1 (j::nat) = j div 2"
  by (simp_all add: drop_bit_eq_div)

lemma low_bits: "(j::nat) mod 8 \<noteq> 7 \<Longrightarrow> j mod 256 \<noteq> 255"
proof
  assume a: "j mod 8 \<noteq> 7" "j mod 256 = 255"
  have "j mod 256 mod 8 = j mod 8" by (simp add: mod_mod_cancel)
  with a show False by simp
qed

lemma same_window:
  "j mod 256 \<noteq> 255 \<Longrightarrow> Suc j div 256 = j div 256"
  "j mod 8 \<noteq> 7 \<Longrightarrow> Suc j mod 256 div 8 = j mod 256 div 8"
proof -
  show "j mod 256 \<noteq> 255 \<Longrightarrow> Suc j div 256 = j div 256"
    by (simp add: div_Suc mod_Suc)
  assume a: "j mod 8 \<noteq> 7"
  have m: "j mod 256 mod 8 = j mod 8" by (simp add: mod_mod_cancel)
  from low_bits [OF a] have "Suc j mod 256 = Suc (j mod 256)" by (simp add: mod_Suc)
  with a m show "Suc j mod 256 div 8 = j mod 256 div 8" by (simp add: div_Suc mod_Suc)
qed

lemma swap_step_Ok:
  assumes "cached hash seed r j st \<or> cached hash seed r (Suc j) st" "length seed = SEED_SIZE"
    and "i < length (ss_input st)" "j < length (ss_input st)"
  obtains st' where "swap_step hash st (i, j) = Inr st'" "cached hash seed r j st'"
    "ss_input st' = (if bit_at hash seed r j then (ss_input st)[i := ss_input st ! j, j := ss_input st ! i]
       else ss_input st)"
proof -
  let ?buf = "mix_in_position (ss_buf st) (j div 256)"
  let ?st1 = "if j mod 256 = 255 then st\<lparr>ss_buf := ?buf, ss_source := hash ?buf\<rparr> else st"
  let ?st2 = "if j mod 8 = 7 then ?st1\<lparr>ss_byte := ss_source ?st1 ! (j mod 256 div 8)\<rparr> else ?st1"
  have view: "take PIVOT_VIEW_SIZE (ss_buf st) = seed @ [r]" using assms(1) by (auto simp: cached_def)
  then have buf: "?buf = seed @ [r] @ le_bytes 4 (j div 256)"
    by (simp add: mix_in_position_def POSITION_WINDOW_SIZE_def)
  have src: "ss_source ?st1 = hash_with_round_and_position hash seed r j" "take PIVOT_VIEW_SIZE (ss_buf ?st1) = seed @ [r]"
    "ss_input ?st1 = ss_input st" "ss_byte ?st1 = ss_byte st"
    using assms(1,2) view buf same_window(1) [of j]
    by (auto simp: cached_def hash_with_round_and_position_def buf_sizes)
  have "ss_byte st = ss_source ?st1 ! (j mod 256 div 8)" if "j mod 8 \<noteq> 7"
  proof -
    from low_bits [OF that] that assms(1) same_window [of j] src(1) show ?thesis
      by (auto simp: cached_def hash_with_round_and_position_def)
  qed
  then have c: "cached hash seed r j ?st2" "ss_input ?st2 = ss_input st"
    using src by (auto simp: cached_def)
  have "swap_step hash st (i, j) = bindE (masked_swap (ss_input ?st2) i j (drop_bit (j mod 8) (ss_byte ?st2) AND 1))
      (\<lambda>input. Ok (?st2\<lparr>ss_input := input\<rparr>))"
    unfolding swap_step_def nat_and_low drop_bit_nat Let_def by simp
  with c obtain st2 where c: "cached hash seed r j st2" "ss_input st2 = ss_input st" and
    run: "swap_step hash st (i, j) = bindE (masked_swap (ss_input st2) i j (drop_bit (j mod 8) (ss_byte st2) AND 1))
      (\<lambda>input. Ok (st2\<lparr>ss_input := input\<rparr>))" by blast
  let ?b = "drop_bit (j mod 8) (ss_byte st2) AND 1"
  have b: "?b = 0 \<or> ?b = 1" "?b = 1 \<longleftrightarrow> bit_at hash seed r j"
    using c(1) by (auto simp: and_one_eq cached_def bit_at_def mod2_eq_if)
  have res: "swap_step hash st (i, j) = Inr (st2\<lparr>ss_input := if bit_at hash seed r j
      then (ss_input st)[i := ss_input st ! j, j := ss_input st ! i] else ss_input st\<rparr>)"
    unfolding run c(2) masked_swap_Ok [OF assms(3,4) b(1)] b(2) by simp
  show ?thesis by (rule that [OF res]) (use c(1) in \<open>auto simp: cached_def\<close>)
qed

text \<open>
  The pairs \<open>(a + k, b - k)\<close> for \<open>k < m\<close>: after them the places in \<open>[a, a + m)\<close> and \<open>(b - m, b]\<close> hold
  the entry of their mirror image where the bit of the upper place is set.
\<close>

definition mirror_pass ::
  "(nat \<Rightarrow> bool) \<Rightarrow> nat \<Rightarrow> nat \<Rightarrow> nat \<Rightarrow> nat \<Rightarrow> nat" where
  "mirror_pass bit_set a b m k =
     (if (a \<le> k \<and> k < a + m \<or> b < k + m \<and> k \<le> b) \<and> bit_set (max k (a + b - k)) then a + b - k else k)"

lemma mirror_pass_Suc:
  assumes "a + 2 * Suc m \<le> b + 1"
  shows "mirror_pass f a b m (a + m) = a + m" "mirror_pass f a b m (b - m) = b - m"
    "mirror_pass f a b (Suc m) (a + m) = (if f (b - m) then b - m else a + m)"
    "mirror_pass f a b (Suc m) (b - m) = (if f (b - m) then a + m else b - m)"
    "k \<noteq> a + m \<Longrightarrow> k \<noteq> b - m \<Longrightarrow> mirror_pass f a b (Suc m) k = mirror_pass f a b m k"
proof -
  have max: "max (a + m) (b - m) = b - m" "max (b - m) (a + m) = b - m" "a + b - (a + m) = b - m" "a + b - (b - m) = a + m"
    using assms by auto
  show "mirror_pass f a b m (a + m) = a + m" "mirror_pass f a b m (b - m) = b - m"
    using assms by (auto simp: mirror_pass_def)
  show "mirror_pass f a b (Suc m) (a + m) = (if f (b - m) then b - m else a + m)"
    "mirror_pass f a b (Suc m) (b - m) = (if f (b - m) then a + m else b - m)"
    unfolding mirror_pass_def max using assms by auto
  assume k: "k \<noteq> a + m" "k \<noteq> b - m"
  then have "(a \<le> k \<and> k < a + Suc m \<or> b < k + Suc m \<and> k \<le> b) \<longleftrightarrow> (a \<le> k \<and> k < a + m \<or> b < k + m \<and> k \<le> b)"
    using assms by linarith
  then show "mirror_pass f a b (Suc m) k = mirror_pass f a b m k"
    unfolding mirror_pass_def by simp
qed

lemma swap_fold_Ok:
  assumes "cached hash seed r b st" "length seed = SEED_SIZE" "length (ss_input st) = n" "b < n" "a + 2 * m \<le> b + 1"
  shows "\<exists>st'. try_fold (swap_step hash) st (map (\<lambda>k. (a + k, b - k)) [0..<m]) = Inr st' \<and>
     take PIVOT_VIEW_SIZE (ss_buf st') = seed @ [r] \<and>
     (0 < m \<longrightarrow> cached hash seed r (b - (m - 1)) st') \<and>
     ss_input st' = map (\<lambda>k. ss_input st ! mirror_pass (bit_at hash seed r) a b m k) [0..<n]"
  using assms(5)
proof (induction m)
  case 0
  have "mirror_pass (bit_at hash seed r) a b 0 k = k" for k by (auto simp: mirror_pass_def)
  then show ?case using assms map_nth [of "ss_input st"] by (auto simp: cached_def)
next
  case (Suc m)
  let ?bit = "bit_at hash seed r"
  from Suc obtain st1 where st1: "try_fold (swap_step hash) st (map (\<lambda>k. (a + k, b - k)) [0..<m]) = Inr st1"
    "take PIVOT_VIEW_SIZE (ss_buf st1) = seed @ [r]" "0 < m \<longrightarrow> cached hash seed r (b - (m - 1)) st1"
    "ss_input st1 = map (\<lambda>k. ss_input st ! mirror_pass ?bit a b m k) [0..<n]" by auto
  have ca: "cached hash seed r (b - m) st1 \<or> cached hash seed r (Suc (b - m)) st1"
  proof (cases "m = 0")
    case True
    with st1(1) assms(1) show ?thesis by simp
  next
    case False
    with st1(3) Suc.prems show ?thesis by (simp add: Suc_diff_Suc [symmetric] Suc_diff_le)
  qed
  have len: "length (ss_input st1) = n" by (simp add: st1(4))
  have bounds: "a + m < length (ss_input st1)" "b - m < length (ss_input st1)"
    using assms(4) Suc.prems by (auto simp: len)
  obtain st2 where st2: "swap_step hash st1 (a + m, b - m) = Inr st2" "cached hash seed r (b - m) st2"
    "ss_input st2 = (if ?bit (b - m)
       then (ss_input st1)[a + m := ss_input st1 ! (b - m), b - m := ss_input st1 ! (a + m)] else ss_input st1)"
    using swap_step_Ok [OF ca assms(2) bounds] .
  have "ss_input st2 ! k = ss_input st ! mirror_pass ?bit a b (Suc m) k" if "k < n" for k
  proof -
    have old: "ss_input st1 ! k = ss_input st ! mirror_pass ?bit a b m k" if "k < n" for k
      using that by (simp add: st1(4))
    have "a + m \<noteq> b - m" using Suc.prems by simp
    then have "ss_input st2 ! k = (if ?bit (b - m) \<and> k = a + m then ss_input st1 ! (b - m)
        else if ?bit (b - m) \<and> k = b - m then ss_input st1 ! (a + m) else ss_input st1 ! k)"
      using that bounds unfolding st2(3) by (simp add: nth_list_update len)
    with old [OF that] old [of "a + m"] old [of "b - m"] bounds len mirror_pass_Suc [OF Suc.prems, where f = ?bit]
    show ?thesis by (cases "k = a + m"; cases "k = b - m") auto
  qed
  then have "ss_input st2 = map (\<lambda>k. ss_input st ! mirror_pass ?bit a b (Suc m) k) [0..<n]"
    using len by (intro nth_equalityI) (auto simp: st2(3))
  with st1(1) st2(1,2) show ?case by (auto simp: try_fold_append cached_def)
qed

lemma swap_loop_Ok:
  assumes "take PIVOT_VIEW_SIZE buf = seed @ [r]" "length seed = SEED_SIZE" "length xs = n" "b < n" "a + 2 * m \<le> b + 1"
  obtains buf' where "swap_loop hash (xs, buf) b (map (\<lambda>k. (a + k, b - k)) [0..<m]) =
      Inr (map (\<lambda>k. xs ! mirror_pass (bit_at hash seed r) a b m k) [0..<n], buf')"
    "take PIVOT_VIEW_SIZE buf' = seed @ [r]"
proof -
  let ?buf = "mix_in_position buf (b div 256)"
  let ?st = "\<lparr>ss_input = xs, ss_buf = ?buf, ss_source = hash ?buf, ss_byte = hash ?buf ! (b mod 256 div 8)\<rparr>"
  have "cached hash seed r b ?st"
    using assms(1,2) by (simp add: cached_def mix_in_position_def hash_with_round_and_position_def buf_sizes)
  from swap_fold_Ok [OF this assms(2) _ assms(4,5)] assms(3) obtain st' where
    "try_fold (swap_step hash) ?st (map (\<lambda>k. (a + k, b - k)) [0..<m]) = Inr st'"
    "take PIVOT_VIEW_SIZE (ss_buf st') = seed @ [r]"
    "ss_input st' = map (\<lambda>k. xs ! mirror_pass (bit_at hash seed r) a b m k) [0..<n]" by auto
  then show ?thesis
    by (intro that) (simp_all add: swap_loop_def Let_def nat_and_low drop_bit_nat)
qed

lemma mirror_passes:
  assumes "k < n" "pivot < n"
  shows "mirror_pass f 0 pivot ((pivot + 1) div 2)
       (mirror_pass f (pivot + 1) (n - 1) ((pivot + n + 1) div 2 - (pivot + 1)) k) =
     (if f (max k (flip_of n pivot k)) then flip_of n pivot k else k)"
proof (cases "k \<le> pivot")
  case True
  then have "mirror_pass f (pivot + 1) (n - 1) ((pivot + n + 1) div 2 - (pivot + 1)) k = k"
    using assms by (auto simp: mirror_pass_def)
  moreover have "pivot - k = k" if "\<not> (k < (pivot + 1) div 2 \<or> pivot < k + (pivot + 1) div 2)"
    using that True by linarith
  ultimately show ?thesis using True flip_of_cases [OF assms] by (auto simp: mirror_pass_def)
next
  case False
  let ?m = "(pivot + n + 1) div 2 - (pivot + 1)"
  let ?k = "mirror_pass f (pivot + 1) (n - 1) ?m k"
  have fl: "flip_of n pivot k = pivot + n - k" using False flip_of_cases [OF assms] by simp
  have s: "pivot + 1 + (n - 1) - k = pivot + n - k" using assms by simp
  have mid: "pivot + n - k = k" if "\<not> (k < pivot + 1 + ?m \<or> n - 1 < k + ?m)"
    using that False assms by linarith
  have kk: "?k = (if f (max k (flip_of n pivot k)) then flip_of n pivot k else k)"
    unfolding mirror_pass_def s fl using False assms mid by auto
  have "pivot < ?k" unfolding kk fl using False assms by auto
  then have "mirror_pass f 0 pivot ((pivot + 1) div 2) ?k = ?k"
    unfolding mirror_pass_def [of _ 0] by auto
  with kk show ?thesis by simp
qed

lemma mirror_pass_less: "k < n \<Longrightarrow> b < n \<Longrightarrow> a + 2 * m \<le> b + 1 \<Longrightarrow> mirror_pass f a b m k < n"
  by (auto simp: mirror_pass_def)

lemma enumerate_pairs:
  "map (\<lambda>(loop_iter, i). (i, e - loop_iter)) (enumerate 0 [a..<c]) = map (\<lambda>k. (a + k, e - k)) [0..<c - a]"
  by (rule nth_equalityI) (auto simp: nth_enumerate_eq)

lemma shuffle_round_Ok:
  assumes "take SEED_SIZE buf = seed" "SEED_SIZE < length buf" "length xs = n" "0 < n"
  obtains buf' where "shuffle_round hash n r (xs, buf) =
      Inr (map (\<lambda>k. xs ! do_round hash seed k (round_pivot hash seed n r) r n) [0..<n], buf')"
    "take SEED_SIZE buf' = seed" "SEED_SIZE < length buf'"
proof -
  let ?buf = "set_round buf r" and ?p = "round_pivot hash seed n r" and ?f = "bit_at hash seed r"
  let ?m1 = "(?p + 1) div 2" and ?m2 = "(?p + n + 1) div 2 - (?p + 1)"
  have len: "length seed = SEED_SIZE" using assms(1,2) by auto
  have view: "take PIVOT_VIEW_SIZE ?buf = seed @ [r]"
    using assms(1,2) by (simp add: set_round_def PIVOT_VIEW_SIZE_def ROUND_SIZE_def take_Suc_conv_app_nth)
  then have pivot: "raw_pivot hash ?buf mod n = ?p"
    by (simp add: raw_pivot_def round_pivot_def bytes_to_int64_def hash_with_round_def)
  have p: "?p < n" using assms(4) by (rule round_pivot_less)
  obtain buf1 where l1: "swap_loop hash (xs, ?buf) ?p (map (\<lambda>k. (0 + k, ?p - k)) [0..<?m1]) =
      Inr (map (\<lambda>k. xs ! mirror_pass ?f 0 ?p ?m1 k) [0..<n], buf1)" "take PIVOT_VIEW_SIZE buf1 = seed @ [r]"
    by (rule swap_loop_Ok [OF view len assms(3) p, of 0 ?m1]) auto
  let ?xs = "map (\<lambda>k. xs ! mirror_pass ?f 0 ?p ?m1 k) [0..<n]"
  have b2: "n - 1 < n" "(?p + 1) + 2 * ?m2 \<le> (n - 1) + 1" using p by auto
  obtain buf2 where l2: "swap_loop hash (?xs, buf1) (n - 1) (map (\<lambda>k. ((?p + 1) + k, (n - 1) - k)) [0..<?m2]) =
      Inr (map (\<lambda>k. ?xs ! mirror_pass ?f (?p + 1) (n - 1) ?m2 k) [0..<n], buf2)"
      "take PIVOT_VIEW_SIZE buf2 = seed @ [r]"
    by (rule swap_loop_Ok [OF l1(2) len _ b2, of ?xs]) auto
  have run: "shuffle_round hash n r (xs, buf) = bindE (swap_loop hash (xs, ?buf) ?p (map (\<lambda>k. (0 + k, ?p - k)) [0..<?m1]))
      (\<lambda>st. swap_loop hash st (n - 1) (map (\<lambda>k. ((?p + 1) + k, (n - 1) - k)) [0..<?m2]))"
    unfolding shuffle_round_def Let_def fst_conv snd_conv pivot drop_bit_nat enumerate_pairs by simp
  have eq: "map (\<lambda>k. ?xs ! mirror_pass ?f (?p + 1) (n - 1) ?m2 k) [0..<n] =
      map (\<lambda>k. xs ! do_round hash seed k ?p r n) [0..<n]"
    using mirror_pass_less [OF _ b2] mirror_passes [OF _ p, of _ ?f] by (auto simp: do_round_alt)
  show ?thesis
  proof (rule that)
    show "shuffle_round hash n r (xs, buf) = Inr (map (\<lambda>k. xs ! do_round hash seed k ?p r n) [0..<n], buf2)"
      unfolding run l1(1) bindE_simps l2(1) eq ..
    have "take SEED_SIZE buf2 = take SEED_SIZE (seed @ [r])"
      unfolding l2(2) [symmetric] by (simp add: buf_sizes)
    then show "take SEED_SIZE buf2 = seed" using len by simp
    show "SEED_SIZE < length buf2"
      using arg_cong [OF l2(2), of length] len by (simp add: buf_sizes)
  qed
qed

section \<open>The outer loop\<close>

declare shuffle_rounds.simps [simp del]

lemma u8_pred: "(r::u8) \<noteq> 0 \<Longrightarrow> unat (r - 1) = unat r - 1"
  by (simp add: unat_gt_0 unat_minus_one)

lemma shuffle_rounds_backwards:
  assumes "take SEED_SIZE buf = seed" "SEED_SIZE < length buf" "length xs = n" "0 < n"
  shows "\<exists>buf'. shuffle_rounds hash n rounds False r (xs, buf) =
    Inr (foldl (\<lambda>xs r. map (\<lambda>k. xs ! index_round hash seed n r k) [0..<n]) xs (rev [0..<Suc (unat r)]), buf')"
  using assms
proof (induction "unat r" arbitrary: r xs buf)
  case 0
  then have [simp]: "r = 0" by (simp add: unat_eq_0)
  obtain buf' where run: "shuffle_round hash n 0 (xs, buf) =
      Inr (map (\<lambda>k. xs ! do_round hash seed k (round_pivot hash seed n 0) 0 n) [0..<n], buf')"
    using shuffle_round_Ok [OF 0(2-5), of hash 0] by blast
  then show ?case by (subst shuffle_rounds.simps) (simp add: index_round_def)
next
  case (Suc m)
  have r: "r \<noteq> 0" using Suc.hyps(2) by auto
  then have r1: "unat (r - 1) = m" using u8_pred [of r] Suc.hyps(2) by simp
  obtain buf' where run: "shuffle_round hash n r (xs, buf) =
      Inr (map (\<lambda>k. xs ! do_round hash seed k (round_pivot hash seed n r) r n) [0..<n], buf')"
    and buf': "take SEED_SIZE buf' = seed" "SEED_SIZE < length buf'"
    using shuffle_round_Ok [OF Suc.prems, of hash r] by blast
  have "map (\<lambda>k. xs ! do_round hash seed k (round_pivot hash seed n r) r n) [0..<n] =
      map (\<lambda>k. xs ! index_round hash seed n (unat r) k) [0..<n]"
    by (simp add: index_round_def)
  with run Suc.hyps(1) [of "r - 1", OF r1 [symmetric] buf' _ Suc.prems(4)] r r1 Suc.hyps(2) [symmetric] show ?case
    by (subst shuffle_rounds.simps) auto
qed

lemma shuffle_rounds_forwards:
  assumes "take SEED_SIZE buf = seed" "SEED_SIZE < length buf" "length xs = n" "0 < n" "unat r < unat rounds"
  shows "\<exists>buf'. shuffle_rounds hash n rounds True r (xs, buf) =
    Inr (foldl (\<lambda>xs r. map (\<lambda>k. xs ! index_round hash seed n r k) [0..<n]) xs [unat r..<unat rounds], buf')"
  using assms
proof (induction "unat rounds - unat r" arbitrary: r xs buf)
  case 0
  then show ?case by simp
next
  case (Suc m)
  have "unat rounds < 2 ^ LENGTH(8)" by (rule unsigned_less)
  then have lt: "unat r + 1 < 2 ^ 8" using Suc.prems(5) by simp
  then have r1: "unat (r + 1) = unat r + 1" by (simp add: unat_word_ariths)
  obtain buf' where run: "shuffle_round hash n r (xs, buf) =
      Inr (map (\<lambda>k. xs ! do_round hash seed k (round_pivot hash seed n r) r n) [0..<n], buf')"
    and buf': "take SEED_SIZE buf' = seed" "SEED_SIZE < length buf'"
    using shuffle_round_Ok [OF Suc.prems(1-4), of hash r] by blast
  have eq: "map (\<lambda>k. xs ! do_round hash seed k (round_pivot hash seed n r) r n) [0..<n] =
      map (\<lambda>k. xs ! index_round hash seed n (unat r) k) [0..<n]"
    by (simp add: index_round_def)
  have up: "[unat r..<unat rounds] = unat r # [unat (r + 1)..<unat rounds]"
    using Suc.prems(5) r1 by (simp add: upt_conv_Cons)
  show ?case
  proof (cases "r + 1 = rounds")
    case True
    then show ?thesis using run eq up by (subst shuffle_rounds.simps) auto
  next
    case False
    then have "unat (r + 1) \<noteq> unat rounds" by (simp add: word_unat_eq_iff [symmetric])
    then have "unat (r + 1) < unat rounds" using Suc.prems(5) r1 by linarith
    with Suc.hyps(1) [of "r + 1", OF _ buf' _ Suc.prems(4)] Suc.hyps(2) r1 run eq up False show ?thesis
      by (subst shuffle_rounds.simps) auto
  qed
qed

section \<open>Shuffling a list\<close>

definition index_path :: "hash_fn \<Rightarrow> u8 list \<Rightarrow> nat \<Rightarrow> nat \<Rightarrow> nat \<Rightarrow> nat" where
  "index_path hash seed n rounds i = foldl (\<lambda>i r. index_round hash seed n r i) i [0..<rounds]"

definition index_path_back :: "hash_fn \<Rightarrow> u8 list \<Rightarrow> nat \<Rightarrow> nat \<Rightarrow> nat \<Rightarrow> nat" where
  "index_path_back hash seed n rounds i = foldl (\<lambda>i r. index_round hash seed n r i) i (rev [0..<rounds])"

definition shuffle_size_ok :: "nat \<Rightarrow> bool" where
  "shuffle_size_ok n \<longleftrightarrow> 0 < n \<and> n \<le> usize_max div 2 \<and> n \<le> 2 ^ 24"

lemma index_path_inverse:
  "i < n \<Longrightarrow> index_path_back hash seed n rounds (index_path hash seed n rounds i) = i"
  "i < n \<Longrightarrow> index_path hash seed n rounds (index_path_back hash seed n rounds i) = i"
  "i < n \<Longrightarrow> index_path hash seed n rounds i < n"
  "i < n \<Longrightarrow> index_path_back hash seed n rounds i < n"
  by (simp_all add: index_path_def index_path_back_def index_rounds.path_rev index_rounds.path_rev'
      index_rounds.path_less)

lemma compute_shuffled_index_Some:
  "shuffle_size_ok n \<Longrightarrow> i < n \<Longrightarrow>
     compute_shuffled_index hash i n seed rounds = Some (index_path hash seed n (unat rounds) i)"
  by (simp add: compute_shuffled_index_path index_path_def shuffle_size_ok_def)

lemma shuffle_list_Ok:
  assumes "shuffle_size_ok (length xs)" "rounds \<noteq> 0" "length seed = SEED_SIZE"
  shows "shuffle_list hash xs rounds seed False =
      Inr (Some (map (\<lambda>k. xs ! index_path hash seed (length xs) (unat rounds) k) [0..<length xs]))"
    and "shuffle_list hash xs rounds seed True =
      Inr (Some (map (\<lambda>k. xs ! index_path_back hash seed (length xs) (unat rounds) k) [0..<length xs]))"
proof -
  let ?n = "length xs" and ?buf = "seed @ replicate (TOTAL_SIZE - SEED_SIZE) 0"
  have buf: "buf_new seed = Inr ?buf" "take SEED_SIZE ?buf = seed" "SEED_SIZE < length ?buf"
    using assms(3) by (auto simp: buf_new_def buf_sizes)
  have n: "0 < ?n" "xs \<noteq> []" "\<not> usize_max div 2 < ?n" "\<not> 2 ^ 24 < ?n"
    using assms(1) by (auto simp: shuffle_size_ok_def)
  have R: "Suc (unat (rounds - 1)) = unat rounds" "unat (0::u8) < unat rounds"
    using assms(2) by (simp_all add: u8_pred unat_gt_0)
  show "shuffle_list hash xs rounds seed False =
      Inr (Some (map (\<lambda>k. xs ! index_path hash seed ?n (unat rounds) k) [0..<?n]))"
    using shuffle_rounds_backwards [OF buf(2,3) refl n(1), of hash rounds "rounds - 1"] n assms(2)
      index_rounds.passes [of xs ?n hash seed "rev [0..<unat rounds]"]
    by (auto simp: shuffle_list_def buf(1) R(1) index_path_def simp del: upt_Suc)
  show "shuffle_list hash xs rounds seed True =
      Inr (Some (map (\<lambda>k. xs ! index_path_back hash seed ?n (unat rounds) k) [0..<?n]))"
    using shuffle_rounds_forwards [OF buf(2,3) refl n(1) R(2), of hash] n assms(2)
      index_rounds.passes [of xs ?n hash seed "[0..<unat rounds]"]
    by (auto simp: shuffle_list_def buf(1) index_path_back_def)
qed

section \<open>Properties\<close>

definition sample_hash :: hash_fn where
  "sample_hash bytes = map (\<lambda>i. of_nat (7 * i + 3 * sum_list (map unat bytes) + i * i)) [0..<32]"

definition sample_list :: "usize list" where
  "sample_list = [10, 11, 12, 13, 14]"

definition sample_seed :: "u8 list" where
  "sample_seed = map (\<lambda>i. of_nat i) [0..<32]"

text \<open>
  C16: on the sizes it accepts, \<open>compute_shuffled_index\<close> returns an index for every index in range and
  is a permutation of the indices, whatever the hash function and the number of rounds.
\<close>

theorem compute_shuffled_index_permutes:
  assumes "shuffle_size_ok n"
  shows "(\<forall>i < n. compute_shuffled_index hash i n seed rounds \<noteq> None) \<and>
    bij_betw (\<lambda>i. the (compute_shuffled_index hash i n seed rounds)) {..<n} {..<n}"
proof -
  have "bij_betw (\<lambda>i. the (compute_shuffled_index hash i n seed rounds)) {..<n} {..<n} \<longleftrightarrow>
      bij_betw (\<lambda>i. foldl (\<lambda>i r. index_round hash seed n r i) i [0..<unat rounds]) {..<n} {..<n}"
    by (rule bij_betw_cong) (simp add: compute_shuffled_index_Some [OF assms] index_path_def)
  then show ?thesis
    using index_rounds.path_bij compute_shuffled_index_Some [OF assms] by auto
qed

theorem compute_shuffled_index_permutes_witness:
  "bij_betw (\<lambda>i. the (compute_shuffled_index sample_hash i 10 sample_seed 3)) {..<10} {..<10}"
  using compute_shuffled_index_permutes [of 10 sample_hash sample_seed 3]
  by (simp add: shuffle_size_ok_def usize_max_def)

text \<open>
  C17: \<open>shuffle_list\<close> returns, without a panic, the list that its documentation describes in terms of
  \<open>compute_shuffled_index\<close>. Backwards, place \<open>i\<close> of the result holds the entry at the shuffled index of
  \<open>i\<close>; forwards, the entry of place \<open>i\<close> moves to the shuffled index of \<open>i\<close>.
\<close>

theorem shuffle_list_matches_index:
  assumes "shuffle_size_ok (length xs)" "rounds \<noteq> 0" "length seed = 32"
  shows "\<exists>ys zs. shuffle_list hash xs rounds seed False = Ok (Some ys) \<and>
    shuffle_list hash xs rounds seed True = Ok (Some zs) \<and>
    length ys = length xs \<and> length zs = length xs \<and>
    (\<forall>i < length xs. \<exists>j < length xs. compute_shuffled_index hash i (length xs) seed rounds = Some j \<and>
       ys ! i = xs ! j \<and> zs ! j = xs ! i)"
proof -
  let ?n = "length xs" and ?p = "index_path hash seed (length xs) (unat rounds)"
  note run = shuffle_list_Ok [OF assms(1,2) assms(3) [folded SEED_SIZE_def], of hash]
  have "\<exists>j < ?n. compute_shuffled_index hash i ?n seed rounds = Some j \<and>
      map (\<lambda>k. xs ! ?p k) [0..<?n] ! i = xs ! j \<and>
      map (\<lambda>k. xs ! index_path_back hash seed ?n (unat rounds) k) [0..<?n] ! j = xs ! i" if "i < ?n" for i
    using that index_path_inverse [OF that, of hash seed "unat rounds"] compute_shuffled_index_Some [OF assms(1) that]
    by (intro exI [of _ "?p i"]) simp
  then show ?thesis using run by auto
qed

theorem shuffle_list_matches_index_witness:
  "\<exists>ys. shuffle_list sample_hash sample_list 2 sample_seed False = Ok (Some ys) \<and>
     (\<exists>j. compute_shuffled_index sample_hash 3 (length sample_list) sample_seed 2 = Some j \<and>
        ys ! 3 = sample_list ! j)"
proof -
  have "shuffle_size_ok (length sample_list)" "length sample_seed = 32" and lt: "3 < length sample_list"
    by (simp_all add: shuffle_size_ok_def usize_max_def sample_seed_def sample_list_def)
  from shuffle_list_matches_index [OF this(1) _ this(2), of 2 sample_hash] lt show ?thesis by fastforce
qed

text \<open>
  C18: shuffling forwards and then backwards, or backwards and then forwards, gives back the list, as
  the documentation of \<open>shuffle_list\<close> promises.
\<close>

theorem shuffle_list_inverse:
  assumes "shuffle_size_ok (length xs)" "rounds \<noteq> 0" "length seed = 32"
  shows "\<exists>ys. shuffle_list hash xs rounds seed forwards = Ok (Some ys) \<and>
    shuffle_list hash ys rounds seed (\<not> forwards) = Ok (Some xs)"
proof -
  let ?n = "length xs" and ?p = "index_path hash seed (length xs) (unat rounds)"
    and ?q = "index_path_back hash seed (length xs) (unat rounds)"
  note run = shuffle_list_Ok [OF _ assms(2) assms(3) [folded SEED_SIZE_def], of _ hash]
  have "map (\<lambda>k. map (\<lambda>k. xs ! ?p k) [0..<?n] ! ?q k) [0..<?n] = xs"
    "map (\<lambda>k. map (\<lambda>k. xs ! ?q k) [0..<?n] ! ?p k) [0..<?n] = xs"
    by (rule nth_equalityI; simp add: index_path_inverse)+
  then show ?thesis
    using run(1) [OF assms(1)] run(2) [OF assms(1)] run(1) [of "map (\<lambda>k. xs ! ?q k) [0..<?n]"]
      run(2) [of "map (\<lambda>k. xs ! ?p k) [0..<?n]"] assms(1)
    by (cases forwards) simp_all
qed

theorem shuffle_list_inverse_witness:
  "\<exists>ys. shuffle_list sample_hash [10, 11, 12] 2 sample_seed True = Ok (Some ys) \<and>
    shuffle_list sample_hash ys 2 sample_seed False = Ok (Some [10, 11, 12])"
proof -
  have "shuffle_size_ok (length [10::usize, 11, 12])" "length sample_seed = 32"
    by (simp_all add: shuffle_size_ok_def usize_max_def sample_seed_def)
  from shuffle_list_inverse [OF this(1) _ this(2), of 2 sample_hash True] show ?thesis by simp
qed

text \<open>
  C19: \<open>shuffle_list\<close> answers \<open>None\<close> exactly for an empty or oversized list and for zero rounds, panics
  exactly when it gets that far with a seed that has not 32 bytes, and otherwise returns a list.
\<close>

theorem shuffle_list_outcomes:
  "(shuffle_list hash xs rounds seed forwards \<noteq> Ok None \<longleftrightarrow> shuffle_size_ok (length xs) \<and> rounds \<noteq> 0) \<and>
   (shuffle_list hash xs rounds seed forwards = Err e \<longleftrightarrow>
     shuffle_size_ok (length xs) \<and> rounds \<noteq> 0 \<and> length seed \<noteq> 32 \<and> e = CopyFromSlice)"
proof (cases "shuffle_size_ok (length xs) \<and> rounds \<noteq> 0")
  case True
  then show ?thesis
    using shuffle_list_Ok [of xs rounds seed hash]
    by (cases "length seed = SEED_SIZE"; cases forwards)
       (auto simp: SEED_SIZE_def shuffle_list_def shuffle_size_ok_def buf_new_def Let_def)
next
  case False
  then show ?thesis by (auto simp: shuffle_list_def shuffle_size_ok_def Let_def not_less)
qed

end
