(* ===== verification/Merkle_Proof.thy ===== *)
theory Merkle_Proof
  imports Lighthouse_Prelude
begin

unbundle bit_operations_syntax

text \<open>
  The right-sparse Merkle tree of \<open>consensus/merkle_proof/src/lib.rs\<close>. The two-to-one hash
  \<open>hash32_concat\<close> and the table \<open>ZERO_HASHES\<close> come from the crate \<open>ethereum_hashing\<close>: they are the
  parameters \<open>hc\<close> and \<open>zh\<close>. Depths, indices and counts are natural numbers; the depths in use are at
  most 32, so that no shift overflows a \<open>usize\<close>.
\<close>

datatype merkle_tree =
    Finalized hash256
  | Leaf hash256
  | Node hash256 merkle_tree merkle_tree
  | Zero nat

datatype invalid_snapshot =
    EmptyBranchWithNonZeroDeposits nat
  | EndOfTree

datatype merkle_tree_error =
    LeafReached
  | NonLeafProof
  | MerkleTreeFull
  | Invalid
  | DepthTooSmall
  | ArithError
  | ZeroNodeFinalized
  | FinalizedNodePushed
  | InvalidSnapshot invalid_snapshot
  | ProofEncounteredFinalizedNode
  | PleaseNotifyTheDevs

text \<open>What can go wrong where the code unwraps, indexes or asserts.\<close>

datatype 'e failure = Failed 'e | Panicked

definition MAX_TREE_DEPTH :: nat where
  "MAX_TREE_DEPTH = 32"

type_synonym hash_concat = "hash256 \<Rightarrow> hash256 \<Rightarrow> hash256"
type_synonym zero_hashes = "nat \<Rightarrow> hash256"

section \<open>Building\<close>

fun hash :: "zero_hashes \<Rightarrow> merkle_tree \<Rightarrow> hash256" where
  "hash zh (Finalized h) = h"
| "hash zh (Leaf h) = h"
| "hash zh (Node h _ _) = h"
| "hash zh (Zero depth) = zh depth"

fun create :: "hash_concat \<Rightarrow> zero_hashes \<Rightarrow> hash256 list \<Rightarrow> nat \<Rightarrow> merkle_tree" where
  "create hc zh leaves 0 = (if leaves = [] then Zero 0 else Leaf (hd leaves))"
| "create hc zh leaves (Suc d) =
     (if leaves = [] then Zero (Suc d)
      else let subtree_capacity = 2 ^ d;
               (left_leaves, right_leaves) =
                 (if length leaves \<le> subtree_capacity then (leaves, [])
                  else (take subtree_capacity leaves, drop subtree_capacity leaves));
               left_subtree = create hc zh left_leaves d;
               right_subtree = create hc zh right_leaves d
           in Node (hc (hash zh left_subtree) (hash zh right_subtree)) left_subtree right_subtree)"

text \<open>\<open>push_leaf\<close>: the result, and the tree as it is left behind.\<close>

fun push_leaf ::
  "hash_concat \<Rightarrow> zero_hashes \<Rightarrow> hash256 \<Rightarrow> nat \<Rightarrow> merkle_tree \<Rightarrow>
   (unit, merkle_tree_error) result \<times> merkle_tree" where
  "push_leaf hc zh elem depth (Leaf h) =
     (if depth = 0 then (Err DepthTooSmall, Leaf h) else (Err LeafReached, Leaf h))"
| "push_leaf hc zh elem depth (Zero d) =
     (if depth = 0 then (Err DepthTooSmall, Zero d) else (Ok (), create hc zh [elem] depth))"
| "push_leaf hc zh elem depth (Finalized h) =
     (if depth = 0 then (Err DepthTooSmall, Finalized h) else (Err FinalizedNodePushed, Finalized h))"
| "push_leaf hc zh elem depth (Node h left right) =
     (if depth = 0 then (Err DepthTooSmall, Node h left right)
      else let (r, left', right') =
        (case (left, right) of
           (Leaf _, Leaf _) \<Rightarrow> (Err MerkleTreeFull, left, right)
         | (Finalized _, Leaf _) \<Rightarrow> (Err MerkleTreeFull, left, right)
         | (Node _ _ _, Node _ _ _) \<Rightarrow>
             (let (r, right') = push_leaf hc zh elem (depth - 1) right in (r, left, right'))
         | (Finalized _, Node _ _ _) \<Rightarrow>
             (let (r, right') = push_leaf hc zh elem (depth - 1) right in (r, left, right'))
         | (Zero _, Zero _) \<Rightarrow> (Ok (), create hc zh [elem] (depth - 1), right)
         | (Leaf _, Zero _) \<Rightarrow> (Ok (), left, create hc zh [elem] (depth - 1))
         | (Finalized _, Zero _) \<Rightarrow> (Ok (), left, create hc zh [elem] (depth - 1))
         | (Node _ _ _, Zero _) \<Rightarrow>
             (let (r, left') = push_leaf hc zh elem (depth - 1) left in
              case r of
                Inr _ \<Rightarrow> (Ok (), left', right)
              | Inl e \<Rightarrow> if e = MerkleTreeFull then (Ok (), left', create hc zh [elem] (depth - 1))
                         else (Err e, left', right))
         | _ \<Rightarrow> (Err Invalid, left, right))
      in case r of
           Inl e \<Rightarrow> (Err e, Node h left' right')
         | Inr _ \<Rightarrow> (Ok (), Node (hc (hash zh left') (hash zh right')) left' right'))"

section \<open>Finalization and snapshots\<close>

fun finalize_deposits ::
  "nat \<Rightarrow> nat \<Rightarrow> merkle_tree \<Rightarrow> (unit, merkle_tree_error) result \<times> merkle_tree" where
  "finalize_deposits n level (Finalized h) = (Ok (), Finalized h)"
| "finalize_deposits n level (Zero d) = (Err ZeroNodeFinalized, Zero d)"
| "finalize_deposits n level (Leaf h) =
     (if level \<noteq> 0 then (Err PleaseNotifyTheDevs, Leaf h) else (Ok (), Finalized h))"
| "finalize_deposits n level (Node h left right) =
     (if level = 0 then (Err PleaseNotifyTheDevs, Node h left right)
      else let deposits = 2 ^ level in
        if deposits \<le> n then (Ok (), Finalized h)
        else let (r, left') = finalize_deposits n (level - 1) left in
          case r of
            Inl e \<Rightarrow> (Err e, Node h left' right)
          | Inr _ \<Rightarrow>
              if n > deposits div 2
              then let (r, right') = finalize_deposits (n - deposits div 2) (level - 1) right
                   in (r, Node h left' right')
              else (Ok (), Node h left' right))"

fun append_finalized_hashes :: "merkle_tree \<Rightarrow> hash256 list \<Rightarrow> hash256 list" where
  "append_finalized_hashes (Zero _) result = result"
| "append_finalized_hashes (Leaf _) result = result"
| "append_finalized_hashes (Finalized h) result = result @ [h]"
| "append_finalized_hashes (Node _ left right) result =
     append_finalized_hashes right (append_finalized_hashes left result)"

definition get_finalized_hashes :: "merkle_tree \<Rightarrow> hash256 list" where
  "get_finalized_hashes t = append_finalized_hashes t []"

fun from_finalized_snapshot ::
  "hash_concat \<Rightarrow> zero_hashes \<Rightarrow> hash256 list \<Rightarrow> nat \<Rightarrow> nat \<Rightarrow> (merkle_tree, merkle_tree_error) result" where
  "from_finalized_snapshot hc zh [] deposit_count level =
     (if deposit_count = 0 then Ok (Zero level)
      else Err (InvalidSnapshot (EmptyBranchWithNonZeroDeposits deposit_count)))"
| "from_finalized_snapshot hc zh (h # branch) deposit_count 0 =
     (if deposit_count = 1 then Ok (Finalized h) else Err (InvalidSnapshot EndOfTree))"
| "from_finalized_snapshot hc zh (h # branch) deposit_count (Suc l) =
     (if deposit_count = 2 ^ Suc l then Ok (Finalized h)
      else bindE
        (if 2 ^ l \<le> deposit_count
         then bindE (from_finalized_snapshot hc zh branch (deposit_count - 2 ^ l) l)
                (\<lambda>right. Ok (Finalized h, right))
         else bindE (from_finalized_snapshot hc zh (h # branch) deposit_count l)
                (\<lambda>left. Ok (left, Zero l)))
        (\<lambda>(left, right). Ok (Node (hc (hash zh left) (hash zh right)) left right)))"

section \<open>Proofs\<close>

text \<open>
  The branches of a node; the subtrees of a zero node come from the table \<open>ZERO_NODES\<close>, which has
  an entry for each depth up to \<open>MAX_TREE_DEPTH\<close>.
\<close>

fun left_and_right_branches ::
  "merkle_tree \<Rightarrow> ((merkle_tree \<times> merkle_tree) option, merkle_tree_error failure) result" where
  "left_and_right_branches (Finalized _) = Ok None"
| "left_and_right_branches (Leaf _) = Ok None"
| "left_and_right_branches (Node _ l r) = Ok (Some (l, r))"
| "left_and_right_branches (Zero depth) =
     (if depth = 0 then Ok None
      else if depth - 1 > MAX_TREE_DEPTH then Err Panicked
      else Ok (Some (Zero (depth - 1), Zero (depth - 1))))"

fun is_leaf :: "merkle_tree \<Rightarrow> bool" where
  "is_leaf (Leaf _) = True"
| "is_leaf _ = False"

text \<open>The loop of \<open>generate_proof\<close>: the node it ends at, and the proof from the top down.\<close>

fun proof_loop ::
  "zero_hashes \<Rightarrow> nat \<Rightarrow> nat \<Rightarrow> merkle_tree \<Rightarrow> hash256 list \<Rightarrow>
   (merkle_tree \<times> hash256 list, merkle_tree_error failure) result" where
  "proof_loop zh index 0 node path = Ok (node, path)"
| "proof_loop zh index (Suc d) node path =
     (let ith_bit = drop_bit d index AND 1 in
      case node of
        Finalized _ \<Rightarrow> Err (Failed ProofEncounteredFinalizedNode)
      | _ \<Rightarrow> bindE (left_and_right_branches node) (\<lambda>branches.
          case branches of
            None \<Rightarrow> Err Panicked
          | Some (left, right) \<Rightarrow>
              if ith_bit = 1 then proof_loop zh index d right (path @ [hash zh left])
              else proof_loop zh index d left (path @ [hash zh right])))"

definition generate_proof ::
  "zero_hashes \<Rightarrow> nat \<Rightarrow> nat \<Rightarrow> merkle_tree \<Rightarrow>
   (hash256 \<times> hash256 list, merkle_tree_error failure) result" where
  "generate_proof zh index depth t =
     bindE (proof_loop zh index depth t []) (\<lambda>(node, path).
       if length path \<noteq> depth then Err (Failed PleaseNotifyTheDevs)
       else if \<not> is_leaf node then Err (Failed NonLeafProof)
       else Ok (hash zh node, rev path))"

definition merkle_root_from_branch ::
  "hash_concat \<Rightarrow> hash256 \<Rightarrow> hash256 list \<Rightarrow> nat \<Rightarrow> nat \<Rightarrow> (hash256, merkle_tree_error failure) result" where
  "merkle_root_from_branch hc leaf branch depth index =
     (if length branch \<noteq> depth then Err Panicked
      else Ok (foldl (\<lambda>merkle_root (i, branch_node).
             if drop_bit i index AND 1 = 1 then hc branch_node merkle_root
             else hc merkle_root branch_node)
             leaf (take depth (enumerate 0 branch))))"

definition verify_merkle_proof ::
  "hash_concat \<Rightarrow> hash256 \<Rightarrow> hash256 list \<Rightarrow> nat \<Rightarrow> nat \<Rightarrow> hash256 \<Rightarrow> bool" where
  "verify_merkle_proof hc leaf branch depth index root =
     (if length branch = depth then merkle_root_from_branch hc leaf branch depth index = Ok root
      else False)"

section \<open>The list of leaves a tree stands for\<close>

text \<open>
  The documented content of \<open>ZERO_HASHES\<close>: the roots of trees of zero leaves.
\<close>

definition zero_hashes_law :: "hash_concat \<Rightarrow> zero_hashes \<Rightarrow> bool" where
  "zero_hashes_law hc zh \<longleftrightarrow> zh 0 = 0 \<and> (\<forall>d. zh (Suc d) = hc (zh d) (zh d))"

text \<open>The reference root: a complete tree over the leaves, padded with zeros.\<close>

fun merkle_root_of :: "hash_concat \<Rightarrow> nat \<Rightarrow> hash256 list \<Rightarrow> hash256" where
  "merkle_root_of hc 0 xs = (case xs of [] \<Rightarrow> 0 | x # _ \<Rightarrow> x)"
| "merkle_root_of hc (Suc d) xs =
     hc (merkle_root_of hc d (take (2 ^ d) xs)) (merkle_root_of hc d (drop (2 ^ d) xs))"

lemma merkle_root_of_Nil: "zero_hashes_law hc zh \<Longrightarrow> merkle_root_of hc d [] = zh d"
  by (induction d) (auto simp: zero_hashes_law_def)

text \<open>
  A tree of depth \<open>d\<close> that stands for the leaves \<open>xs\<close>, of which the first \<open>k\<close> are finalized.
\<close>

inductive tree_of :: "hash_concat \<Rightarrow> zero_hashes \<Rightarrow> nat \<Rightarrow> hash256 list \<Rightarrow> nat \<Rightarrow> merkle_tree \<Rightarrow> bool"
  for hc zh where
  tree_zero: "tree_of hc zh d [] 0 (Zero d)"
| tree_leaf: "tree_of hc zh 0 [x] 0 (Leaf x)"
| tree_finalized: "length xs = 2 ^ d \<Longrightarrow> tree_of hc zh d xs (2 ^ d) (Finalized (merkle_root_of hc d xs))"
| tree_left: "tree_of hc zh d xs k l \<Longrightarrow> xs \<noteq> [] \<Longrightarrow>
    tree_of hc zh (Suc d) xs k (Node (hc (hash zh l) (zh d)) l (Zero d))"
| tree_right: "tree_of hc zh d xs k l \<Longrightarrow> length xs = 2 ^ d \<Longrightarrow> tree_of hc zh d ys j r \<Longrightarrow> ys \<noteq> [] \<Longrightarrow>
    j < 2 ^ d \<Longrightarrow> (0 < j \<Longrightarrow> k = 2 ^ d) \<Longrightarrow>
    tree_of hc zh (Suc d) (xs @ ys) (k + j) (Node (hc (hash zh l) (hash zh r)) l r)"

inductive_cases tree_of_ZeroE: "tree_of hc zh d xs k (Zero e)"
inductive_cases tree_of_LeafE: "tree_of hc zh d xs k (Leaf h)"
inductive_cases tree_of_FinalizedE: "tree_of hc zh d xs k (Finalized h)"
inductive_cases tree_of_NodeE: "tree_of hc zh d xs k (Node h l r)"

lemma tree_of_bounds: "tree_of hc zh d xs k t \<Longrightarrow> length xs \<le> 2 ^ d \<and> k \<le> length xs"
  by (induction rule: tree_of.induct) auto

lemma tree_of_full_finalized:
  assumes "tree_of hc zh d xs (2 ^ d) t"
  shows "t = Finalized (merkle_root_of hc d xs)"
  using assms
proof (cases rule: tree_of.cases)
  case (tree_left e l)
  have "(2::nat) ^ e < 2 ^ d" using tree_left(1) by simp
  with tree_of_bounds [OF tree_left(3)] show ?thesis by linarith
qed (auto dest: tree_of_bounds)

lemma tree_of_empty: "tree_of hc zh d [] k t \<Longrightarrow> t = Zero d \<and> k = 0"
  by (cases rule: tree_of.cases) auto

lemma tree_of_hash:
  assumes "zero_hashes_law hc zh" "tree_of hc zh d xs k t"
  shows "hash zh t = merkle_root_of hc d xs"
  using assms(2)
proof (induction rule: tree_of.induct)
  case (tree_left d xs k l)
  with tree_of_bounds [OF tree_left(1)] show ?case
    by (simp add: merkle_root_of_Nil [OF assms(1)])
next
  case (tree_right d xs k l ys j r)
  then show ?case by simp
qed (auto simp: merkle_root_of_Nil [OF assms(1)])

section \<open>Creating and pushing\<close>

lemma tree_of_create: "length xs \<le> 2 ^ d \<Longrightarrow> tree_of hc zh d xs 0 (create hc zh xs d)"
proof (induction d arbitrary: xs)
  case 0
  then show ?case by (cases xs) (auto intro: tree_of.intros)
next
  case (Suc d)
  show ?case
  proof (cases "xs = []")
    case True
    then show ?thesis by (simp add: tree_zero)
  next
    case False
    show ?thesis
    proof (cases "length xs \<le> 2 ^ d")
      case True
      have "create hc zh [] d = Zero d" by (cases d) auto
      with True False tree_left [OF Suc.IH [OF True] False] show ?thesis by (simp add: Let_def)
    next
      case long: False
      let ?l = "take (2 ^ d) xs" and ?r = "drop (2 ^ d) xs"
      have "length ?l = 2 ^ d" "length ?r \<le> 2 ^ d" "?r \<noteq> []" using long Suc.prems by auto
      then have "tree_of hc zh (Suc d) (?l @ ?r) (0 + 0)
          (Node (hc (hash zh (create hc zh ?l d)) (hash zh (create hc zh ?r d))) (create hc zh ?l d) (create hc zh ?r d))"
        by (intro tree_right Suc.IH) auto
      with False long show ?thesis by (simp add: Let_def)
    qed
  qed
qed

lemma create_single: "tree_of hc zh d [x] 0 (create hc zh [x] d)"
  by (rule tree_of_create) simp

text \<open>Pushing succeeds as long as there is room, and the new tree stands for one leaf more.\<close>

lemma push_leaf_right:
  assumes "push_leaf hc zh x d r = (q, r')" and "(\<exists>g. l = Finalized g) \<or> (\<exists>g a b. l = Node g a b)"
    and "r = Node g a b"
  shows "push_leaf hc zh x (Suc d) (Node h l r) =
    (case q of Inl e \<Rightarrow> (Err e, Node h l r') | Inr _ \<Rightarrow> (Ok (), Node (hc (hash zh l) (hash zh r')) l r'))"
  using assms by (subst push_leaf.simps) (auto simp del: push_leaf.simps)

lemma push_leaf_left:
  assumes "push_leaf hc zh x d l = (q, l')" and "l = Node g a b"
  shows "push_leaf hc zh x (Suc d) (Node h l (Zero e)) =
    (case q of
       Inr _ \<Rightarrow> (Ok (), Node (hc (hash zh l') (zh e)) l' (Zero e))
     | Inl err \<Rightarrow>
         if err = MerkleTreeFull
         then let r' = create hc zh [x] d in (Ok (), Node (hc (hash zh l') (hash zh r')) l' r')
         else (Err err, Node h l' (Zero e)))"
  using assms by (subst push_leaf.simps) (auto simp del: push_leaf.simps simp: Let_def split: sum.splits)

lemma push_leaf_tree_of:
  assumes "tree_of hc zh d xs k t" "0 < d"
  shows "if length xs < 2 ^ d then \<exists>t'. push_leaf hc zh x d t = (Inr (), t') \<and> tree_of hc zh d (xs @ [x]) k t'
    else push_leaf hc zh x d t = (Inl (if k = 2 ^ d then FinalizedNodePushed else MerkleTreeFull), t)"
  using assms
proof (induction rule: tree_of.induct)
  case (tree_left d xs k l)
  let ?t = "Node (hc (hash zh l) (zh d)) l (Zero d)"
  note b = tree_of_bounds [OF tree_left(1)]
  have pos: "(0::nat) < 2 ^ d" by simp
  have full: "\<exists>t'. (Inr (), Node (hc (hash zh l) (hash zh (create hc zh [x] d))) l (create hc zh [x] d)) = (Inr (), t') \<and>
      tree_of hc zh (Suc d) (xs @ [x]) k t'" if "length xs = 2 ^ d"
    using tree_right [OF tree_left(1) that create_single, of x] pos by auto
  have lt: "length xs < 2 ^ Suc d" using b pos unfolding power_Suc by linarith
  have "\<exists>t'. push_leaf hc zh x (Suc d) ?t = (Inr (), t') \<and> tree_of hc zh (Suc d) (xs @ [x]) k t'"
  proof (cases l)
    case (Zero e)
    with tree_left show ?thesis by (auto elim: tree_of_ZeroE)
  next
    case (Leaf h)
    with tree_left full show ?thesis by (auto elim: tree_of_LeafE)
  next
    case (Finalized h)
    with tree_left full show ?thesis by (auto elim: tree_of_FinalizedE)
  next
    case (Node h l1 l2)
    have d: "0 < d" and k: "k \<noteq> 2 ^ d"
      using tree_left(1) tree_of_full_finalized [of hc zh d xs l] by (auto simp: Node elim: tree_of_NodeE)
    show ?thesis
    proof (cases "length xs < 2 ^ d")
      case True
      with tree_left.IH [OF d] obtain l' where "push_leaf hc zh x d l = (Inr (), l')" "tree_of hc zh d (xs @ [x]) k l'"
        by auto
      with Node tree_of.tree_left [of hc zh d "xs @ [x]" k l'] push_leaf_left show ?thesis
        by (simp del: push_leaf.simps)
    next
      case False
      with tree_left.IH [OF d] k have "push_leaf hc zh x d l = (Inl MerkleTreeFull, l)" by simp
      with Node full False b push_leaf_left show ?thesis by (simp del: push_leaf.simps add: Let_def)
    qed
  qed
  with lt show ?case by simp
next
  case (tree_right d xs k l ys j r)
  note b = tree_of_bounds [OF tree_right(1)] tree_of_bounds [OF tree_right(3)]
  have k: "k + j \<noteq> 2 ^ Suc d" using b tree_right(2,5) by simp
  show ?case
  proof (cases r)
    case (Zero e)
    with tree_right show ?thesis by (auto elim: tree_of_ZeroE)
  next
    case (Finalized h)
    with tree_right show ?thesis by (auto elim: tree_of_FinalizedE)
  next
    case (Leaf h)
    then have [simp]: "d = 0" "ys = [h]" using tree_right(3) by (auto elim: tree_of_LeafE)
    from tree_right(1,2) k Leaf show ?thesis by (cases rule: tree_of.cases) auto
  next
    case (Node h r1 r2)
    have d: "0 < d" using tree_right(3) by (auto simp: Node elim: tree_of_NodeE)
    then have l: "(\<exists>h. l = Finalized h) \<or> (\<exists>h a b. l = Node h a b)"
      using tree_right(1,2) by (cases l) (auto elim: tree_of_ZeroE tree_of_LeafE)
    show ?thesis
    proof (cases "length ys < 2 ^ d")
      case True
      with tree_right.IH(2) [OF d] obtain r' where r': "push_leaf hc zh x d r = (Inr (), r')" "tree_of hc zh d (ys @ [x]) j r'"
        by auto
      have "tree_of hc zh (Suc d) (xs @ ys @ [x]) (k + j) (Node (hc (hash zh l) (hash zh r')) l r')"
        using tree_right r'(2) by (intro tree_of.tree_right) auto
      with push_leaf_right [OF r'(1) l Node] True tree_right(2) show ?thesis
        by (simp del: push_leaf.simps)
    next
      case False
      with tree_right.IH(2) [OF d] tree_right(5) have r': "push_leaf hc zh x d r = (Inl MerkleTreeFull, r)" by simp
      with push_leaf_right [OF r' l Node] False b tree_right(2) k show ?thesis
        by (simp del: push_leaf.simps)
    qed
  qed
qed (auto simp: create_single)

section \<open>Finalizing\<close>

lemma finalize_deposits_hash [simp]: "hash zh (snd (finalize_deposits n level t)) = hash zh t"
  by (cases t) (auto simp: Let_def split: prod.splits sum.splits)

lemma finalize_deposits_tree_of:
  assumes law: "zero_hashes_law hc zh" and t: "tree_of hc zh d xs k t"
    and n: "1 \<le> n" "n \<le> length xs \<or> length xs = 2 ^ d"
  shows "\<exists>t'. finalize_deposits n d t = (Ok (), t') \<and> tree_of hc zh d xs (max k (min n (2 ^ d))) t'"
  using t n
proof (induction arbitrary: n rule: tree_of.induct)
  case (tree_leaf x)
  then show ?case using tree_finalized [of "[x]" 0 hc zh] by auto
next
  case (tree_finalized xs d)
  then show ?case by (auto intro: tree_of.tree_finalized)
next
  case (tree_left d xs k l)
  have pos: "(0::nat) < 2 ^ d" by simp
  note b = tree_of_bounds [OF tree_left(1)]
  have n: "n \<le> length xs" "n \<le> 2 ^ d" using tree_left.prems b pos by auto
  obtain l' where l': "finalize_deposits n d l = (Ok (), l')" "tree_of hc zh d xs (max k n) l'"
    using tree_left.IH [of n] n tree_left.prems by auto
  have "hash zh l' = hash zh l" using finalize_deposits_hash [of zh n d l] l' by simp
  moreover have "n < 2 * 2 ^ d" using n pos by linarith
  ultimately show ?case using tree_of.tree_left [OF l'(2) tree_left(2)] l' n
    by (simp add: Let_def)
next
  case (tree_right d xs k l ys j r)
  note b = tree_of_bounds [OF tree_right(1)] tree_of_bounds [OF tree_right(3)]
  note t = tree_of.tree_right [OF tree_right(1-6)]
  show ?case
  proof (cases "2 ^ Suc d \<le> n")
    case True
    with tree_right.prems b tree_right(2) have "length (xs @ ys) = 2 ^ Suc d" by auto
    with tree_finalized [OF this, of hc zh] tree_of_hash [OF law t] True b show ?thesis
      by (auto simp: max_def)
  next
    case False
    obtain l' where l': "finalize_deposits n d l = (Ok (), l')" "tree_of hc zh d xs (max k (min n (2 ^ d))) l'"
      using tree_right.IH(1) [of n] tree_right.prems tree_right(2) by auto
    have hl: "hash zh l' = hash zh l" using finalize_deposits_hash [of zh n d l] l' by simp
    show ?thesis
    proof (cases "2 ^ d < n")
      case True
      have "1 \<le> n - 2 ^ d" "n - 2 ^ d \<le> length ys \<or> length ys = 2 ^ d"
        using True tree_right.prems tree_right(2) by auto
      then obtain r' where r': "finalize_deposits (n - 2 ^ d) d r = (Ok (), r')"
          "tree_of hc zh d ys (max j (min (n - 2 ^ d) (2 ^ d))) r'"
        using tree_right.IH(2) by blast
      have hr: "hash zh r' = hash zh r" using finalize_deposits_hash [of zh "n - 2 ^ d" d r] r' by simp
      have "tree_of hc zh (Suc d) (xs @ ys) (max k (min n (2 ^ d)) + max j (min (n - 2 ^ d) (2 ^ d)))
          (Node (hc (hash zh l') (hash zh r')) l' r')"
        using l' r' tree_right(2-6) True False b by (intro tree_of.tree_right) auto
      moreover have "max k (min n (2 ^ d)) + max j (min (n - 2 ^ d) (2 ^ d)) = max (k + j) (min n (2 ^ Suc d))"
        using True False tree_right(2,5,6) b by (cases "j = 0") auto
      ultimately show ?thesis using l' r' hl hr True False by (auto simp: Let_def)
    next
      case low: False
      have "tree_of hc zh (Suc d) (xs @ ys) (max k (min n (2 ^ d)) + j) (Node (hc (hash zh l') (hash zh r)) l' r)"
        using l' tree_right(2-6) low b by (intro tree_of.tree_right) auto
      moreover have "max k (min n (2 ^ d)) + j = max (k + j) (min n (2 ^ Suc d))"
        using low False tree_right(2,5,6) b by (cases "j = 0") auto
      ultimately show ?thesis using l' hl False low by (auto simp: Let_def)
    qed
  qed
qed auto

section \<open>Snapshots\<close>

lemma append_finalized_hashes_acc: "append_finalized_hashes t acc = acc @ get_finalized_hashes t"
  unfolding get_finalized_hashes_def
proof (induction t arbitrary: acc)
  case (Node h l r)
  show ?case by (simp only: append_finalized_hashes.simps) (metis Node append.assoc)
qed auto

lemma get_finalized_hashes_simps [simp]:
  "get_finalized_hashes (Zero e) = []"
  "get_finalized_hashes (Leaf h) = []"
  "get_finalized_hashes (Finalized h) = [h]"
  "get_finalized_hashes (Node h l r) = get_finalized_hashes l @ get_finalized_hashes r"
  by (simp_all add: get_finalized_hashes_def append_finalized_hashes_acc [of r "append_finalized_hashes l []"])

lemma get_finalized_hashes_Nil: "tree_of hc zh d xs k t \<Longrightarrow> get_finalized_hashes t = [] \<longleftrightarrow> k = 0"
  by (induction rule: tree_of.induct) auto

lemma snapshot_left:
  assumes l: "tree_of hc zh d xs k l"
    and IH: "\<exists>t'. from_finalized_snapshot hc zh (get_finalized_hashes l) k d = Ok t' \<and> tree_of hc zh d (take k xs) k t'"
  shows "\<exists>t'. from_finalized_snapshot hc zh (get_finalized_hashes l) k (Suc d) = Ok t' \<and>
    tree_of hc zh (Suc d) (take k xs) k t'"
proof (cases "k = 0")
  case True
  with get_finalized_hashes_Nil [OF l] show ?thesis by (auto intro: tree_of.intros)
next
  case False
  note b = tree_of_bounds [OF l]
  from False get_finalized_hashes_Nil [OF l] obtain h hs where h: "get_finalized_hashes l = h # hs"
    by (cases "get_finalized_hashes l") auto
  have pos: "(0::nat) < 2 ^ d" by simp
  have ne: "k \<noteq> 2 ^ Suc d" using b pos unfolding power_Suc by linarith
  show ?thesis
  proof (cases "2 ^ d \<le> k")
    case True
    with b have k: "k = 2 ^ d" and len: "length xs = 2 ^ d" by auto
    have lf: "l = Finalized (merkle_root_of hc d xs)" using tree_of_full_finalized l k by blast
    have "tree_of hc zh (Suc d) xs k (Node (hc (hash zh l) (zh d)) l (Zero d))"
      using l len pos by (intro tree_left) auto
    with lf k len pos show ?thesis by (auto simp: bindE_def)
  next
    case low: False
    from IH obtain t' where t': "from_finalized_snapshot hc zh (h # hs) k d = Ok t'" "tree_of hc zh d (take k xs) k t'"
      by (auto simp: h)
    have "tree_of hc zh (Suc d) (take k xs) k (Node (hc (hash zh t') (zh d)) t' (Zero d))"
      using t' False b by (intro tree_left) auto
    with t' low ne h show ?thesis by (auto simp: bindE_def)
  qed
qed

lemma from_finalized_snapshot_tree_of:
  assumes "tree_of hc zh d xs k t"
  shows "\<exists>t'. from_finalized_snapshot hc zh (get_finalized_hashes t) k d = Ok t' \<and> tree_of hc zh d (take k xs) k t'"
  using assms
proof (induction rule: tree_of.induct)
  case (tree_finalized xs d)
  then show ?case using tree_of.tree_finalized [of xs d hc zh] by (cases d) auto
next
  case (tree_left d xs k l)
  then show ?case using snapshot_left [OF tree_left(1)] by simp
next
  case (tree_right d xs k l ys j r)
  note b = tree_of_bounds [OF tree_right(1)] tree_of_bounds [OF tree_right(3)]
  show ?case
  proof (cases "j = 0")
    case True
    then show ?thesis
      using snapshot_left [OF tree_right(1)] tree_right get_finalized_hashes_Nil [OF tree_right(3)] b by simp
  next
    case False
    then have k: "k = 2 ^ d" using tree_right by simp
    have lf: "l = Finalized (merkle_root_of hc d xs)" using tree_of_full_finalized tree_right(1) k by blast
    obtain r' where r': "from_finalized_snapshot hc zh (get_finalized_hashes r) j d = Ok r'" "tree_of hc zh d (take j ys) j r'"
      using tree_right.IH by auto
    have "tree_of hc zh (Suc d) (xs @ take j ys) (k + j) (Node (hc (hash zh l) (hash zh r')) l r')"
      using tree_right r' False b by (intro tree_of.tree_right) auto
    with r' lf k tree_right False show ?thesis by (auto simp: bindE_def)
  qed
qed (auto intro: tree_of.intros)

section \<open>Proofs of inclusion\<close>

definition branch_fold :: "hash_concat \<Rightarrow> nat \<Rightarrow> hash256 \<Rightarrow> hash256 list \<Rightarrow> hash256" where
  "branch_fold hc index leaf branch = foldl (\<lambda>merkle_root (i, branch_node).
     if drop_bit i index AND 1 = 1 then hc branch_node merkle_root else hc merkle_root branch_node)
     leaf (enumerate 0 branch)"

lemma merkle_root_from_branch_fold:
  "merkle_root_from_branch hc leaf branch (length branch) index = Ok (branch_fold hc index leaf branch)"
  by (simp add: merkle_root_from_branch_def branch_fold_def)

lemma branch_fold_Nil [simp]: "branch_fold hc index leaf [] = leaf"
  by (simp add: branch_fold_def)

lemma branch_fold_snoc [simp]:
  "branch_fold hc index leaf (branch @ [b]) =
     (let root = branch_fold hc index leaf branch in
      if drop_bit (length branch) index mod 2 = 1 then hc b root else hc root b)"
  by (simp add: branch_fold_def enumerate_append_eq Let_def)

lemma mod_Suc_power: "(i::nat) mod 2 ^ Suc d = ((i div 2 ^ d) mod 2) * 2 ^ d + i mod 2 ^ d"
  by (metis add.commute mod_mult2_eq mult.commute power_Suc2)

lemma mod_bit_cases:
  fixes i :: nat
  obtains "drop_bit d i mod 2 = Suc 0" "i mod 2 ^ Suc d = 2 ^ d + i mod 2 ^ d"
  | "drop_bit d i mod 2 = 0" "i mod 2 ^ Suc d = i mod 2 ^ d"
  using mod_Suc_power [of i d] by (cases "odd (i div 2 ^ d)") (auto simp: mod_2_eq_odd drop_bit_eq_div)

lemma proof_loop_tree_of:
  assumes "tree_of hc zh d xs k t" "k \<le> i mod 2 ^ d" "i mod 2 ^ d < length xs"
  shows "\<exists>path. proof_loop zh i d t acc = Ok (Leaf (xs ! (i mod 2 ^ d)), acc @ path) \<and> length path = d \<and>
    branch_fold hc i (xs ! (i mod 2 ^ d)) (rev path) = hash zh t"
  using assms
proof (induction arbitrary: acc rule: tree_of.induct)
  case (tree_finalized xs d)
  have "i mod 2 ^ d < 2 ^ d" by simp
  with tree_finalized show ?case by linarith
next
  case (tree_left d xs k l)
  note b = tree_of_bounds [OF tree_left(1)]
  show ?case
  proof (cases rule: mod_bit_cases [where i = i and d = d])
    case 1
    with tree_left.prems b show ?thesis by linarith
  next
    case 2
    then have "k \<le> i mod 2 ^ d" "i mod 2 ^ d < length xs" using tree_left.prems by auto
    from tree_left.IH [OF this, of "acc @ [zh d]"] obtain path where "proof_loop zh i d l (acc @ [zh d]) = Ok (Leaf (xs ! (i mod 2 ^ d)), (acc @ [zh d]) @ path)"
      "length path = d" "branch_fold hc i (xs ! (i mod 2 ^ d)) (rev path) = hash zh l"
      by (elim exE conjE)
    with 2 show ?thesis
      by (intro exI [of _ "zh d # path"]) (simp add: bindE_def Let_def)
  qed
next
  case (tree_right d xs k l ys j r)
  note b = tree_of_bounds [OF tree_right(1)] tree_of_bounds [OF tree_right(3)]
  show ?case
  proof (cases rule: mod_bit_cases [where i = i and d = d])
    case 1
    with tree_right.prems tree_right(2,5,6) b have "j \<le> i mod 2 ^ d" "i mod 2 ^ d < length ys"
      by (cases "j = 0"; simp)+
    from tree_right.IH(2) [OF this, of "acc @ [hash zh l]"] obtain path where
      "proof_loop zh i d r (acc @ [hash zh l]) = Ok (Leaf (ys ! (i mod 2 ^ d)), (acc @ [hash zh l]) @ path)"
      "length path = d" "branch_fold hc i (ys ! (i mod 2 ^ d)) (rev path) = hash zh r"
      by (elim exE conjE)
    with 1 tree_right(2) show ?thesis
      by (intro exI [of _ "hash zh l # path"]) (simp add: bindE_def Let_def nth_append)
  next
    case 2
    have "i mod 2 ^ d < 2 ^ d" by simp
    with 2 tree_right.prems tree_right(2) have "k \<le> i mod 2 ^ d" "i mod 2 ^ d < length xs" by auto
    from tree_right.IH(1) [OF this, of "acc @ [hash zh r]"] obtain path where
      "proof_loop zh i d l (acc @ [hash zh r]) = Ok (Leaf (xs ! (i mod 2 ^ d)), (acc @ [hash zh r]) @ path)"
      "length path = d" "branch_fold hc i (xs ! (i mod 2 ^ d)) (rev path) = hash zh l"
      by (elim exE conjE)
    with 2 \<open>i mod 2 ^ d < length xs\<close> show ?thesis
      by (intro exI [of _ "hash zh r # path"]) (simp add: bindE_def Let_def nth_append)
  qed
qed auto

lemma generate_proof_tree_of:
  assumes "tree_of hc zh d xs k t" "k \<le> i" "i < length xs"
  obtains path where "generate_proof zh i d t = Ok (xs ! i, path)" "length path = d"
    "merkle_root_from_branch hc (xs ! i) path d i = Ok (hash zh t)"
proof -
  have "i < 2 ^ d" using tree_of_bounds [OF assms(1)] assms(3) by linarith
  with proof_loop_tree_of [OF assms(1), of i "[]"] assms(2,3) obtain path where
    "proof_loop zh i d t [] = Ok (Leaf (xs ! i), path)" "length path = d"
    "branch_fold hc i (xs ! i) (rev path) = hash zh t" by auto
  with that [of "rev path"] merkle_root_from_branch_fold [of hc "xs ! i" "rev path" i] show thesis
    by (simp add: generate_proof_def bindE_def)
qed

text \<open>Where the proof cannot be given: a finalized leaf, and a leaf that is not there.\<close>

lemma proof_loop_zero:
  "d \<le> Suc MAX_TREE_DEPTH \<Longrightarrow> \<exists>path. proof_loop zh i d (Zero d) acc = Ok (Zero 0, path) \<and> length path = length acc + d"
proof (induction d arbitrary: acc)
  case (Suc d)
  then show ?case using Suc.IH [of "acc @ [zh d]"] by (auto simp: bindE_def)
qed auto

lemma proof_loop_unavailable:
  assumes "tree_of hc zh d xs k t" "i mod 2 ^ d < k \<or> length xs \<le> i mod 2 ^ d" "d \<le> Suc MAX_TREE_DEPTH"
  shows "proof_loop zh i d t acc = Err (Failed ProofEncounteredFinalizedNode) \<or>
    (\<exists>node path. proof_loop zh i d t acc = Ok (node, path) \<and> length path = length acc + d \<and> \<not> is_leaf node)"
  using assms
proof (induction arbitrary: acc rule: tree_of.induct)
  case (tree_zero d)
  then show ?case using proof_loop_zero [of d zh i acc] by auto
next
  case (tree_finalized xs d)
  then show ?case by (cases d) auto
next
  case (tree_left d xs k l)
  note b = tree_of_bounds [OF tree_left(1)]
  show ?case
  proof (cases rule: mod_bit_cases [where i = i and d = d])
    case 1
    with proof_loop_zero [of d zh i "acc @ [hash zh l]"] tree_left.prems show ?thesis
      by (auto simp: bindE_def)
  next
    case 2
    with tree_left.IH [of "acc @ [zh d]"] tree_left.prems show ?thesis
      by (auto simp: bindE_def)
  qed
next
  case (tree_right d xs k l ys j r)
  note b = tree_of_bounds [OF tree_right(1)] tree_of_bounds [OF tree_right(3)]
  have lt: "i mod 2 ^ d < 2 ^ d" by simp
  show ?case
  proof (cases rule: mod_bit_cases [where i = i and d = d])
    case 1
    with tree_right.prems tree_right(2,6) b have "i mod 2 ^ d < j \<or> length ys \<le> i mod 2 ^ d"
      by (cases "j = 0") auto
    with 1 tree_right.IH(2) [of "acc @ [hash zh l]"] tree_right.prems show ?thesis
      by (auto simp: bindE_def)
  next
    case 2
    with tree_right.prems tree_right(2,6) b lt have "i mod 2 ^ d < k \<or> length xs \<le> i mod 2 ^ d"
      by (cases "j = 0") auto
    with 2 tree_right.IH(1) [of "acc @ [hash zh r]"] tree_right.prems show ?thesis
      by (auto simp: bindE_def)
  qed
qed auto

lemma generate_proof_unavailable:
  assumes "tree_of hc zh d xs k t" "i < 2 ^ d" "i < k \<or> length xs \<le> i" "d \<le> Suc MAX_TREE_DEPTH"
  shows "generate_proof zh i d t = Err (Failed ProofEncounteredFinalizedNode) \<or>
    generate_proof zh i d t = Err (Failed NonLeafProof)"
  using proof_loop_unavailable [OF assms(1), of i "[]"] assms(2-4)
  by (auto simp: generate_proof_def bindE_def)

section \<open>Binding\<close>

text \<open>The pair that the check of a proof hashes at level \<open>k\<close>, in the order in which it hashes it.\<close>

definition hash_input :: "hash_concat \<Rightarrow> nat \<Rightarrow> hash256 \<Rightarrow> hash256 list \<Rightarrow> nat \<Rightarrow> hash256 \<times> hash256" where
  "hash_input hc index leaf branch k =
     (let root = branch_fold hc index leaf (take k branch) in
      if drop_bit k index AND 1 = 1 then (branch ! k, root) else (root, branch ! k))"

lemma branch_fold_hash_input:
  "k < length branch \<Longrightarrow>
    branch_fold hc index leaf (take (Suc k) branch) = (case hash_input hc index leaf branch k of (a, b) \<Rightarrow> hc a b)"
  by (simp add: take_Suc_conv_app_nth hash_input_def Let_def)

lemma hash_input_differs:
  "branch_fold hc i a (take k p) \<noteq> branch_fold hc i b (take k q) \<Longrightarrow> hash_input hc i a p k \<noteq> hash_input hc i b q k"
  by (simp add: hash_input_def Let_def)

text \<open>Two proofs of one position against one root, for different leaves, collide where they first meet.\<close>

lemma branch_fold_collision:
  assumes "length p = d" "length q = d" "branch_fold hc i a p = branch_fold hc i b q" "a \<noteq> b"
  shows "\<exists>k<d. hash_input hc i a p k \<noteq> hash_input hc i b q k \<and>
    case_prod hc (hash_input hc i a p k) = case_prod hc (hash_input hc i b q k)"
proof -
  let ?meet = "\<lambda>k. branch_fold hc i a (take k p) = branch_fold hc i b (take k q)"
  have "\<not> ?meet 0" "?meet d" using assms by simp_all
  then obtain k where k: "k < d" "\<not> ?meet k" "?meet (Suc k)"
    using ex_least_nat_less [of ?meet d] by auto
  with branch_fold_hash_input [of k p hc i a] branch_fold_hash_input [of k q hc i b] assms(1,2)
    hash_input_differs [OF k(2)] show ?thesis by auto
qed

section \<open>Histories of a tree\<close>

text \<open>
  What a tree goes through: it is created, leaves are pushed, the first \<open>n\<close> leaves are finalized, and
  it is rebuilt from a snapshot of its finalized part. The history remembers the leaves the tree
  holds, and how many of them are finalized.
\<close>

inductive tree_history :: "hash_concat \<Rightarrow> zero_hashes \<Rightarrow> nat \<Rightarrow> hash256 list \<Rightarrow> nat \<Rightarrow> merkle_tree \<Rightarrow> bool"
  for hc zh d where
  created: "length xs \<le> 2 ^ d \<Longrightarrow> tree_history hc zh d xs 0 (create hc zh xs d)"
| pushed: "tree_history hc zh d xs k t \<Longrightarrow> push_leaf hc zh x d t = (Ok (), t') \<Longrightarrow>
    tree_history hc zh d (xs @ [x]) k t'"
| deposits_finalized: "tree_history hc zh d xs k t \<Longrightarrow> 1 \<le> n \<Longrightarrow> n \<le> length xs \<Longrightarrow>
    finalize_deposits n d t = (Ok (), t') \<Longrightarrow> tree_history hc zh d xs (max k n) t'"
| restored: "tree_history hc zh d xs k t \<Longrightarrow>
    from_finalized_snapshot hc zh (get_finalized_hashes t) k d = Ok t' \<Longrightarrow>
    tree_history hc zh d (take k xs) k t'"

lemma push_leaf_zero_depth: "fst (push_leaf hc zh x 0 t) = Err DepthTooSmall"
  by (cases t) auto

lemma tree_history_tree_of:
  assumes "zero_hashes_law hc zh" "tree_history hc zh d xs k t"
  shows "tree_of hc zh d xs k t"
  using assms(2)
proof (induction rule: tree_history.induct)
  case (created xs)
  then show ?case by (rule tree_of_create)
next
  case (pushed xs k t x t')
  from pushed(2) have d: "0 < d" using push_leaf_zero_depth [of hc zh x t] by (cases d) auto
  with pushed push_leaf_tree_of [OF pushed.IH d, of x] show ?case
    by (auto split: if_splits)
next
  case (deposits_finalized xs k t n t')
  then have "min n (2 ^ d) = n" using tree_of_bounds [OF deposits_finalized.IH] by simp
  with finalize_deposits_tree_of [OF assms(1) deposits_finalized.IH, of n] deposits_finalized show ?case by auto
next
  case (restored xs k t t')
  with from_finalized_snapshot_tree_of [OF restored.IH] show ?case by auto
qed

text \<open>Pushing several leaves, one after the other.\<close>

definition push_leaves ::
  "hash_concat \<Rightarrow> zero_hashes \<Rightarrow> nat \<Rightarrow> merkle_tree \<Rightarrow> hash256 list \<Rightarrow> (merkle_tree, merkle_tree_error) result" where
  "push_leaves hc zh d = try_fold (\<lambda>t x. case push_leaf hc zh x d t of (r, t') \<Rightarrow> bindE r (\<lambda>_. Ok t'))"

lemma push_leaves_tree_of:
  assumes "tree_of hc zh d xs k t" "0 < d" "length xs + length ys \<le> 2 ^ d"
  shows "\<exists>t'. push_leaves hc zh d t ys = Ok t' \<and> tree_of hc zh d (xs @ ys) k t'"
  using assms
proof (induction ys arbitrary: xs t)
  case (Cons y ys)
  then obtain t1 where "push_leaf hc zh y d t = (Ok (), t1)" "tree_of hc zh d (xs @ [y]) k t1"
    using push_leaf_tree_of [OF Cons.prems(1,2), of y] by auto
  with Cons.IH [of "xs @ [y]" t1] Cons.prems(2,3) show ?case by (auto simp: push_leaves_def)
qed (simp add: push_leaves_def)

section \<open>Properties\<close>

text \<open>
  C20: However a tree was built - in one go, leaf by leaf, with deposits finalized in
  between, or from a snapshot - its root is that of the complete binary tree over its leaves, padded
  with zero leaves to \<open>2 ^ d\<close>.
\<close>

theorem merkle_root_reference:
  assumes "zero_hashes_law hc zh" "tree_history hc zh d xs k t"
  shows "hash zh t = merkle_root_of hc d xs"
  by (rule tree_of_hash [OF assms(1) tree_history_tree_of [OF assms]])

definition sample_concat :: hash_concat where
  "sample_concat a b = 3 * a + 5 * b + 1"

fun sample_zeros :: zero_hashes where
  "sample_zeros 0 = 0"
| "sample_zeros (Suc d) = sample_concat (sample_zeros d) (sample_zeros d)"

lemma sample_zero_hashes_law: "zero_hashes_law sample_concat sample_zeros"
  by (simp add: zero_hashes_law_def)

text \<open>Three leaves, the first two finalized, in a tree of depth 2.\<close>

definition sample_tree :: merkle_tree where
  "sample_tree = snd (finalize_deposits 2 2 (create sample_concat sample_zeros [7, 8, 9] 2))"

lemma sample_tree_history: "tree_history sample_concat sample_zeros 2 [7, 8, 9] 2 sample_tree"
proof -
  have "finalize_deposits 2 2 (create sample_concat sample_zeros [7, 8, 9] 2) = (Ok (), sample_tree)"
    by code_simp
  from deposits_finalized [OF created _ _ this] show ?thesis by simp
qed

theorem merkle_root_reference_witness:
  "hash sample_zeros sample_tree = merkle_root_of sample_concat 2 [7, 8, 9]"
  by (rule merkle_root_reference [OF sample_zero_hashes_law sample_tree_history])

text \<open>
  C21: \<open>push_leaf\<close> succeeds exactly while the tree has room, and the new tree holds the
  new leaf after the old ones; on a full tree the error is \<open>MerkleTreeFull\<close>, or
  \<open>FinalizedNodePushed\<close> when every leaf is finalized, and the tree is as before.
\<close>

theorem push_leaf_outcome:
  assumes "zero_hashes_law hc zh" "tree_history hc zh d xs k t" "0 < d"
  shows "if length xs < 2 ^ d
    then \<exists>t'. push_leaf hc zh x d t = (Ok (), t') \<and> tree_history hc zh d (xs @ [x]) k t'
      \<and> hash zh t' = merkle_root_of hc d (xs @ [x])
    else push_leaf hc zh x d t = (Err (if k = 2 ^ d then FinalizedNodePushed else MerkleTreeFull), t)"
  using push_leaf_tree_of [OF tree_history_tree_of [OF assms(1,2)] assms(3), of x]
    tree_of_hash [OF assms(1)] pushed [OF assms(2)]
  by (auto split: if_splits)

theorem push_leaf_outcome_witness:
  "\<exists>t'. push_leaf sample_concat sample_zeros 10 2 sample_tree = (Ok (), t') \<and>
     tree_history sample_concat sample_zeros 2 ([7, 8, 9] @ [10]) 2 t' \<and>
     hash sample_zeros t' = merkle_root_of sample_concat 2 ([7, 8, 9] @ [10])"
  using push_leaf_outcome [OF sample_zero_hashes_law sample_tree_history, of 10] by simp

text \<open>
  C22: \<open>generate_proof\<close> gives the leaf and a branch of \<open>depth\<close> hashes that
  \<open>verify_merkle_proof\<close> accepts against the root, for every leaf that is present and not finalized.
  For every other position of the tree it returns an error, and never panics.
\<close>

theorem generate_proof_outcome:
  assumes "zero_hashes_law hc zh" "tree_history hc zh d xs k t" "index < 2 ^ d" "d \<le> Suc MAX_TREE_DEPTH"
  shows "if k \<le> index \<and> index < length xs
    then \<exists>branch. generate_proof zh index d t = Ok (xs ! index, branch) \<and> length branch = d \<and>
      verify_merkle_proof hc (xs ! index) branch d index (hash zh t)
    else generate_proof zh index d t \<in>
      {Err (Failed ProofEncounteredFinalizedNode), Err (Failed NonLeafProof)}"
proof -
  note t = tree_history_tree_of [OF assms(1,2)]
  show ?thesis
  proof (cases "k \<le> index \<and> index < length xs")
    case True
    with generate_proof_tree_of [OF t] show ?thesis
      by (metis verify_merkle_proof_def)
  next
    case False
    with generate_proof_unavailable [OF t assms(3) _ assms(4)] show ?thesis by auto
  qed
qed

theorem generate_proof_outcome_witness:
  "\<exists>branch. generate_proof sample_zeros 2 2 sample_tree = Ok ([7, 8, 9] ! 2, branch) \<and> length branch = 2 \<and>
     verify_merkle_proof sample_concat ([7, 8, 9] ! 2) branch 2 2 (hash sample_zeros sample_tree)"
  using generate_proof_outcome [OF sample_zero_hashes_law sample_tree_history, of 2]
  by (simp add: MAX_TREE_DEPTH_def)

text \<open>
  C23: Proofs are binding: if \<open>verify_merkle_proof\<close> accepts two different leaves at one position of one
  root, then at some level the two checks hash two different pairs of nodes, the ones their branches
  bring them to, and \<open>hash32_concat\<close> gives one value for both: the proofs themselves hold the collision.
\<close>

theorem verify_merkle_proof_binding:
  assumes "verify_merkle_proof hc leaf branch d index root" "verify_merkle_proof hc leaf' branch' d index root"
    and "leaf \<noteq> leaf'"
  shows "\<exists>k<d. hash_input hc index leaf branch k \<noteq> hash_input hc index leaf' branch' k \<and>
    case_prod hc (hash_input hc index leaf branch k) = case_prod hc (hash_input hc index leaf' branch' k)"
proof -
  have len: "length branch = d" "length branch' = d"
    using assms(1,2) by (auto simp: verify_merkle_proof_def split: if_splits)
  moreover have "branch_fold hc index leaf branch = branch_fold hc index leaf' branch'"
    using assms(1,2) merkle_root_from_branch_fold [of hc leaf branch index]
      merkle_root_from_branch_fold [of hc leaf' branch' index] len
    by (simp add: verify_merkle_proof_def)
  ultimately show ?thesis using assms(3) by (rule branch_fold_collision)
qed

theorem verify_merkle_proof_binding_witness:
  "\<exists>k<1. hash_input sample_concat 0 5 [0] k \<noteq> hash_input sample_concat 0 0 [3] k \<and>
    case_prod sample_concat (hash_input sample_concat 0 5 [0] k) = case_prod sample_concat (hash_input sample_concat 0 0 [3] k)"
  by (rule verify_merkle_proof_binding [where root = 16])
    (simp_all add: verify_merkle_proof_def merkle_root_from_branch_def sample_concat_def)

text \<open>
  C24: A tree rebuilt from the finalized hashes of another one, onto which the leaves that
  were not yet finalized are pushed again, has the root of the original.
\<close>

theorem snapshot_resync:
  assumes "zero_hashes_law hc zh" "tree_history hc zh d xs k t" "0 < d"
  shows "\<exists>t' t''. from_finalized_snapshot hc zh (get_finalized_hashes t) k d = Ok t' \<and>
    hash zh t' = merkle_root_of hc d (take k xs) \<and>
    push_leaves hc zh d t' (drop k xs) = Ok t'' \<and> hash zh t'' = hash zh t"
proof -
  note t = tree_history_tree_of [OF assms(1,2)]
  obtain t' where t': "from_finalized_snapshot hc zh (get_finalized_hashes t) k d = Ok t'" "tree_of hc zh d (take k xs) k t'"
    using from_finalized_snapshot_tree_of [OF t] by blast
  obtain t'' where "push_leaves hc zh d t' (drop k xs) = Ok t''" "tree_of hc zh d (take k xs @ drop k xs) k t''"
    using push_leaves_tree_of [OF t'(2) assms(3), of "drop k xs"] tree_of_bounds [OF t] by auto
  with t' tree_of_hash [OF assms(1)] t show ?thesis by (metis append_take_drop_id)
qed

theorem snapshot_resync_witness:
  "\<exists>t' t''. from_finalized_snapshot sample_concat sample_zeros (get_finalized_hashes sample_tree) 2 2 = Ok t' \<and>
    hash sample_zeros t' = merkle_root_of sample_concat 2 (take 2 [7, 8, 9]) \<and>
    push_leaves sample_concat sample_zeros 2 t' (drop 2 [7, 8, 9]) = Ok t'' \<and>
    hash sample_zeros t'' = hash sample_zeros sample_tree"
  by (rule snapshot_resync [OF sample_zero_hashes_law sample_tree_history]) simp

end
