(* ===== verification/Deposit_Tree.thy ===== *)
theory Deposit_Tree
  imports Merkle_Proof
begin

unbundle bit_operations_syntax

text \<open>
  The deposit contract tree: the integer serialization of \<open>consensus/int_to_bytes\<close>, the snapshot of
  \<open>consensus/types/src/deposit/deposit_tree_snapshot.rs\<close> and the tree of
  \<open>consensus/state_processing/src/common/deposit_data_tree.rs\<close>, with the histories a deposit tree
  goes through.
\<close>

section \<open>Bytes\<close>

text \<open>A \<open>Hash256\<close> is 32 bytes; as a word it is read with the most significant byte first.\<close>

definition bytes_of_hash :: "hash256 \<Rightarrow> u8 list" where
  "bytes_of_hash h = map (\<lambda>i. ucast (drop_bit (8 * (31 - i)) h)) [0..<32]"

definition hash_of_bytes :: "u8 list \<Rightarrow> hash256" where
  "hash_of_bytes = foldl (\<lambda>h b. h * 256 + ucast b) 0"

text \<open>\<open>to_le_bytes\<close> of an integer of \<open>n\<close> bytes, and \<open>resize\<close> of a vector.\<close>

definition to_le_bytes :: "nat \<Rightarrow> 'a::len word \<Rightarrow> u8 list" where
  "to_le_bytes n v = map (\<lambda>i. ucast (drop_bit (8 * i) v)) [0..<n]"

definition resize :: "nat \<Rightarrow> 'a \<Rightarrow> 'a list \<Rightarrow> 'a list" where
  "resize n pad xs = take n xs @ replicate (n - length xs) pad"

text \<open>
  What the code takes from other crates: the writers of \<open>bytes::BufMut\<close> (what each appends to the
  buffer), \<open>hash\<close>, \<open>hash32_concat\<close> and \<open>ZERO_HASHES\<close> of \<open>ethereum_hashing\<close>, \<open>safe_add\<close> of
  \<open>safe_arith\<close>.
\<close>

record externals =
  put_u16_le :: "16 word \<Rightarrow> u8 list"
  put_u32_le :: "32 word \<Rightarrow> u8 list"
  put_u64_le :: "64 word \<Rightarrow> u8 list"
  hash_bytes :: "u8 list \<Rightarrow> u8 list"
  hash32_concat :: hash_concat
  ZERO_HASHES :: zero_hashes
  safe_add :: "usize \<Rightarrow> usize \<Rightarrow> usize option"

text \<open>Their documented behaviour.\<close>

definition externals_law :: "externals \<Rightarrow> bool" where
  "externals_law ex \<longleftrightarrow>
     (\<forall>n. put_u16_le ex n = to_le_bytes 2 n) \<and>
     (\<forall>n. put_u32_le ex n = to_le_bytes 4 n) \<and>
     (\<forall>n. put_u64_le ex n = to_le_bytes 8 n) \<and>
     (\<forall>bs. length (hash_bytes ex bs) = 32) \<and>
     (\<forall>a b. hash32_concat ex a b = hash_of_bytes (hash_bytes ex (bytes_of_hash a @ bytes_of_hash b))) \<and>
     zero_hashes_law (hash32_concat ex) (ZERO_HASHES ex) \<and>
     (\<forall>a b. safe_add ex a b = (if unat a + unat b < 2 ^ 64 then Some (a + b) else None))"

subsection \<open>\<open>int_to_bytes\<close>\<close>

definition int_to_bytes1 :: "u8 \<Rightarrow> u8 list" where
  "int_to_bytes1 v = [v]"

definition int_to_bytes2 :: "externals \<Rightarrow> 16 word \<Rightarrow> u8 list" where
  "int_to_bytes2 ex v = (let bytes = put_u16_le ex v in bytes)"

definition int_to_bytes3 :: "externals \<Rightarrow> 32 word \<Rightarrow> u8 list option" where
  "int_to_bytes3 ex v =
     (if v < 2 ^ (3 * 8) then (let bytes = put_u32_le ex v in Some (take 3 bytes)) else None)"

definition int_to_bytes4 :: "32 word \<Rightarrow> u8 list" where
  "int_to_bytes4 v = to_le_bytes 4 v"

definition int_to_bytes8 :: "externals \<Rightarrow> u64 \<Rightarrow> u8 list" where
  "int_to_bytes8 ex v = (let bytes = put_u64_le ex v in bytes)"

definition int_to_bytes32 :: "externals \<Rightarrow> u64 \<Rightarrow> u8 list" where
  "int_to_bytes32 ex v = (let bytes = put_u64_le ex v in resize 32 0 bytes)"

definition int_to_fixed_bytes32 :: "u64 \<Rightarrow> u8 list" where
  "int_to_fixed_bytes32 v =
     (let bytes = replicate 32 0; int_bytes = to_le_bytes 8 v
      in int_bytes @ drop (length int_bytes) bytes)"

definition int_to_bytes48 :: "externals \<Rightarrow> u64 \<Rightarrow> u8 list" where
  "int_to_bytes48 ex v = (let bytes = put_u64_le ex v in resize 48 0 bytes)"

definition int_to_bytes96 :: "externals \<Rightarrow> u64 \<Rightarrow> u8 list" where
  "int_to_bytes96 ex v = (let bytes = put_u64_le ex v in resize 96 0 bytes)"

section \<open>Snapshots\<close>

definition DEPOSIT_TREE_DEPTH :: nat where
  "DEPOSIT_TREE_DEPTH = 32"

record finalized_execution_block =
  feb_deposit_root :: hash256
  feb_deposit_count :: u64
  feb_block_hash :: hash256
  feb_block_height :: u64

record deposit_tree_snapshot =
  finalized :: "hash256 list"
  deposit_root :: hash256
  deposit_count :: u64
  execution_block_hash :: hash256
  execution_block_height :: u64

definition finalized_execution_block_from :: "deposit_tree_snapshot \<Rightarrow> finalized_execution_block" where
  "finalized_execution_block_from snapshot =
     \<lparr>feb_deposit_root = deposit_root snapshot, feb_deposit_count = deposit_count snapshot,
      feb_block_hash = execution_block_hash snapshot, feb_block_height = execution_block_height snapshot\<rparr>"

text \<open>
  The loop of \<open>calculate_root\<close> over the heights; \<open>index\<close> is taken from the end of \<open>finalized\<close>. The
  table \<open>ZERO_HASHES\<close> has an entry for every height below the depth of the deposit tree.
\<close>

fun calculate_loop ::
  "externals \<Rightarrow> hash256 list \<Rightarrow> nat list \<Rightarrow> u64 \<Rightarrow> nat \<Rightarrow> hash256 \<Rightarrow> hash256 option" where
  "calculate_loop ex hashes [] size_v index root = Some root"
| "calculate_loop ex hashes (height # heights) size_v index root =
     (if size_v AND 1 = 1
      then if index = 0 then None
           else if length hashes \<le> index - 1 then None
           else calculate_loop ex hashes heights (size_v div 2) (index - 1)
                  (hash32_concat ex (hashes ! (index - 1)) root)
      else calculate_loop ex hashes heights (size_v div 2) index
             (hash32_concat ex root (ZERO_HASHES ex height)))"

definition calculate_root :: "externals \<Rightarrow> deposit_tree_snapshot \<Rightarrow> hash256 option" where
  "calculate_root ex s =
     (case calculate_loop ex (finalized s) [0..<DEPOSIT_TREE_DEPTH] (deposit_count s) (length (finalized s)) 0 of
        None \<Rightarrow> None
      | Some root \<Rightarrow> Some (hash32_concat ex root (hash_of_bytes (int_to_bytes32 ex (deposit_count s)))))"

definition is_valid :: "externals \<Rightarrow> deposit_tree_snapshot \<Rightarrow> bool" where
  "is_valid ex s = (calculate_root ex s = Some (deposit_root s))"

text \<open>\<open>Default\<close>: \<open>unwrap\<close> panics (here, no value) if the empty root cannot be calculated.\<close>

definition deposit_tree_snapshot_default :: "externals \<Rightarrow> deposit_tree_snapshot option" where
  "deposit_tree_snapshot_default ex =
     (let result = \<lparr>finalized = [], deposit_root = 0, deposit_count = 0, execution_block_hash = 0,
                    execution_block_height = 0\<rparr>
      in case calculate_root ex result of
           None \<Rightarrow> None
         | Some root \<Rightarrow> Some (result\<lparr>deposit_root := root\<rparr>))"

section \<open>The deposit tree\<close>

record deposit_data_tree =
  deposit_tree :: merkle_tree
  mix_in_length :: usize
  finalized_block :: "finalized_execution_block option"
  depth :: nat

definition deposit_create :: "externals \<Rightarrow> hash256 list \<Rightarrow> usize \<Rightarrow> nat \<Rightarrow> deposit_data_tree" where
  "deposit_create ex leaves len d =
     \<lparr>deposit_tree = create (hash32_concat ex) (ZERO_HASHES ex) leaves d, mix_in_length = len,
      finalized_block = None, depth = d\<rparr>"

definition length_bytes :: "externals \<Rightarrow> deposit_data_tree \<Rightarrow> u8 list" where
  "length_bytes ex t = int_to_bytes32 ex (mix_in_length t)"

definition deposit_tree_root :: "externals \<Rightarrow> deposit_data_tree \<Rightarrow> hash256" where
  "deposit_tree_root ex t =
     (let preimage = bytes_of_hash (hash (ZERO_HASHES ex) (deposit_tree t)) @ length_bytes ex t
      in hash_of_bytes (hash_bytes ex preimage))"

definition deposit_generate_proof ::
  "externals \<Rightarrow> deposit_data_tree \<Rightarrow> nat \<Rightarrow> (hash256 \<times> hash256 list, merkle_tree_error failure) result" where
  "deposit_generate_proof ex t index =
     bindE (generate_proof (ZERO_HASHES ex) index (depth t) (deposit_tree t)) (\<lambda>(root, branch).
       Ok (root, branch @ [hash_of_bytes (length_bytes ex t)]))"

definition deposit_push_leaf ::
  "externals \<Rightarrow> hash256 \<Rightarrow> deposit_data_tree \<Rightarrow> (unit, merkle_tree_error) result \<times> deposit_data_tree" where
  "deposit_push_leaf ex leaf t =
     (let (r, tree') = push_leaf (hash32_concat ex) (ZERO_HASHES ex) leaf (depth t) (deposit_tree t);
          t' = t\<lparr>deposit_tree := tree'\<rparr>
      in case r of
           Inl e \<Rightarrow> (Err e, t')
         | Inr _ \<Rightarrow>
             (case safe_add ex (mix_in_length t) 1 of
                None \<Rightarrow> (Err ArithError, t')
              | Some n \<Rightarrow> (Ok (), t'\<lparr>mix_in_length := n\<rparr>)))"

definition deposit_finalize ::
  "finalized_execution_block \<Rightarrow> deposit_data_tree \<Rightarrow> (unit, merkle_tree_error) result \<times> deposit_data_tree" where
  "deposit_finalize block t =
     (let (r, tree') = finalize_deposits (unat (feb_deposit_count block)) (depth t) (deposit_tree t);
          t' = t\<lparr>deposit_tree := tree'\<rparr>
      in case r of
           Inl e \<Rightarrow> (Err e, t')
         | Inr _ \<Rightarrow> (Ok (), t'\<lparr>finalized_block := Some block\<rparr>))"

definition get_snapshot :: "deposit_data_tree \<Rightarrow> deposit_tree_snapshot option" where
  "get_snapshot t =
     (case finalized_block t of
        None \<Rightarrow> None
      | Some block \<Rightarrow> Some
          \<lparr>finalized = get_finalized_hashes (deposit_tree t),
           deposit_root = feb_deposit_root block,
           deposit_count = feb_deposit_count block,
           execution_block_hash = feb_block_hash block,
           execution_block_height = feb_block_height block\<rparr>)"

definition from_snapshot ::
  "externals \<Rightarrow> deposit_tree_snapshot \<Rightarrow> nat \<Rightarrow> (deposit_data_tree, merkle_tree_error) result" where
  "from_snapshot ex snapshot d =
     bindE (from_finalized_snapshot (hash32_concat ex) (ZERO_HASHES ex) (finalized snapshot)
              (unat (deposit_count snapshot)) d) (\<lambda>tree.
       Ok \<lparr>deposit_tree = tree, mix_in_length = deposit_count snapshot,
           finalized_block = Some (finalized_execution_block_from snapshot), depth = d\<rparr>)"

section \<open>Serialization\<close>

definition nat_of_bytes :: "u8 list \<Rightarrow> nat" where
  "nat_of_bytes = foldl (\<lambda>n b. n * 256 + unat b) 0"

lemma nat_of_bytes_snoc: "nat_of_bytes (bs @ [b]) = nat_of_bytes bs * 256 + unat b"
  by (simp add: nat_of_bytes_def)

lemma unat_u8_less: "unat (b::u8) < 256"
proof -
  have "unat b < 2 ^ LENGTH(8)" by (rule unsigned_less)
  then show ?thesis by simp
qed

lemma nat_of_bytes_less: "nat_of_bytes bs < 256 ^ length bs"
proof (induction bs rule: rev_induct)
  case (snoc b bs)
  then have "nat_of_bytes bs * 256 + 256 \<le> 256 ^ length bs * 256" by simp
  with unat_u8_less [of b] show ?case by (simp add: nat_of_bytes_snoc)
qed (simp add: nat_of_bytes_def)

lemma hash_of_bytes_nat: "hash_of_bytes bs = of_nat (nat_of_bytes bs)"
proof (induction bs rule: rev_induct)
  case (snoc b bs)
  then show ?case
    by (simp add: hash_of_bytes_def nat_of_bytes_snoc)
qed (simp add: hash_of_bytes_def nat_of_bytes_def)

lemma unat_hash_of_bytes: "length bs = 32 \<Longrightarrow> unat (hash_of_bytes bs) = nat_of_bytes bs"
  using nat_of_bytes_less [of bs] by (simp add: hash_of_bytes_nat unat_of_nat take_bit_eq_mod)

lemma nat_of_bytes_nth:
  "i < length bs \<Longrightarrow> of_nat (nat_of_bytes bs div 256 ^ (length bs - 1 - i)) = bs ! i"
proof (induction bs arbitrary: i rule: rev_induct)
  case (snoc b bs)
  have low: "(nat_of_bytes bs * 256 + unat b) div 256 = nat_of_bytes bs" using unat_u8_less [of b] by simp
  show ?case
  proof (cases "i = length bs")
    case True
    have "(256 :: u8) = 0" by simp
    then have "(of_nat (nat_of_bytes bs) * 256 :: u8) = 0" by (metis mult_zero_right)
    with True show ?thesis by (simp add: nat_of_bytes_snoc)
  next
    case False
    then have "i < length bs" using snoc.prems by simp
    moreover have "length bs - i = Suc (length bs - 1 - i)" using calculation by simp
    ultimately show ?thesis using snoc.IH [of i] low
      by (simp add: nat_of_bytes_snoc nth_append div_mult2_eq)
  qed
qed simp

lemma bytes_of_hash_of_bytes: "length bs = 32 \<Longrightarrow> bytes_of_hash (hash_of_bytes bs) = bs"
proof (rule nth_equalityI)
  fix i assume len: "length bs = 32" and "i < length (bytes_of_hash (hash_of_bytes bs))"
  then have i: "i < 32" by (simp add: bytes_of_hash_def)
  have "ucast (drop_bit (8 * (31 - i)) (hash_of_bytes bs)) = (of_nat (unat (drop_bit (8 * (31 - i)) (hash_of_bytes bs))) :: u8)"
    by simp
  also have "unat (drop_bit (8 * (31 - i)) (hash_of_bytes bs)) = nat_of_bytes bs div 2 ^ (8 * (31 - i))"
    by (simp add: unat_drop_bit_eq unat_hash_of_bytes [OF len]) (simp add: drop_bit_eq_div)
  also have "(2::nat) ^ (8 * (31 - i)) = 256 ^ (31 - i)" by (simp add: power_mult)
  finally show "bytes_of_hash (hash_of_bytes bs) ! i = bs ! i"
    using nat_of_bytes_nth [of i bs] i len by (simp add: bytes_of_hash_def)
qed (simp add: bytes_of_hash_def)

lemma length_to_le_bytes [simp]: "length (to_le_bytes n v) = n"
  by (simp add: to_le_bytes_def)

lemma int_to_bytes32_fixed: "externals_law ex \<Longrightarrow> int_to_bytes32 ex v = int_to_fixed_bytes32 v"
  by (simp add: int_to_bytes32_def int_to_fixed_bytes32_def resize_def externals_law_def)

lemma length_int_to_bytes32 [simp]: "externals_law ex \<Longrightarrow> length (int_to_bytes32 ex v) = 32"
  by (simp add: int_to_bytes32_def resize_def externals_law_def)

lemma hash32_concat_bytes:
  "externals_law ex \<Longrightarrow> length bs = 32 \<Longrightarrow>
   hash32_concat ex h (hash_of_bytes bs) = hash_of_bytes (hash_bytes ex (bytes_of_hash h @ bs))"
  by (simp add: externals_law_def bytes_of_hash_of_bytes)

lemma deposit_tree_root_concat:
  "externals_law ex \<Longrightarrow> deposit_tree_root ex t =
   hash32_concat ex (hash (ZERO_HASHES ex) (deposit_tree t)) (hash_of_bytes (length_bytes ex t))"
  by (simp add: deposit_tree_root_def hash32_concat_bytes length_bytes_def Let_def)

text \<open>The little-endian reading of a list of bytes.\<close>

definition le_value :: "u8 list \<Rightarrow> nat" where
  "le_value bs = (\<Sum>i<length bs. unat (bs ! i) * 256 ^ i)"

lemma le_value_snoc: "le_value (bs @ [b]) = le_value bs + unat b * 256 ^ length bs"
  by (simp add: le_value_def nth_append)

lemma le_value_to_le_bytes: "le_value (to_le_bytes n v) = unat v mod 256 ^ n"
proof (induction n)
  case (Suc n)
  have "le_value (to_le_bytes (Suc n) v) = le_value (to_le_bytes n v) + unat (ucast (drop_bit (8 * n) v) :: u8) * 256 ^ n"
    by (simp add: le_value_def to_le_bytes_def nth_append)
  also have "unat (ucast (drop_bit (8 * n) v) :: u8) = unat v div 256 ^ n mod 256"
    by (simp add: unsigned_ucast_eq take_bit_eq_mod unat_drop_bit_eq) (simp add: drop_bit_eq_div power_mult)
  finally show ?case using Suc mod_mult2_eq [of "unat v" "256 ^ n" 256] by (simp add: mult.commute)
qed (simp add: le_value_def to_le_bytes_def)

lemma le_value_append_zeros: "le_value (bs @ replicate n 0) = le_value bs"
proof (induction n)
  case (Suc n)
  have "bs @ replicate (Suc n) 0 = (bs @ replicate n 0) @ [0]" by (simp add: replicate_append_same)
  then have "le_value (bs @ replicate (Suc n) 0) = le_value (bs @ replicate n 0)"
    by (simp only: le_value_snoc) simp
  with Suc show ?case by simp
qed simp

section \<open>The root of a snapshot\<close>

lemma tree_of_Suc_cases:
  assumes "tree_of hc zh (Suc d) xs k t" "k < 2 ^ Suc d"
  obtains (low) xs' t' where "k < 2 ^ d" "tree_of hc zh d xs' k t'" "get_finalized_hashes t = get_finalized_hashes t'"
      "take k xs = take k xs'"
  | (high) xs' ys r where "2 ^ d \<le> k" "length xs' = 2 ^ d" "tree_of hc zh d ys (k - 2 ^ d) r"
      "get_finalized_hashes t = merkle_root_of hc d xs' # get_finalized_hashes r"
      "take k xs = xs' @ take (k - 2 ^ d) ys"
  using assms(1)
proof (cases rule: tree_of.cases)
  case tree_zero
  with low [of "[]" "Zero d"] show thesis by (simp add: tree_of.tree_zero)
next
  case tree_finalized
  with assms(2) show thesis by simp
next
  case (tree_left l)
  note b = tree_of_bounds [OF tree_left(2)]
  show thesis
  proof (cases "k < 2 ^ d")
    case True
    with low [of xs l] tree_left show thesis by simp
  next
    case False
    with b have k: "k = 2 ^ d" "length xs = 2 ^ d" by auto
    with tree_of_full_finalized tree_left(2) have "l = Finalized (merkle_root_of hc d xs)" by blast
    with high [of xs "[]" "Zero d"] k tree_left tree_of.tree_zero show thesis by simp
  qed
next
  case (tree_right xs1 k1 l ys j r)
  note b = tree_of_bounds [OF tree_right(4)]
  show thesis
  proof (cases "k < 2 ^ d")
    case True
    with tree_right have "j = 0" by auto
    with low [of xs1 l] True tree_right b get_finalized_hashes_Nil [OF tree_right(6)] show thesis by simp
  next
    case False
    with tree_right b have k: "k1 = 2 ^ d" by (cases "j = 0") auto
    with tree_of_full_finalized tree_right(4) have "l = Finalized (merkle_root_of hc d xs1)" by blast
    with high [of xs1 ys r] k tree_right show thesis by simp
  qed
qed

lemma word_div_2: "(w::u64) div 2 = drop_bit 1 w"
  by (simp add: drop_bit_eq_div)

lemma word_odd_bit: "drop_bit d (w::u64) AND 1 = 1 \<longleftrightarrow> drop_bit d (unat w) mod 2 = Suc 0"
  by (simp add: and_one_eq odd_iff_mod_2_eq_one [symmetric] even_drop_bit_iff_not_bit bit_unsigned_iff flip: One_nat_def)

lemma calculate_loop_tree_of:
  assumes law: "externals_law ex" and t: "tree_of (hash32_concat ex) (ZERO_HASHES ex) d xs k t"
    and k: "k < 2 ^ d" "unat size_v mod 2 ^ d = k"
  shows "calculate_loop ex (pre @ get_finalized_hashes t) ([0..<d] @ rest) size_v
      (length (pre @ get_finalized_hashes t)) 0 =
    calculate_loop ex (pre @ get_finalized_hashes t) rest (drop_bit d size_v) (length pre)
      (merkle_root_of (hash32_concat ex) d (take k xs))"
  using t k
proof (induction d arbitrary: xs k t pre rest)
  case 0
  then show ?case using get_finalized_hashes_Nil [OF 0(1)] by simp
next
  case (Suc d)
  have zl: "zero_hashes_law (hash32_concat ex) (ZERO_HASHES ex)" using law by (simp add: externals_law_def)
  have half: "drop_bit d size_v div 2 = drop_bit (Suc d) size_v" by (simp add: word_div_2)
  from Suc.prems(1,2) show ?case
  proof (cases rule: tree_of_Suc_cases)
    case (low xs' t')
    from low(1) Suc.prems(3) have b: "drop_bit d (unat size_v) mod 2 = 0" "unat size_v mod 2 ^ d = k"
      by (cases rule: mod_bit_cases [where i = "unat size_v" and d = d]; simp)+
    have "merkle_root_of (hash32_concat ex) (Suc d) (take k xs') =
        hash32_concat ex (merkle_root_of (hash32_concat ex) d (take k xs')) (ZERO_HASHES ex d)"
      using low(1) by (simp add: merkle_root_of_Nil [OF zl])
    with Suc.IH [OF low(2,1) b(2), of pre "d # rest"] b(1) half show ?thesis
      by (simp add: low(3,4) word_odd_bit del: merkle_root_of.simps)
  next
    case (high xs' ys r)
    from high(1) Suc.prems(3) have b: "drop_bit d (unat size_v) mod 2 = Suc 0" "unat size_v mod 2 ^ d = k - 2 ^ d"
      by (cases rule: mod_bit_cases [where i = "unat size_v" and d = d]; simp; metis mod_less_divisor not_less zero_less_power zero_less_numeral)+
    have "k - 2 ^ d < 2 ^ d" using Suc.prems(2) high(1) by simp
    from Suc.IH [OF high(3) this b(2), of "pre @ [merkle_root_of (hash32_concat ex) d xs']" "d # rest"] b(1) half high(2) show ?thesis
      by (simp add: high(4,5) word_odd_bit nth_append)
  qed
qed

section \<open>Histories of a deposit tree\<close>

text \<open>
  A deposit tree starts from the leaves it is created with, takes new deposits, is finalized at
  growing deposit counts, and is restored from its snapshot.
\<close>

inductive deposit_history :: "externals \<Rightarrow> nat \<Rightarrow> hash256 list \<Rightarrow> nat \<Rightarrow> deposit_data_tree \<Rightarrow> bool"
  for ex d where
  deposits_created: "length xs \<le> 2 ^ d \<Longrightarrow> deposit_history ex d xs 0 (deposit_create ex xs (of_nat (length xs)) d)"
| deposit_pushed: "deposit_history ex d xs k t \<Longrightarrow> deposit_push_leaf ex x t = (Ok (), t') \<Longrightarrow>
    deposit_history ex d (xs @ [x]) k t'"
| deposit_finalized: "deposit_history ex d xs k t \<Longrightarrow> max 1 k \<le> unat (feb_deposit_count block) \<Longrightarrow>
    unat (feb_deposit_count block) \<le> length xs \<Longrightarrow> deposit_finalize block t = (Ok (), t') \<Longrightarrow>
    deposit_history ex d xs (unat (feb_deposit_count block)) t'"
| deposit_restored: "deposit_history ex d xs k t \<Longrightarrow> get_snapshot t = Some s \<Longrightarrow> from_snapshot ex s d = Ok t' \<Longrightarrow>
    deposit_history ex d (take k xs) k t'"

lemma externals_zero_law: "externals_law ex \<Longrightarrow> zero_hashes_law (hash32_concat ex) (ZERO_HASHES ex)"
  by (simp add: externals_law_def)

lemma deposit_history_invariant:
  assumes law: "externals_law ex" and "deposit_history ex d xs k t"
  shows "tree_of (hash32_concat ex) (ZERO_HASHES ex) d xs k (deposit_tree t) \<and>
    mix_in_length t = of_nat (length xs) \<and> depth t = d \<and>
    (case finalized_block t of None \<Rightarrow> k = 0 | Some block \<Rightarrow> k = unat (feb_deposit_count block))"
  using assms(2)
proof (induction rule: deposit_history.induct)
  case (deposits_created xs)
  then show ?case by (simp add: deposit_create_def tree_of_create)
next
  case (deposit_pushed xs k t x t')
  from deposit_pushed(2) obtain tree' where p: "push_leaf (hash32_concat ex) (ZERO_HASHES ex) x (depth t) (deposit_tree t) = (Ok (), tree')"
      and a: "safe_add ex (mix_in_length t) 1 = Some (mix_in_length t')"
      and t': "t' = t\<lparr>deposit_tree := tree', mix_in_length := mix_in_length t'\<rparr>"
    by (auto simp: deposit_push_leaf_def Let_def split: prod.splits sum.splits option.splits)
  from p have d: "0 < depth t" using push_leaf_zero_depth [of "hash32_concat ex" "ZERO_HASHES ex" x "deposit_tree t"]
    by (cases "depth t") auto
  from a law have "mix_in_length t' = mix_in_length t + 1"
    by (auto simp: externals_law_def split: if_splits)
  with p d t' deposit_pushed.IH push_leaf_tree_of [of "hash32_concat ex" "ZERO_HASHES ex" d xs k "deposit_tree t" x] show ?case
    by (cases t, cases t') (auto split: if_splits)
next
  case (deposit_finalized xs k t block t')
  let ?n = "unat (feb_deposit_count block)"
  from deposit_finalized(4) obtain tree' where f: "finalize_deposits ?n (depth t) (deposit_tree t) = (Ok (), tree')"
      and t': "t' = t\<lparr>deposit_tree := tree', finalized_block := Some block\<rparr>"
    by (auto simp: deposit_finalize_def Let_def split: prod.splits sum.splits)
  from deposit_finalized.IH have t: "tree_of (hash32_concat ex) (ZERO_HASHES ex) d xs k (deposit_tree t)" by simp
  have "max k (min ?n (2 ^ d)) = ?n" using tree_of_bounds [OF t] deposit_finalized(2,3) by auto
  with f t' deposit_finalized finalize_deposits_tree_of [OF externals_zero_law [OF law] t, of ?n] show ?case by auto
next
  case (deposit_restored xs k t s t')
  from deposit_restored.IH have t: "tree_of (hash32_concat ex) (ZERO_HASHES ex) d xs k (deposit_tree t)" by simp
  have s: "finalized s = get_finalized_hashes (deposit_tree t)" "unat (deposit_count s) = k"
    using deposit_restored(2) deposit_restored.IH by (auto simp: get_snapshot_def split: option.splits)
  have k: "of_nat (length (take k xs)) = deposit_count s"
    using s(2) tree_of_bounds [OF t] by (metis length_take min_absorb2 of_nat_unat ucast_id)
  from deposit_restored(3) s from_finalized_snapshot_tree_of [OF t] k show ?case
    by (auto simp: from_snapshot_def finalized_execution_block_from_def)
qed

lemma get_snapshot_fields:
  assumes "get_snapshot t = Some s" "case finalized_block t of None \<Rightarrow> k = 0 | Some block \<Rightarrow> k = unat (feb_deposit_count block)"
  shows "finalized s = get_finalized_hashes (deposit_tree t)" "unat (deposit_count s) = k"
  using assms by (auto simp: get_snapshot_def split: option.splits)

lemma le_value_full: "LENGTH('a) \<le> 8 * n \<Longrightarrow> le_value (to_le_bytes n (v::'a::len word)) = unat v"
proof -
  assume "LENGTH('a) \<le> 8 * n"
  then have le: "(2::nat) ^ LENGTH('a) \<le> 2 ^ (8 * n)" by (intro power_increasing) auto
  have "unat v < 2 ^ LENGTH('a)" by (rule unsigned_less)
  also note le
  also have "(2::nat) ^ (8 * n) = 256 ^ n" by (simp add: power_mult)
  finally show ?thesis by (simp add: le_value_to_le_bytes)
qed

lemma le_value_resize:
  "externals_law ex \<Longrightarrow> 8 \<le> n \<Longrightarrow> le_value (resize n 0 (put_u64_le ex v)) = unat v \<and> length (resize n 0 (put_u64_le ex v)) = n"
  by (simp add: externals_law_def resize_def le_value_append_zeros le_value_full)

lemma int_to_bytes3_value:
  assumes "externals_law ex"
  shows "case int_to_bytes3 ex c of None \<Rightarrow> 2 ^ 24 \<le> unat c
    | Some bytes \<Rightarrow> unat c < 2 ^ 24 \<and> length bytes = 3 \<and> le_value bytes = unat c"
proof -
  have less: "c < 2 ^ (3 * 8) \<longleftrightarrow> unat c < 2 ^ 24" by (simp add: word_less_nat_alt)
  have "take 3 (to_le_bytes 4 c) = to_le_bytes 3 c" by (simp add: to_le_bytes_def take_map)
  with assms less show ?thesis
    by (auto simp: int_to_bytes3_def externals_law_def le_value_to_le_bytes Let_def)
qed

lemma get_finalized_hashes_create: "get_finalized_hashes (create hc zh xs d) = []"
  by (induction d arbitrary: xs) (auto simp: Let_def)

lemma finalize_zero_create:
  "xs \<noteq> [] \<Longrightarrow> \<exists>t'. finalize_deposits 0 d (create hc zh xs d) = (Ok (), t') \<and> get_finalized_hashes t' = [hd xs]"
proof (induction d arbitrary: xs)
  case (Suc d)
  let ?l = "if length xs \<le> 2 ^ d then xs else take (2 ^ d) xs"
  have "?l \<noteq> []" "hd ?l = hd xs" using Suc.prems by (auto simp: hd_take)
  with Suc.IH [of ?l] obtain l where "finalize_deposits 0 d (create hc zh ?l d) = (Ok (), l)" "get_finalized_hashes l = [hd xs]"
    by auto
  with Suc.prems show ?case by (auto simp: Let_def get_finalized_hashes_create split: if_splits)
qed auto

lemma from_finalized_snapshot_zero:
  "from_finalized_snapshot hc zh [h] 0 d = Err (InvalidSnapshot EndOfTree)"
  by (induction d) auto

section \<open>Properties\<close>

text \<open>The laws of the other crates can hold: an instance.\<close>

definition sample_hash :: "u8 list \<Rightarrow> u8 list" where
  "sample_hash bs = bytes_of_hash (foldl (\<lambda>h b. h * 31 + ucast b + 1) 7 bs)"

definition sample_hash_concat :: hash_concat where
  "sample_hash_concat a b = hash_of_bytes (sample_hash (bytes_of_hash a @ bytes_of_hash b))"

fun sample_zero_table :: zero_hashes where
  "sample_zero_table 0 = 0"
| "sample_zero_table (Suc d) = sample_hash_concat (sample_zero_table d) (sample_zero_table d)"

definition sample_externals :: externals where
  "sample_externals =
     \<lparr>put_u16_le = to_le_bytes 2, put_u32_le = to_le_bytes 4, put_u64_le = to_le_bytes 8,
      hash_bytes = sample_hash, hash32_concat = sample_hash_concat, ZERO_HASHES = sample_zero_table,
      safe_add = (\<lambda>a b. if unat a + unat b < 2 ^ 64 then Some (a + b) else None)\<rparr>"

lemma sample_externals_law: "externals_law sample_externals"
  by (simp add: externals_law_def sample_externals_def sample_hash_concat_def sample_hash_def bytes_of_hash_def
      zero_hashes_law_def)

definition sample_block :: finalized_execution_block where
  "sample_block = \<lparr>feb_deposit_root = 0, feb_deposit_count = 1, feb_block_hash = 5, feb_block_height = 9\<rparr>"

lemma sample_deposit_history:
  "\<exists>t s. deposit_history sample_externals DEPOSIT_TREE_DEPTH [7, 8] 1 t \<and> get_snapshot t = Some s"
proof -
  let ?t = "deposit_create sample_externals [7, 8] (of_nat (length [7, 8 :: hash256])) DEPOSIT_TREE_DEPTH"
  have h: "deposit_history sample_externals DEPOSIT_TREE_DEPTH [7, 8] 0 ?t"
    by (rule deposits_created) (simp add: DEPOSIT_TREE_DEPTH_def)
  have inv: "tree_of (hash32_concat sample_externals) (ZERO_HASHES sample_externals) DEPOSIT_TREE_DEPTH [7, 8] 0 (deposit_tree ?t)"
    using deposit_history_invariant [OF sample_externals_law h] by simp
  obtain tree' where "finalize_deposits 1 DEPOSIT_TREE_DEPTH (deposit_tree ?t) = (Ok (), tree')"
    using finalize_deposits_tree_of [OF externals_zero_law [OF sample_externals_law] inv, of 1] by auto
  then have f: "deposit_finalize sample_block ?t = (Ok (), ?t\<lparr>deposit_tree := tree', finalized_block := Some sample_block\<rparr>)"
    by (simp add: deposit_finalize_def sample_block_def deposit_create_def)
  from deposit_finalized [OF h _ _ f] show ?thesis
    by (auto simp: sample_block_def get_snapshot_def)
qed

text \<open>
  C25: The proof that a deposit tree gives for a deposit has \<open>depth + 1\<close> hashes and
  verifies at depth \<open>depth + 1\<close> against the root with the length mixed in - the form in which the
  deposit contract publishes it.
\<close>

theorem deposit_proof_verifies:
  assumes "externals_law ex" "deposit_history ex d xs k t" "k \<le> index" "index < length xs"
  shows "\<exists>branch. deposit_generate_proof ex t index = Ok (xs ! index, branch) \<and> length branch = d + 1 \<and>
    verify_merkle_proof (hash32_concat ex) (xs ! index) branch (d + 1) index (deposit_tree_root ex t)"
proof -
  note inv = deposit_history_invariant [OF assms(1,2)]
  then have t: "tree_of (hash32_concat ex) (ZERO_HASHES ex) d xs k (deposit_tree t)" by simp
  obtain path where p: "generate_proof (ZERO_HASHES ex) index d (deposit_tree t) = Ok (xs ! index, path)" "length path = d"
      "merkle_root_from_branch (hash32_concat ex) (xs ! index) path d index = Ok (hash (ZERO_HASHES ex) (deposit_tree t))"
    using generate_proof_tree_of [OF t assms(3,4)] .
  let ?len = "hash_of_bytes (length_bytes ex t)"
  have "index < 2 ^ d" using tree_of_bounds [OF t] assms(4) by simp
  then have "drop_bit d index = 0" by (simp add: drop_bit_eq_div)
  then have "merkle_root_from_branch (hash32_concat ex) (xs ! index) (path @ [?len]) (d + 1) index = Ok (deposit_tree_root ex t)"
    using p merkle_root_from_branch_fold [of "hash32_concat ex" "xs ! index" path index]
      merkle_root_from_branch_fold [of "hash32_concat ex" "xs ! index" "path @ [?len]" index]
    by (simp add: deposit_tree_root_concat [OF assms(1)])
  with p inv show ?thesis by (auto simp: deposit_generate_proof_def verify_merkle_proof_def)
qed

theorem deposit_proof_verifies_witness:
  "\<exists>branch. deposit_generate_proof sample_externals (deposit_create sample_externals [7, 8, 9] (of_nat 3) 2) 2 = Ok (9, branch) \<and>
     length branch = 3 \<and> verify_merkle_proof (hash32_concat sample_externals) 9 branch 3 2
       (deposit_tree_root sample_externals (deposit_create sample_externals [7, 8, 9] (of_nat 3) 2))"
  using deposit_proof_verifies [OF sample_externals_law deposits_created, of "[7, 8, 9]" 2 2]
  by (simp add: numeral_3_eq_3)

text \<open>
  C26: The root that a snapshot calculates from its few hashes is the root of the deposit
  tree restored from it, which is the root the contract had after the finalized deposits. The tree has
  the depth of the deposit contract; a full contract tree cannot be finalized.
\<close>

theorem snapshot_calculate_root:
  assumes "externals_law ex" "deposit_history ex DEPOSIT_TREE_DEPTH xs k t" "get_snapshot t = Some s"
    and "k < 2 ^ DEPOSIT_TREE_DEPTH"
  shows "\<exists>t'. from_snapshot ex s DEPOSIT_TREE_DEPTH = Ok t' \<and>
    calculate_root ex s = Some (deposit_tree_root ex t') \<and>
    hash (ZERO_HASHES ex) (deposit_tree t') = merkle_root_of (hash32_concat ex) DEPOSIT_TREE_DEPTH (take k xs)"
proof -
  let ?D = DEPOSIT_TREE_DEPTH
  note inv = deposit_history_invariant [OF assms(1,2)]
  then have t: "tree_of (hash32_concat ex) (ZERO_HASHES ex) ?D xs k (deposit_tree t)" by simp
  note s = get_snapshot_fields [OF assms(3) conjunct2 [OF conjunct2 [OF conjunct2 [OF inv]]]]
  obtain tree' where f: "from_finalized_snapshot (hash32_concat ex) (ZERO_HASHES ex) (finalized s) k ?D = Ok tree'"
      and tree': "tree_of (hash32_concat ex) (ZERO_HASHES ex) ?D (take k xs) k tree'"
    using from_finalized_snapshot_tree_of [OF t] s by auto
  have "unat (deposit_count s) mod 2 ^ ?D = k" using s(2) assms(4) by simp
  from calculate_loop_tree_of [OF assms(1) t assms(4) this, of "[]" "[]"]
  have "calculate_root ex s = Some (hash32_concat ex (merkle_root_of (hash32_concat ex) ?D (take k xs))
      (hash_of_bytes (int_to_bytes32 ex (deposit_count s))))"
    by (simp add: calculate_root_def s(1))
  with f tree_of_hash [OF externals_zero_law [OF assms(1)] tree'] s(2) show ?thesis
    by (simp add: from_snapshot_def deposit_tree_root_concat [OF assms(1)] length_bytes_def)
qed

theorem snapshot_calculate_root_witness:
  "\<exists>t s t'. get_snapshot t = Some s \<and> from_snapshot sample_externals s DEPOSIT_TREE_DEPTH = Ok t' \<and>
     calculate_root sample_externals s = Some (deposit_tree_root sample_externals t') \<and>
     hash (ZERO_HASHES sample_externals) (deposit_tree t') =
       merkle_root_of (hash32_concat sample_externals) DEPOSIT_TREE_DEPTH (take 1 [7, 8])"
proof -
  obtain t s where "deposit_history sample_externals DEPOSIT_TREE_DEPTH [7, 8] 1 t" "get_snapshot t = Some s"
    using sample_deposit_history by blast
  moreover have "(1::nat) < 2 ^ DEPOSIT_TREE_DEPTH" by (simp add: DEPOSIT_TREE_DEPTH_def)
  ultimately show ?thesis using snapshot_calculate_root [OF sample_externals_law] by blast
qed

text \<open>
  C27: \<open>finalize\<close> at a deposit count of zero, on a tree with a leaf, does not leave the tree as
  it is: it finalizes the first leaf, and the snapshot that is then given cannot be restored.
\<close>

theorem finalize_zero_deposits:
  assumes "feb_deposit_count block = 0" "xs \<noteq> []"
  shows "\<exists>t s. deposit_finalize block (deposit_create ex xs (of_nat (length xs)) d) = (Ok (), t) \<and>
    get_snapshot t = Some s \<and> finalized s = [hd xs] \<and> from_snapshot ex s d = Err (InvalidSnapshot EndOfTree)"
proof -
  obtain tree' where "finalize_deposits 0 d (create (hash32_concat ex) (ZERO_HASHES ex) xs d) = (Ok (), tree')"
      "get_finalized_hashes tree' = [hd xs]"
    using finalize_zero_create [OF assms(2)] by blast
  then show ?thesis using assms(1)
    by (simp add: deposit_finalize_def deposit_create_def get_snapshot_def from_snapshot_def from_finalized_snapshot_zero)
qed

theorem finalize_zero_deposits_witness:
  "\<exists>t s. deposit_finalize (sample_block\<lparr>feb_deposit_count := 0\<rparr>) (deposit_create sample_externals [7, 8] (of_nat 2) 2) = (Ok (), t) \<and>
    get_snapshot t = Some s \<and> finalized s = [7] \<and> from_snapshot sample_externals s 2 = Err (InvalidSnapshot EndOfTree)"
  using finalize_zero_deposits [of "sample_block\<lparr>feb_deposit_count := 0\<rparr>" "[7, 8]" sample_externals 2]
  by (simp add: numeral_2_eq_2)

text \<open>
  C28: The serializers of integers are little-endian and lose nothing: reading the bytes back
  gives the integer, at every width; \<open>int_to_bytes3\<close> refuses exactly the integers that need a fourth
  byte; and the two serializers to 32 bytes agree.
\<close>

theorem int_to_bytes_roundtrip:
  assumes "externals_law ex"
  shows "le_value (int_to_bytes1 a) = unat a \<and> le_value (int_to_bytes2 ex b) = unat b \<and>
    (case int_to_bytes3 ex c of None \<Rightarrow> 2 ^ 24 \<le> unat c
       | Some bytes \<Rightarrow> unat c < 2 ^ 24 \<and> length bytes = 3 \<and> le_value bytes = unat c) \<and>
    le_value (int_to_bytes4 c) = unat c \<and> le_value (int_to_bytes8 ex n) = unat n \<and>
    le_value (int_to_bytes32 ex n) = unat n \<and> length (int_to_bytes32 ex n) = 32 \<and>
    int_to_bytes32 ex n = int_to_fixed_bytes32 n \<and>
    le_value (int_to_bytes48 ex n) = unat n \<and> length (int_to_bytes48 ex n) = 48 \<and>
    le_value (int_to_bytes96 ex n) = unat n \<and> length (int_to_bytes96 ex n) = 96"
  using assms int_to_bytes3_value [OF assms] le_value_resize [OF assms, of 32 n] le_value_resize [OF assms, of 48 n]
    le_value_resize [OF assms, of 96 n] int_to_bytes32_fixed [OF assms, of n]
  by (simp add: int_to_bytes1_def int_to_bytes2_def int_to_bytes4_def int_to_bytes8_def int_to_bytes32_def
      int_to_bytes48_def int_to_bytes96_def externals_law_def le_value_full le_value_def [of "[a]"] del: length_int_to_bytes32)

theorem int_to_bytes_roundtrip_witness:
  "le_value (int_to_bytes8 sample_externals 513) = unat (513 :: u64)"
  using int_to_bytes_roundtrip [OF sample_externals_law] by blast

end
