(* ===== verification/Proto_Node.thy ===== *)
theory Proto_Node
  imports Consensus_Types
begin

text \<open>
  The nodes of the fork choice tree, from \<open>consensus/proto_array/src/proto_array.rs\<close> and
  \<open>proto_array_fork_choice.rs\<close>: statuses, the two node layouts (before and since the Gloas fork), their
  accessors and payload votes, score deltas, blocks, and what the fork choice reads of the chain
  specification. Indices into the node array are natural numbers. \<open>i64\<close> values are 64-bit words read
  with \<open>sint\<close>.
\<close>

section \<open>Statuses and identifiers\<close>

type_synonym execution_block_hash = hash256

datatype execution_status =
    Valid execution_block_hash
  | Invalid execution_block_hash
  | Optimistic execution_block_hash
  | Irrelevant bool
  | NotYetRevealed execution_block_hash

datatype payload_status = Empty | Full | Pending

datatype parent_payload_status = ParentEmpty | ParentFull | PreGloas

datatype execution_verdict = VerdictValid | VerdictInvalid | VerdictOptimistic

datatype payload_block_hash = PreMerge | Hash execution_block_hash

text \<open>The discriminants of \<open>PayloadStatus\<close>.\<close>

fun payload_status_u8 :: "payload_status \<Rightarrow> u8" where
  "payload_status_u8 Empty = 0"
| "payload_status_u8 Full = 1"
| "payload_status_u8 Pending = 2"

definition from_vote :: "slot \<Rightarrow> bool \<Rightarrow> slot \<Rightarrow> payload_status" where
  "from_vote vote_slot payload_present block_slot =
     (if vote_slot = block_slot then Pending else if payload_present then Full else Empty)"

fun status_is_invalid :: "execution_status \<Rightarrow> bool" where
  "status_is_invalid (Invalid _) = True"
| "status_is_invalid _ = False"

fun is_execution_enabled :: "execution_status \<Rightarrow> bool" where
  "is_execution_enabled (Irrelevant _) = False"
| "is_execution_enabled _ = True"

record attestation_shuffling_id =
  shuffling_epoch :: epoch
  shuffling_decision_block :: hash256

record indexed_fork_choice_node =
  fc_root :: hash256
  fc_proto_node_index :: nat
  fc_payload_status :: payload_status

definition with_status :: "indexed_fork_choice_node \<Rightarrow> payload_status \<Rightarrow> indexed_fork_choice_node" where
  "with_status node status = node\<lparr>fc_payload_status := status\<rparr>"

record latest_message =
  lm_slot :: slot
  lm_root :: hash256
  lm_payload_present :: bool

section \<open>Errors\<close>

text \<open>
  The errors of \<open>error.rs\<close>; \<open>Unexpected\<close> is one constructor for each of the three messages the code
  builds. The last constructor is none of the code's: it stands for a loop that does not return, or a
  panic.
\<close>

datatype proto_error =
    FinalizedNodeUnknown hash256
  | JustifiedNodeUnknown hash256
  | NodeUnknown hash256
  | PayloadHashUnknown execution_block_hash
  | InvalidFinalizedRootChange
  | InvalidNodeIndex nat
  | InvalidBestDescendant nat
  | InvalidParentDelta nat
  | InvalidNodeDelta nat
  | MissingJustifiedCheckpoint
  | MissingFinalizedCheckpoint
  | DeltaOverflow nat
  | ProposerBoostOverflow nat
  | ReOrgThresholdOverflow
  | IndexOverflow string
  | InvalidExecutionDeltaOverflow nat
  | InvalidDeltaLen nat nat
  | RevertedFinalizedEpoch epoch epoch
  | InvalidAncestorOfValidPayload hash256 execution_block_hash
  | ValidExecutionStatusBecameInvalid hash256 execution_block_hash
  | UnknownLatestValidAncestorHash hash256 "execution_block_hash option"
  | IrrelevantDescendant hash256
  | ParentExecutionStatusIsInvalid hash256 hash256
  | ArithOverflow
  | UnexpectedStatus hash256
  | UnexpectedVerdict execution_status
  | UnexpectedUnrevealed hash256
  | InvalidNodeVariant hash256
  | BrokenBlock hash256
  | NoViableChildren
  | OnBlockRequiresProposerIndex
  | InvalidPayloadStatus hash256 payload_status
  | ShouldExtendPayloadInvalidSlot hash256 slot slot
  | NoReturn

section \<open>Signed and checked arithmetic\<close>

definition i64_checked_add :: "i64 \<Rightarrow> i64 \<Rightarrow> i64 option" where
  "i64_checked_add a b =
     (if - (2 ^ 63) \<le> sint a + sint b \<and> sint a + sint b < 2 ^ 63 then Some (a + b) else None)"

definition i64_checked_sub :: "i64 \<Rightarrow> i64 \<Rightarrow> i64 option" where
  "i64_checked_sub a b =
     (if - (2 ^ 63) \<le> sint a - sint b \<and> sint a - sint b < 2 ^ 63 then Some (a - b) else None)"

definition unsigned_abs :: "i64 \<Rightarrow> u64" where
  "unsigned_abs a = (if sint a < 0 then - a else a)"

definition checked_mul :: "u64 \<Rightarrow> u64 \<Rightarrow> u64 option" where
  "checked_mul a b = (if unat a * unat b < 2 ^ 64 then Some (a * b) else None)"

definition checked_div :: "u64 \<Rightarrow> u64 \<Rightarrow> u64 option" where
  "checked_div a b = (if b = 0 then None else Some (a div b))"

definition saturating_mul :: "u64 \<Rightarrow> u64 \<Rightarrow> u64" where
  "saturating_mul a b = (if unat a * unat b < 2 ^ 64 then a * b else - 1)"

lemma unat_mult_code: "unat (a::64 word) * unat b < 2 ^ 64 \<longleftrightarrow> uint a * uint b < 2 ^ 64"
proof -
  have "unat a * unat b < 2 ^ 64 \<longleftrightarrow> int (unat a * unat b) < int (2 ^ 64)" by (simp only: of_nat_less_iff)
  then show ?thesis by (simp only: of_nat_mult uint_nat [symmetric] of_nat_power of_nat_numeral)
qed

lemmas u64_mult_code [code] = saturating_mul_def [unfolded unat_mult_code] checked_mul_def [unfolded unat_mult_code]

text \<open>\<open>apply_delta\<close>: a signed change of an unsigned weight.\<close>

definition apply_delta :: "u64 \<Rightarrow> i64 \<Rightarrow> nat \<Rightarrow> (u64, proto_error) result" where
  "apply_delta w delta_v index =
     (if sint delta_v < 0 then ok_or (DeltaOverflow index) (checked_sub w (unsigned_abs delta_v))
      else ok_or (DeltaOverflow index) (checked_add w delta_v))"

section \<open>Configuration\<close>

text \<open>
  \<open>BitVector<U512>\<close> of the \<open>ssz\<close> crate is represented by its 512 bits; its operations \<open>num_set_bits\<close>
  and \<open>set\<close> (no value when the index is out of range) are parameters.
\<close>

type_synonym bitvector = "512 word"

record fc_spec =
  slots_per_epoch :: u64
  ptc_size :: nat
  altair_fork_epoch :: "epoch option"
  bellatrix_fork_epoch :: "epoch option"
  capella_fork_epoch :: "epoch option"
  deneb_fork_epoch :: "epoch option"
  electra_fork_epoch :: "epoch option"
  fulu_fork_epoch :: "epoch option"
  gloas_fork_epoch :: "epoch option"
  heze_fork_epoch :: "epoch option"
  unaggregated_attestation_due :: nat
  unaggregated_attestation_due_gloas :: nat
  payload_attestation_due :: nat
  proposer_score_boost :: u64
  reorg_head_weight_threshold :: u64
  reorg_parent_weight_threshold :: u64
  reorg_max_epochs_since_finalization :: u64
  num_set_bits :: "bitvector \<Rightarrow> nat"
  bitvector_set :: "bitvector \<Rightarrow> nat \<Rightarrow> bool \<Rightarrow> bitvector option"

text \<open>\<open>Slot::epoch\<close> and \<open>Epoch::start_slot\<close>; the number of slots per epoch is a positive constant.\<close>

definition slot_epoch :: "fc_spec \<Rightarrow> slot \<Rightarrow> epoch" where
  "slot_epoch spec s = s div slots_per_epoch spec"

definition start_slot :: "fc_spec \<Rightarrow> epoch \<Rightarrow> slot" where
  "start_slot spec e = saturating_mul e (slots_per_epoch spec)"

datatype fork_name = Base | Altair | Bellatrix | Capella | Deneb | Electra | Fulu | Gloas | Heze

fun fork_at_epoch :: "(epoch option \<times> fork_name) list \<Rightarrow> epoch \<Rightarrow> fork_name" where
  "fork_at_epoch [] e = Base"
| "fork_at_epoch ((fork_epoch_opt, name) # forks) e =
     (case fork_epoch_opt of
        Some fork_epoch \<Rightarrow> if fork_epoch \<le> e then name else fork_at_epoch forks e
      | None \<Rightarrow> fork_at_epoch forks e)"

definition fork_name_at_epoch :: "fc_spec \<Rightarrow> epoch \<Rightarrow> fork_name" where
  "fork_name_at_epoch spec e = fork_at_epoch
     [(heze_fork_epoch spec, Heze), (gloas_fork_epoch spec, Gloas), (fulu_fork_epoch spec, Fulu),
      (electra_fork_epoch spec, Electra), (deneb_fork_epoch spec, Deneb), (capella_fork_epoch spec, Capella),
      (bellatrix_fork_epoch spec, Bellatrix), (altair_fork_epoch spec, Altair)] e"

definition fork_name_at_slot :: "fc_spec \<Rightarrow> slot \<Rightarrow> fork_name" where
  "fork_name_at_slot spec s = fork_name_at_epoch spec (slot_epoch spec s)"

fun gloas_enabled :: "fork_name \<Rightarrow> bool" where
  "gloas_enabled Gloas = True"
| "gloas_enabled Heze = True"
| "gloas_enabled _ = False"

definition get_attestation_due :: "fc_spec \<Rightarrow> slot \<Rightarrow> nat" where
  "get_attestation_due spec s =
     (if gloas_enabled (fork_name_at_slot spec s) then unaggregated_attestation_due_gloas spec
      else unaggregated_attestation_due spec)"

definition get_payload_attestation_due :: "fc_spec \<Rightarrow> nat" where
  "get_payload_attestation_due spec = payload_attestation_due spec"

definition payload_timely_threshold :: "fc_spec \<Rightarrow> nat" where
  "payload_timely_threshold spec = ptc_size spec div 2"

definition data_availability_timely_threshold :: "fc_spec \<Rightarrow> nat" where
  "data_availability_timely_threshold spec = ptc_size spec div 2"

record justified_balances =
  effective_balances :: "u64 list"
  total_effective_balance :: u64
  num_active_validators :: u64
  slashed_balances :: "(u64 \<times> u64) list"

definition calculate_committee_fraction :: "fc_spec \<Rightarrow> justified_balances \<Rightarrow> u64 \<Rightarrow> u64 option" where
  "calculate_committee_fraction spec balances boost =
     (case checked_div (total_effective_balance balances) (slots_per_epoch spec) of
        None \<Rightarrow> None
      | Some committee_weight \<Rightarrow>
          (case checked_mul committee_weight boost of
             None \<Rightarrow> None
           | Some w \<Rightarrow> checked_div w 100))"

definition get_proposer_score :: "fc_spec \<Rightarrow> justified_balances \<Rightarrow> (u64, proto_error) result" where
  "get_proposer_score spec balances =
     ok_or (ProposerBoostOverflow 0) (calculate_committee_fraction spec balances (proposer_score_boost spec))"

section \<open>Nodes\<close>

text \<open>
  The fields both layouts share, and the two layouts. Since the Gloas fork the payload of a block is
  revealed separately, and a node splits its weight between the block with and without its payload.
\<close>

record proto_node_common =
  pn_slot :: slot
  pn_state_root :: hash256
  pn_target_root :: hash256
  pn_current_epoch_shuffling_id :: attestation_shuffling_id
  pn_next_epoch_shuffling_id :: attestation_shuffling_id
  pn_root :: hash256
  pn_parent :: "nat option"
  pn_justified_checkpoint :: checkpoint
  pn_finalized_checkpoint :: checkpoint
  pn_weight :: u64
  pn_execution_status :: execution_status
  pn_unrealized_justified_checkpoint :: "checkpoint option"
  pn_unrealized_finalized_checkpoint :: "checkpoint option"

record proto_node_v17 = proto_node_common +
  pn_best_child :: "nat option"
  pn_best_descendant :: "nat option"

record proto_node_v29 = proto_node_common +
  pn_parent_payload_status :: parent_payload_status
  pn_empty_payload_weight :: u64
  pn_full_payload_weight :: u64
  pn_execution_payload_block_hash :: execution_block_hash
  pn_execution_payload_parent_hash :: execution_block_hash
  pn_block_timeliness_attestation_threshold :: bool
  pn_block_timeliness_ptc_threshold :: bool
  pn_payload_timeliness_votes :: bitvector
  pn_payload_data_availability_votes :: bitvector
  pn_ptc_participation :: bitvector
  pn_payload_received :: bool
  pn_proposer_index :: u64
  pn_equivocating_attestation_score :: u64

datatype proto_node = V17 proto_node_v17 | V29 proto_node_v29

subsection \<open>Accessors\<close>

fun node_slot :: "proto_node \<Rightarrow> slot" where
  "node_slot (V17 n) = pn_slot n"
| "node_slot (V29 n) = pn_slot n"

fun node_root :: "proto_node \<Rightarrow> hash256" where
  "node_root (V17 n) = pn_root n"
| "node_root (V29 n) = pn_root n"

fun node_parent :: "proto_node \<Rightarrow> nat option" where
  "node_parent (V17 n) = pn_parent n"
| "node_parent (V29 n) = pn_parent n"

fun node_weight :: "proto_node \<Rightarrow> u64" where
  "node_weight (V17 n) = pn_weight n"
| "node_weight (V29 n) = pn_weight n"

fun node_execution_status_of :: "proto_node \<Rightarrow> execution_status" where
  "node_execution_status_of (V17 n) = pn_execution_status n"
| "node_execution_status_of (V29 n) = pn_execution_status n"

fun node_justified_checkpoint :: "proto_node \<Rightarrow> checkpoint" where
  "node_justified_checkpoint (V17 n) = pn_justified_checkpoint n"
| "node_justified_checkpoint (V29 n) = pn_justified_checkpoint n"

fun node_finalized_checkpoint :: "proto_node \<Rightarrow> checkpoint" where
  "node_finalized_checkpoint (V17 n) = pn_finalized_checkpoint n"
| "node_finalized_checkpoint (V29 n) = pn_finalized_checkpoint n"

fun node_unrealized_justified :: "proto_node \<Rightarrow> checkpoint option" where
  "node_unrealized_justified (V17 n) = pn_unrealized_justified_checkpoint n"
| "node_unrealized_justified (V29 n) = pn_unrealized_justified_checkpoint n"

fun node_unrealized_finalized :: "proto_node \<Rightarrow> checkpoint option" where
  "node_unrealized_finalized (V17 n) = pn_unrealized_finalized_checkpoint n"
| "node_unrealized_finalized (V29 n) = pn_unrealized_finalized_checkpoint n"

fun node_payload_received :: "proto_node \<Rightarrow> bool option" where
  "node_payload_received (V17 _) = None"
| "node_payload_received (V29 n) = Some (pn_payload_received n)"

fun node_proposer_index :: "proto_node \<Rightarrow> u64 option" where
  "node_proposer_index (V17 _) = None"
| "node_proposer_index (V29 n) = Some (pn_proposer_index n)"

fun set_execution_status :: "execution_status \<Rightarrow> proto_node \<Rightarrow> proto_node" where
  "set_execution_status s (V17 n) = V17 (n\<lparr>pn_execution_status := s\<rparr>)"
| "set_execution_status s (V29 n) = V29 (n\<lparr>pn_execution_status := s\<rparr>)"

fun set_parent :: "nat option \<Rightarrow> proto_node \<Rightarrow> proto_node" where
  "set_parent p (V17 n) = V17 (n\<lparr>pn_parent := p\<rparr>)"
| "set_parent p (V29 n) = V29 (n\<lparr>pn_parent := p\<rparr>)"

fun set_weight :: "u64 \<Rightarrow> proto_node \<Rightarrow> proto_node" where
  "set_weight w (V17 n) = V17 (n\<lparr>pn_weight := w\<rparr>)"
| "set_weight w (V29 n) = V29 (n\<lparr>pn_weight := w\<rparr>)"

subsection \<open>Methods\<close>

fun is_gloas :: "proto_node \<Rightarrow> bool" where
  "is_gloas (V17 _) = False"
| "is_gloas (V29 _) = True"

fun get_parent_payload_status :: "proto_node \<Rightarrow> parent_payload_status" where
  "get_parent_payload_status (V17 _) = PreGloas"
| "get_parent_payload_status (V29 n) = pn_parent_payload_status n"

definition is_parent_node_full :: "proto_node \<Rightarrow> bool" where
  "is_parent_node_full n = (get_parent_payload_status n = ParentFull)"

definition node_is_invalid :: "proto_node \<Rightarrow> bool" where
  "node_is_invalid n =
     (case node_execution_status_of n of
        Invalid _ \<Rightarrow> True
      | Valid _ \<Rightarrow> False
      | Optimistic _ \<Rightarrow> False
      | Irrelevant _ \<Rightarrow> False
      | NotYetRevealed _ \<Rightarrow> False)"

definition has_full_node :: "proto_node \<Rightarrow> bool" where
  "has_full_node n = (node_payload_received n = Some True \<and> \<not> node_is_invalid n)"

fun attestation_score :: "proto_node \<Rightarrow> payload_status \<Rightarrow> u64" where
  "attestation_score n Pending = node_weight n"
| "attestation_score (V17 n) Empty = pn_weight n"
| "attestation_score (V29 n) Empty = pn_empty_payload_weight n"
| "attestation_score (V17 n) Full = pn_weight n"
| "attestation_score (V29 n) Full = pn_full_payload_weight n"

fun block_hash :: "proto_node \<Rightarrow> payload_block_hash" where
  "block_hash (V17 n) =
     (case pn_execution_status n of
        Valid h \<Rightarrow> Hash h
      | Invalid h \<Rightarrow> Hash h
      | Optimistic h \<Rightarrow> Hash h
      | Irrelevant _ \<Rightarrow> PreMerge
      | NotYetRevealed h \<Rightarrow> Hash h)"
| "block_hash (V29 n) = Hash (pn_execution_payload_block_hash n)"

fun ptc_votes_timeliness :: "fc_spec \<Rightarrow> proto_node \<Rightarrow> bool \<Rightarrow> (bool, proto_error) result" where
  "ptc_votes_timeliness spec (V17 n) timely = Err (InvalidNodeVariant (pn_root n))"
| "ptc_votes_timeliness spec (V29 n) timely =
     (let matching_votes =
        (if timely then num_set_bits spec (pn_payload_timeliness_votes n)
         else num_set_bits spec (pn_ptc_participation n) - num_set_bits spec (pn_payload_timeliness_votes n))
      in Ok (matching_votes > payload_timely_threshold spec))"

fun payload_timeliness :: "fc_spec \<Rightarrow> proto_node \<Rightarrow> bool \<Rightarrow> (bool, proto_error) result" where
  "payload_timeliness spec (V17 n) timely = Err (InvalidNodeVariant (pn_root n))"
| "payload_timeliness spec (V29 n) timely =
     (if \<not> pn_payload_received n then Ok (\<not> timely) else ptc_votes_timeliness spec (V29 n) timely)"

fun ptc_votes_data_availability :: "fc_spec \<Rightarrow> proto_node \<Rightarrow> bool \<Rightarrow> (bool, proto_error) result" where
  "ptc_votes_data_availability spec (V17 n) available = Err (InvalidNodeVariant (pn_root n))"
| "ptc_votes_data_availability spec (V29 n) available =
     (let matching_votes =
        (if available then num_set_bits spec (pn_payload_data_availability_votes n)
         else num_set_bits spec (pn_ptc_participation n) - num_set_bits spec (pn_payload_data_availability_votes n))
      in Ok (matching_votes > data_availability_timely_threshold spec))"

fun payload_data_availability :: "fc_spec \<Rightarrow> proto_node \<Rightarrow> bool \<Rightarrow> (bool, proto_error) result" where
  "payload_data_availability spec (V17 n) available = Err (InvalidNodeVariant (pn_root n))"
| "payload_data_availability spec (V29 n) available =
     (if \<not> pn_payload_received n then Ok (\<not> available) else ptc_votes_data_availability spec (V29 n) available)"

section \<open>Score deltas\<close>

record node_delta =
  nd_delta :: i64
  nd_empty_delta :: i64
  nd_full_delta :: i64
  nd_equivocating_attestation_delta :: u64

definition from_delta :: "i64 \<Rightarrow> node_delta" where
  "from_delta d = \<lparr>nd_delta = d, nd_empty_delta = 0, nd_full_delta = 0, nd_equivocating_attestation_delta = 0\<rparr>"

fun add_payload_delta :: "payload_status \<Rightarrow> u64 \<Rightarrow> nat \<Rightarrow> node_delta \<Rightarrow> (node_delta, proto_error) result" where
  "add_payload_delta Full balance index d =
     bindE (ok_or (DeltaOverflow index) (i64_checked_add (nd_full_delta d) balance))
       (\<lambda>v. Ok (d\<lparr>nd_full_delta := v\<rparr>))"
| "add_payload_delta Empty balance index d =
     bindE (ok_or (DeltaOverflow index) (i64_checked_add (nd_empty_delta d) balance))
       (\<lambda>v. Ok (d\<lparr>nd_empty_delta := v\<rparr>))"
| "add_payload_delta Pending balance index d = Ok d"

fun sub_payload_delta :: "payload_status \<Rightarrow> u64 \<Rightarrow> nat \<Rightarrow> node_delta \<Rightarrow> (node_delta, proto_error) result" where
  "sub_payload_delta Full balance index d =
     bindE (ok_or (DeltaOverflow index) (i64_checked_sub (nd_full_delta d) balance))
       (\<lambda>v. Ok (d\<lparr>nd_full_delta := v\<rparr>))"
| "sub_payload_delta Empty balance index d =
     bindE (ok_or (DeltaOverflow index) (i64_checked_sub (nd_empty_delta d) balance))
       (\<lambda>v. Ok (d\<lparr>nd_empty_delta := v\<rparr>))"
| "sub_payload_delta Pending balance index d = Ok d"

section \<open>Blocks\<close>

record block =
  b_slot :: slot
  b_root :: hash256
  b_parent_root :: "hash256 option"
  b_state_root :: hash256
  b_target_root :: hash256
  b_current_epoch_shuffling_id :: attestation_shuffling_id
  b_next_epoch_shuffling_id :: attestation_shuffling_id
  b_justified_checkpoint :: checkpoint
  b_finalized_checkpoint :: checkpoint
  b_execution_status :: execution_status
  b_unrealized_justified_checkpoint :: "checkpoint option"
  b_unrealized_finalized_checkpoint :: "checkpoint option"
  b_execution_payload_parent_hash :: "execution_block_hash option"
  b_execution_payload_block_hash :: "execution_block_hash option"
  b_proposer_index :: "u64 option"
  b_payload_received :: bool

definition block_block_hash :: "block \<Rightarrow> payload_block_hash" where
  "block_block_hash b =
     (case b_execution_payload_block_hash b of
        Some h \<Rightarrow> Hash h
      | None \<Rightarrow>
          (case b_execution_status b of
             Valid h \<Rightarrow> Hash h
           | Invalid h \<Rightarrow> Hash h
           | Optimistic h \<Rightarrow> Hash h
           | Irrelevant _ \<Rightarrow> PreMerge
           | NotYetRevealed h \<Rightarrow> Hash h))"

definition head_payload_block_hash :: "block \<Rightarrow> payload_status \<Rightarrow> payload_block_hash" where
  "head_payload_block_hash b status =
     (case (b_execution_payload_block_hash b, b_execution_payload_parent_hash b) of
        (Some bh, Some ph) \<Rightarrow>
          Hash (case status of Full \<Rightarrow> bh | Pending \<Rightarrow> ph | Empty \<Rightarrow> ph)
      | _ \<Rightarrow> block_block_hash b)"

definition checkpoint_payload_block_hash :: "block \<Rightarrow> payload_block_hash" where
  "checkpoint_payload_block_hash b =
     (case b_execution_payload_parent_hash b of
        Some ph \<Rightarrow> Hash ph
      | None \<Rightarrow> block_block_hash b)"

fun fulu_enabled :: "fork_name \<Rightarrow> bool" where
  "fulu_enabled Fulu = True"
| "fulu_enabled Gloas = True"
| "fulu_enabled Heze = True"
| "fulu_enabled _ = False"

definition proposer_shuffling_root_for_child_block :: "fc_spec \<Rightarrow> block \<Rightarrow> epoch \<Rightarrow> hash256" where
  "proposer_shuffling_root_for_child_block spec b child_block_epoch =
     (let block_epoch = shuffling_epoch (b_current_epoch_shuffling_id b) in
      if \<not> fulu_enabled (fork_name_at_epoch spec (saturating_sub child_block_epoch 1))
      then if block_epoch = child_block_epoch
           then shuffling_decision_block (b_next_epoch_shuffling_id b)
           else b_root b
      else if child_block_epoch = block_epoch
           then shuffling_decision_block (b_current_epoch_shuffling_id b)
           else if child_block_epoch = saturating_add block_epoch 1
           then shuffling_decision_block (b_next_epoch_shuffling_id b)
           else b_root b)"

end
