(* ===== verification/Proto_Array.thy ===== *)
theory Proto_Array
  imports Proto_Node "HOL-Library.AList"
begin

text \<open>
  The operations of \<open>ProtoArray\<close> (\<open>consensus/proto_array/src/proto_array.rs\<close>) that change the tree:
  registering blocks, applying score changes, recording the verdicts of the execution layer, pruning;
  and the queries on ancestry they use. A hash map is an association list with distinct keys. An
  operation returns its result together with the array it leaves behind, also when it fails. Loops
  along parent links carry fuel, one more than the number of nodes.
\<close>

record proto_array =
  prune_threshold :: nat
  nodes :: "proto_node list"
  indices :: "(hash256 \<times> nat) list"
  children :: "nat list list"

section \<open>Ancestry\<close>

text \<open>\<open>Iter\<close>: the nodes from an index upwards.\<close>

fun chain :: "nat \<Rightarrow> proto_array \<Rightarrow> nat option \<Rightarrow> proto_node list" where
  "chain 0 pa next_node_index = []"
| "chain (Suc fuel) pa next_node_index =
     (case next_node_index of
        None \<Rightarrow> []
      | Some i \<Rightarrow>
          (case vec_get (nodes pa) i of
             None \<Rightarrow> []
           | Some node \<Rightarrow> node # chain fuel pa (node_parent node)))"

definition iter_nodes :: "proto_array \<Rightarrow> hash256 \<Rightarrow> proto_node list" where
  "iter_nodes pa block_root = chain (length (nodes pa)) pa (map_of (indices pa) block_root)"

definition iter_block_roots :: "proto_array \<Rightarrow> hash256 \<Rightarrow> (hash256 \<times> slot) list" where
  "iter_block_roots pa block_root = map (\<lambda>n. (node_root n, node_slot n)) (iter_nodes pa block_root)"

definition get_block :: "proto_array \<Rightarrow> hash256 \<Rightarrow> proto_node option" where
  "get_block pa root =
     (case map_of (indices pa) root of None \<Rightarrow> None | Some i \<Rightarrow> vec_get (nodes pa) i)"

definition get_parent :: "proto_array \<Rightarrow> proto_node \<Rightarrow> proto_node option" where
  "get_parent pa node = (case node_parent node of None \<Rightarrow> None | Some i \<Rightarrow> vec_get (nodes pa) i)"

definition is_descendant :: "proto_array \<Rightarrow> hash256 \<Rightarrow> hash256 \<Rightarrow> bool" where
  "is_descendant pa ancestor_root descendant_root =
     (case map_of (indices pa) ancestor_root of
        None \<Rightarrow> False
      | Some i \<Rightarrow>
          (case vec_get (nodes pa) i of
             None \<Rightarrow> False
           | Some ancestor \<Rightarrow>
               (case find (\<lambda>(_, s). s = node_slot ancestor)
                       (takeWhile (\<lambda>(_, s). s \<ge> node_slot ancestor) (iter_block_roots pa descendant_root)) of
                  None \<Rightarrow> False
                | Some (root, _) \<Rightarrow> root = ancestor_root)))"

fun common_walk :: "proto_node list \<Rightarrow> proto_node list \<Rightarrow> slot option" where
  "common_walk (n # ns) (m # ms) =
     (if node_root n = node_root m then Some (node_slot n)
      else if node_slot n \<ge> node_slot m then common_walk ns (m # ms)
      else common_walk (n # ns) ms)"
| "common_walk [] ms = None"
| "common_walk ns [] = None"

definition common_ancestor_slot :: "proto_array \<Rightarrow> hash256 \<Rightarrow> hash256 \<Rightarrow> slot option" where
  "common_ancestor_slot pa block_root other_root = common_walk (iter_nodes pa block_root) (iter_nodes pa other_root)"

fun finalized_walk :: "slot \<Rightarrow> hash256 \<Rightarrow> proto_node list \<Rightarrow> bool" where
  "finalized_walk finalized_slot finalized_root [] = False"
| "finalized_walk finalized_slot finalized_root (node # ns) =
     (if node_slot node \<le> finalized_slot then node_root node = finalized_root
      else finalized_walk finalized_slot finalized_root ns)"

definition is_finalized_checkpoint_or_descendant :: "fc_spec \<Rightarrow> proto_array \<Rightarrow> hash256 \<Rightarrow> checkpoint \<Rightarrow> bool" where
  "is_finalized_checkpoint_or_descendant spec pa root best_finalized =
     (case get_block pa root of
        None \<Rightarrow> False
      | Some node \<Rightarrow>
          if node_finalized_checkpoint node = best_finalized \<or> node_justified_checkpoint node = best_finalized then True
          else if node_unrealized_finalized node = Some best_finalized \<or>
                  node_unrealized_justified node = Some best_finalized then True
          else finalized_walk (start_slot spec (cp_epoch best_finalized)) (cp_root best_finalized)
                 (iter_nodes pa root))"

definition commits_to :: "execution_block_hash \<Rightarrow> proto_node \<Rightarrow> bool" where
  "commits_to h node = (case block_hash node of Hash node_hash \<Rightarrow> node_hash = h | PreMerge \<Rightarrow> False)"

definition execution_block_hash_to_node_indices :: "proto_array \<Rightarrow> execution_block_hash \<Rightarrow> nat list" where
  "execution_block_hash_to_node_indices pa h =
     map fst (filter (\<lambda>(_, node). commits_to h node) (enumerate 0 (nodes pa)))"

definition is_payload_invalid :: "proto_array \<Rightarrow> execution_block_hash \<Rightarrow> bool" where
  "is_payload_invalid pa h =
     list_ex node_is_invalid
       (List.map_filter (vec_get (nodes pa)) (execution_block_hash_to_node_indices pa h))"

definition execution_block_hash_to_beacon_block_root :: "proto_array \<Rightarrow> execution_block_hash \<Rightarrow> hash256 option" where
  "execution_block_hash_to_beacon_block_root pa h = map_option node_root (find (commits_to h) (rev (nodes pa)))"

definition heads_descended_from_finalization :: "fc_spec \<Rightarrow> proto_array \<Rightarrow> checkpoint \<Rightarrow> proto_node list" where
  "heads_descended_from_finalization spec pa best_finalized =
     map snd (filter (\<lambda>(i, node).
         length (filter (\<lambda>n. node_parent n = Some i) (nodes pa)) = 0 \<and>
         is_finalized_checkpoint_or_descendant spec pa (node_root node) best_finalized)
       (enumerate 0 (nodes pa)))"

section \<open>Score changes\<close>

definition apply_v17 ::
  "proto_node_v17 \<Rightarrow> node_delta \<Rightarrow> nat \<Rightarrow> bool \<Rightarrow> (i64, proto_error) result \<times> proto_node_v17" where
  "apply_v17 node d index invalid =
     (if invalid
      then let removed = pn_weight node
           in (ok_or (InvalidExecutionDeltaOverflow index) (i64_checked_sub 0 removed), node\<lparr>pn_weight := 0\<rparr>)
      else case apply_delta (pn_weight node) (nd_delta d) index of
             Inl e \<Rightarrow> (Err e, node)
           | Inr w \<Rightarrow> (Ok (nd_delta d), node\<lparr>pn_weight := w\<rparr>))"

text \<open>The two branches of a Gloas node, once its equivocation score and empty side are updated.\<close>

definition apply_v29_invalid ::
  "proto_node_v29 \<Rightarrow> node_delta \<Rightarrow> nat \<Rightarrow> (i64, proto_error) result \<times> proto_node_v29" where
  "apply_v29_invalid node d index =
     (let full_removed = pn_full_payload_weight node;
          node = node\<lparr>pn_full_payload_weight := 0\<rparr>
      in case i64_checked_sub (nd_delta d) (nd_full_delta d) of
           None \<Rightarrow> (Err (InvalidExecutionDeltaOverflow index), node)
         | Some viable_delta \<Rightarrow>
             (case apply_delta (pn_weight node) viable_delta index of
                Inl e \<Rightarrow> (Err e, node)
              | Inr w \<Rightarrow>
                  (ok_or (InvalidExecutionDeltaOverflow index) (i64_checked_sub viable_delta full_removed),
                   node\<lparr>pn_weight := saturating_sub w full_removed\<rparr>)))"

definition apply_v29_viable ::
  "proto_node_v29 \<Rightarrow> node_delta \<Rightarrow> nat \<Rightarrow> (i64, proto_error) result \<times> proto_node_v29" where
  "apply_v29_viable node d index =
     (case apply_delta (pn_weight node) (nd_delta d) index of
        Inl e \<Rightarrow> (Err e, node)
      | Inr w \<Rightarrow>
          (let node = node\<lparr>pn_weight := w\<rparr>
           in case apply_delta (pn_full_payload_weight node) (nd_full_delta d) index of
                Inl e \<Rightarrow> (Err e, node)
              | Inr fw \<Rightarrow> (Ok (nd_delta d), node\<lparr>pn_full_payload_weight := fw\<rparr>)))"

definition apply_v29 ::
  "proto_node_v29 \<Rightarrow> node_delta \<Rightarrow> nat \<Rightarrow> bool \<Rightarrow> (i64, proto_error) result \<times> proto_node_v29" where
  "apply_v29 node d index invalid =
     (let node = node\<lparr>pn_equivocating_attestation_score :=
            saturating_add (pn_equivocating_attestation_score node) (nd_equivocating_attestation_delta d)\<rparr>
      in case apply_delta (pn_empty_payload_weight node) (nd_empty_delta d) index of
           Inl e \<Rightarrow> (Err e, node)
         | Inr ew \<Rightarrow>
             (let node = node\<lparr>pn_empty_payload_weight := ew\<rparr>
              in if invalid then apply_v29_invalid node d index else apply_v29_viable node d index))"

fun apply_node_delta ::
  "proto_node \<Rightarrow> node_delta \<Rightarrow> nat \<Rightarrow> (i64, proto_error) result \<times> proto_node" where
  "apply_node_delta (V17 node) d index =
     (let (r, node') = apply_v17 node d index (status_is_invalid (pn_execution_status node)) in (r, V17 node'))"
| "apply_node_delta (V29 node) d index =
     (let (r, node') = apply_v29 node d index (status_is_invalid (pn_execution_status node)) in (r, V29 node'))"

definition backprop :: "proto_node \<Rightarrow> i64 \<Rightarrow> nat \<Rightarrow> node_delta \<Rightarrow> (node_delta, proto_error) result" where
  "backprop node backprop_delta parent_index parent_delta =
     bindE (ok_or (DeltaOverflow parent_index) (i64_checked_add (nd_delta parent_delta) backprop_delta)) (\<lambda>dv.
       let parent_delta = parent_delta\<lparr>nd_delta := dv\<rparr> in
       case node of
         V17 _ \<Rightarrow> Ok parent_delta
       | V29 child \<Rightarrow>
           (case pn_parent_payload_status child of
              ParentFull \<Rightarrow>
                bindE (ok_or (DeltaOverflow parent_index) (i64_checked_add (nd_full_delta parent_delta) backprop_delta))
                  (\<lambda>v. Ok (parent_delta\<lparr>nd_full_delta := v\<rparr>))
            | ParentEmpty \<Rightarrow>
                bindE (ok_or (DeltaOverflow parent_index) (i64_checked_add (nd_empty_delta parent_delta) backprop_delta))
                  (\<lambda>v. Ok (parent_delta\<lparr>nd_empty_delta := v\<rparr>))
            | PreGloas \<Rightarrow> Ok parent_delta))"

definition score_step :: "nat \<Rightarrow> (proto_array \<times> node_delta list, unit, proto_error) op" where
  "score_step node_index = (\<lambda>(pa, deltas).
     case vec_get (nodes pa) node_index of
       None \<Rightarrow> (Err (InvalidNodeIndex node_index), (pa, deltas))
     | Some node \<Rightarrow>
         if node_root node = 0 then (Ok (), (pa, deltas))
         else (case vec_get deltas node_index of
           None \<Rightarrow> (Err (InvalidNodeDelta node_index), (pa, deltas))
         | Some d \<Rightarrow>
             (let (r, node') = apply_node_delta node d node_index;
                  pa = pa\<lparr>nodes := (nodes pa)[node_index := node']\<rparr>
              in case r of
                   Inl e \<Rightarrow> (Err e, (pa, deltas))
                 | Inr backprop_delta \<Rightarrow>
                     (case node_parent node' of
                        None \<Rightarrow> (Ok (), (pa, deltas))
                      | Some parent_index \<Rightarrow>
                          (case vec_get deltas parent_index of
                             None \<Rightarrow> (Err (InvalidParentDelta parent_index), (pa, deltas))
                           | Some parent_delta \<Rightarrow>
                               (case backprop node' backprop_delta parent_index parent_delta of
                                  Inl e \<Rightarrow> (Err e, (pa, deltas))
                                | Inr parent_delta' \<Rightarrow>
                                    (Ok (), (pa, deltas[parent_index := parent_delta']))))))))"

definition apply_score_changes :: "node_delta list \<Rightarrow> (proto_array, unit, proto_error) op" where
  "apply_score_changes deltas pa =
     (if length deltas \<noteq> length (indices pa)
      then (Err (InvalidDeltaLen (length deltas) (length (indices pa))), pa)
      else let (r, (pa', _)) = op_for_each score_step (rev [0..<length (nodes pa)]) (pa, deltas) in (r, pa'))"

section \<open>Verdicts of the execution layer\<close>

definition set_status_at :: "nat \<Rightarrow> execution_status \<Rightarrow> proto_array \<Rightarrow> proto_array" where
  "set_status_at i s pa = pa\<lparr>nodes := (nodes pa)[i := set_execution_status s (nodes pa ! i)]\<rparr>"

text \<open>Only on these edges is the payload of the parent executed by the branch.\<close>

fun edge_executed :: "parent_payload_status \<Rightarrow> bool" where
  "edge_executed ParentFull = True"
| "edge_executed PreGloas = True"
| "edge_executed ParentEmpty = False"

fun validation_walk :: "nat \<Rightarrow> nat \<Rightarrow> parent_payload_status \<Rightarrow> (proto_array, unit, proto_error) op" where
  "validation_walk 0 index status pa = (Err NoReturn, pa)"
| "validation_walk (Suc fuel) index status pa =
     (case vec_get (nodes pa) index of
        None \<Rightarrow> (Err (InvalidNodeIndex index), pa)
      | Some node \<Rightarrow>
          (let continue = (\<lambda>pa. case node_parent node of
                 None \<Rightarrow> (Ok (), pa)
               | Some parent_index \<Rightarrow> validation_walk fuel parent_index (get_parent_payload_status node) pa)
           in if edge_executed status
              then case node_execution_status_of node of
                     Valid _ \<Rightarrow> (Ok (), pa)
                   | Irrelevant _ \<Rightarrow> (Ok (), pa)
                   | Optimistic h \<Rightarrow> continue (set_status_at index (Valid h) pa)
                   | NotYetRevealed h \<Rightarrow> continue (set_status_at index (Valid h) pa)
                   | Invalid h \<Rightarrow> (Err (InvalidAncestorOfValidPayload (node_root node) h), pa)
              else continue pa))"

definition propagate_execution_payload_validation_from ::
  "nat \<Rightarrow> parent_payload_status \<Rightarrow> (proto_array, unit, proto_error) op" where
  "propagate_execution_payload_validation_from start_index start_status pa =
     validation_walk (Suc (length (nodes pa))) start_index start_status pa"

definition validation_step :: "nat \<Rightarrow> (proto_array, unit, proto_error) op" where
  "validation_step index pa =
     (case vec_get (nodes pa) index of
        None \<Rightarrow> (Err (InvalidNodeIndex index), pa)
      | Some node \<Rightarrow>
          propagate_execution_payload_validation_from index
            (case node of V17 _ \<Rightarrow> PreGloas | V29 _ \<Rightarrow> ParentFull) pa)"

definition propagate_execution_payload_validation ::
  "execution_block_hash \<Rightarrow> (proto_array, unit, proto_error) op" where
  "propagate_execution_payload_validation h pa =
     op_for_each validation_step (execution_block_hash_to_node_indices pa h) pa"

definition on_payload_envelope_received ::
  "hash256 \<Rightarrow> execution_status \<Rightarrow> (proto_array, unit, proto_error) op" where
  "on_payload_envelope_received block_root status pa =
     (case map_of (indices pa) block_root of
        None \<Rightarrow> (Err (NodeUnknown block_root), pa)
      | Some index \<Rightarrow>
          (case vec_get (nodes pa) index of
             None \<Rightarrow> (Err (InvalidNodeIndex index), pa)
           | Some (V17 _) \<Rightarrow> (Err (InvalidNodeVariant block_root), pa)
           | Some (V29 v29) \<Rightarrow>
               (let pa = pa\<lparr>nodes := (nodes pa)[index := V29 (v29\<lparr>pn_payload_received := True\<rparr>)]\<rparr>;
                    record_verdict =
                      (case status of
                         Optimistic _ \<Rightarrow> (Ok (), set_status_at index status pa)
                       | Valid _ \<Rightarrow> propagate_execution_payload_validation_from index ParentFull pa
                       | Invalid _ \<Rightarrow> (Err (UnexpectedVerdict status), pa)
                       | Irrelevant _ \<Rightarrow> (Err (UnexpectedVerdict status), pa)
                       | NotYetRevealed _ \<Rightarrow> (Err (UnexpectedVerdict status), pa))
                in case pn_execution_status v29 of
                     NotYetRevealed _ \<Rightarrow> record_verdict
                   | Optimistic _ \<Rightarrow> record_verdict
                   | Valid _ \<Rightarrow> (Ok (), pa)
                   | Invalid _ \<Rightarrow> (Ok (), pa)
                   | Irrelevant _ \<Rightarrow> (Err (UnexpectedStatus block_root), pa))))"

subsection \<open>Invalidation\<close>

datatype invalidation_operation =
    InvalidateOne execution_block_hash
  | InvalidateMany execution_block_hash bool execution_block_hash

fun head_hash :: "invalidation_operation \<Rightarrow> execution_block_hash" where
  "head_hash (InvalidateOne h) = h"
| "head_hash (InvalidateMany h _ _) = h"

fun latest_valid_ancestor :: "invalidation_operation \<Rightarrow> execution_block_hash option" where
  "latest_valid_ancestor (InvalidateOne _) = None"
| "latest_valid_ancestor (InvalidateMany _ _ h) = Some h"

fun invalidate_head :: "invalidation_operation \<Rightarrow> bool" where
  "invalidate_head (InvalidateOne _) = True"
| "invalidate_head (InvalidateMany _ always _) = always"

fun executed_path :: "nat \<Rightarrow> proto_array \<Rightarrow> nat \<Rightarrow> nat \<Rightarrow> bool \<Rightarrow> ((nat \<times> bool) list, proto_error) result" where
  "executed_path 0 pa latest_valid_index index payload_executed = Err NoReturn"
| "executed_path (Suc fuel) pa latest_valid_index index payload_executed =
     (if index = latest_valid_index then Ok []
      else case vec_get (nodes pa) index of
             None \<Rightarrow> Err (InvalidNodeIndex index)
           | Some node \<Rightarrow>
               (case node_parent node of
                  None \<Rightarrow> Ok [(index, payload_executed)]
                | Some parent_index \<Rightarrow>
                    bindE (executed_path fuel pa latest_valid_index parent_index
                             (edge_executed (get_parent_payload_status node)))
                      (\<lambda>path. Ok ((index, payload_executed) # path))))"

definition find_deepest_executed_node :: "proto_array \<Rightarrow> nat \<Rightarrow> nat \<Rightarrow> (nat option, proto_error) result" where
  "find_deepest_executed_node pa head_index latest_valid_index =
     bindE (executed_path (Suc (length (nodes pa))) pa latest_valid_index head_index True) (\<lambda>path.
       Ok (map_option fst (find snd (rev path))))"

definition find_deepest_node_to_invalidate ::
  "fc_spec \<Rightarrow> proto_array \<Rightarrow> nat \<Rightarrow> invalidation_operation \<Rightarrow> checkpoint \<Rightarrow> (nat option, proto_error) result" where
  "find_deepest_node_to_invalidate spec pa head_index operation best_finalized =
     bindE (ok_or (InvalidNodeIndex head_index) (vec_get (nodes pa) head_index)) (\<lambda>head.
       let latest_valid_ancestor_root =
         (case latest_valid_ancestor operation of
            None \<Rightarrow> None
          | Some h \<Rightarrow>
              (case execution_block_hash_to_beacon_block_root pa h of
                 None \<Rightarrow> None
               | Some root \<Rightarrow>
                   if is_descendant pa root (node_root head) \<and>
                      is_finalized_checkpoint_or_descendant spec pa root best_finalized
                   then Some root else None))
       in case latest_valid_ancestor_root of
            Some root \<Rightarrow>
              bindE (ok_or (NodeUnknown root) (map_of (indices pa) root)) (\<lambda>latest_valid_index.
                find_deepest_executed_node pa head_index latest_valid_index)
          | None \<Rightarrow> if invalidate_head operation then Ok (Some head_index) else Ok None)"

text \<open>The children a popped node puts on the stack, the last one on top.\<close>

definition children_to_invalidate ::
  "proto_array \<Rightarrow> nat \<Rightarrow> nat \<Rightarrow> (nat list, proto_error) result" where
  "children_to_invalidate pa deepest_executed_index index =
     bindE (ok_or (InvalidNodeIndex index) (vec_get (children pa) index)) (\<lambda>child_indices.
       bindE (collect_results (\<lambda>c.
           bindE (ok_or (InvalidNodeIndex c) (vec_get (nodes pa) c)) (\<lambda>child.
             Ok (if index = deepest_executed_index \<and> get_parent_payload_status child = ParentEmpty
                 then None else Some c))) child_indices)
         (\<lambda>cs. Ok (rev (List.map_filter id cs))))"

fun invalidate_loop :: "nat \<Rightarrow> nat \<Rightarrow> nat list \<Rightarrow> (proto_array, unit, proto_error) op" where
  "invalidate_loop fuel deepest [] pa = (Ok (), pa)"
| "invalidate_loop 0 deepest (index # stack) pa = (Err NoReturn, pa)"
| "invalidate_loop (Suc fuel) deepest (index # stack) pa =
     (case vec_get (nodes pa) index of
        None \<Rightarrow> (Err (InvalidNodeIndex index), pa)
      | Some node \<Rightarrow>
          (let condemn = (\<lambda>h.
             let pa = set_status_at index (Invalid h) pa
             in case children_to_invalidate pa deepest index of
                  Inl e \<Rightarrow> (Err e, pa)
                | Inr cs \<Rightarrow> invalidate_loop fuel deepest (cs @ stack) pa)
           in case node_execution_status_of node of
                Valid h \<Rightarrow> (Err (ValidExecutionStatusBecameInvalid (node_root node) h), pa)
              | Optimistic h \<Rightarrow> condemn h
              | Invalid h \<Rightarrow> condemn h
              | NotYetRevealed h \<Rightarrow> condemn h
              | Irrelevant _ \<Rightarrow> (Err (IrrelevantDescendant (node_root node)), pa)))"

definition invalidate_node_and_descendants :: "nat \<Rightarrow> (proto_array, unit, proto_error) op" where
  "invalidate_node_and_descendants deepest_executed_index pa =
     invalidate_loop (Suc (length (nodes pa))) deepest_executed_index [deepest_executed_index] pa"

definition invalidation_step ::
  "fc_spec \<Rightarrow> invalidation_operation \<Rightarrow> checkpoint \<Rightarrow> nat \<Rightarrow> (proto_array, unit, proto_error) op" where
  "invalidation_step spec operation best_finalized head_index =
     op_bind (op_read (\<lambda>pa. find_deepest_node_to_invalidate spec pa head_index operation best_finalized))
       (\<lambda>deepest. case deepest of
          None \<Rightarrow> op_return ()
        | Some i \<Rightarrow> invalidate_node_and_descendants i)"

definition propagate_execution_payload_invalidation ::
  "fc_spec \<Rightarrow> invalidation_operation \<Rightarrow> checkpoint \<Rightarrow> (proto_array, unit, proto_error) op" where
  "propagate_execution_payload_invalidation spec operation best_finalized pa =
     (let head_indices = execution_block_hash_to_node_indices pa (head_hash operation)
      in if head_indices = [] \<and> invalidate_head operation
         then (Err (PayloadHashUnknown (head_hash operation)), pa)
         else op_for_each (invalidation_step spec operation best_finalized) head_indices pa)"

section \<open>Registering a block\<close>

definition parent_status_of_block ::
  "proto_array \<Rightarrow> nat option \<Rightarrow> execution_block_hash \<Rightarrow> parent_payload_status" where
  "parent_status_of_block pa parent_index execution_payload_parent_hash =
     (case (case parent_index of None \<Rightarrow> None | Some i \<Rightarrow> vec_get (nodes pa) i) of
        Some (V29 v29) \<Rightarrow>
          if execution_payload_parent_hash = pn_execution_payload_block_hash v29 then ParentFull else ParentEmpty
      | Some (V17 _) \<Rightarrow> PreGloas
      | None \<Rightarrow> ParentEmpty)"

definition node_of_block ::
  "fc_spec \<Rightarrow> proto_array \<Rightarrow> block \<Rightarrow> u64 \<Rightarrow> nat option \<Rightarrow> slot \<Rightarrow> nat \<Rightarrow> (proto_node, proto_error) result" where
  "node_of_block spec pa b proposer parent_index current_slot time_into_slot =
     (if \<not> gloas_enabled (fork_name_at_slot spec (b_slot b))
      then Ok (V17 \<lparr>pn_slot = b_slot b, pn_state_root = b_state_root b, pn_target_root = b_target_root b,
        pn_current_epoch_shuffling_id = b_current_epoch_shuffling_id b,
        pn_next_epoch_shuffling_id = b_next_epoch_shuffling_id b,
        pn_root = b_root b, pn_parent = parent_index,
        pn_justified_checkpoint = b_justified_checkpoint b, pn_finalized_checkpoint = b_finalized_checkpoint b,
        pn_weight = 0, pn_execution_status = b_execution_status b,
        pn_unrealized_justified_checkpoint = b_unrealized_justified_checkpoint b,
        pn_unrealized_finalized_checkpoint = b_unrealized_finalized_checkpoint b,
        pn_best_child = None, pn_best_descendant = None\<rparr>)
      else let is_current_slot = (current_slot = b_slot b) in
        bindE (ok_or (BrokenBlock (b_root b)) (b_execution_payload_block_hash b)) (\<lambda>payload_block_hash.
        bindE (ok_or (BrokenBlock (b_root b)) (b_execution_payload_parent_hash b)) (\<lambda>payload_parent_hash.
        let parent_status = parent_status_of_block pa parent_index payload_parent_hash;
            is_anchor = (parent_index = None)
        in Ok (V29 \<lparr>pn_slot = b_slot b, pn_state_root = b_state_root b, pn_target_root = b_target_root b,
          pn_current_epoch_shuffling_id = b_current_epoch_shuffling_id b,
          pn_next_epoch_shuffling_id = b_next_epoch_shuffling_id b,
          pn_root = b_root b, pn_parent = parent_index,
          pn_justified_checkpoint = b_justified_checkpoint b, pn_finalized_checkpoint = b_finalized_checkpoint b,
          pn_weight = 0, pn_execution_status = NotYetRevealed payload_block_hash,
          pn_unrealized_justified_checkpoint = b_unrealized_justified_checkpoint b,
          pn_unrealized_finalized_checkpoint = b_unrealized_finalized_checkpoint b,
          pn_parent_payload_status = parent_status,
          pn_empty_payload_weight = 0, pn_full_payload_weight = 0,
          pn_execution_payload_block_hash = payload_block_hash,
          pn_execution_payload_parent_hash = payload_parent_hash,
          pn_block_timeliness_attestation_threshold =
            (is_anchor \<or> (is_current_slot \<and> time_into_slot < get_attestation_due spec current_slot)),
          pn_block_timeliness_ptc_threshold =
            (is_anchor \<or> (is_current_slot \<and> time_into_slot < get_payload_attestation_due spec)),
          pn_payload_timeliness_votes = 0, pn_payload_data_availability_votes = 0, pn_ptc_participation = 0,
          pn_payload_received = False, pn_proposer_index = proposer, pn_equivocating_attestation_score = 0\<rparr>))))"

text \<open>The check that the block does not build on an invalid payload.\<close>

definition check_parent_payload :: "proto_array \<Rightarrow> block \<Rightarrow> proto_node \<Rightarrow> (unit, proto_error) result" where
  "check_parent_payload pa b node =
     (case node_parent node of
        None \<Rightarrow> Ok ()
      | Some parent_index \<Rightarrow>
          bindE (ok_or (InvalidNodeIndex parent_index) (vec_get (nodes pa) parent_index)) (\<lambda>parent.
            if (case parent of V17 v17 \<Rightarrow> status_is_invalid (pn_execution_status v17) | V29 _ \<Rightarrow> False)
            then Err (ParentExecutionStatusIsInvalid (b_root b) (node_root parent))
            else if (case node of V29 v29 \<Rightarrow> is_payload_invalid pa (pn_execution_payload_parent_hash v29)
                     | V17 _ \<Rightarrow> False)
            then Err (ParentExecutionStatusIsInvalid (b_root b) (node_root parent))
            else Ok ()))"

definition push_child :: "nat \<Rightarrow> nat \<Rightarrow> (proto_array, unit, proto_error) op" where
  "push_child parent_index node_index pa =
     (if parent_index < length (children pa)
      then (Ok (), pa\<lparr>children := (children pa)[parent_index := children pa ! parent_index @ [node_index]]\<rparr>)
      else (Err (InvalidNodeIndex parent_index), pa))"

definition on_block :: "fc_spec \<Rightarrow> block \<Rightarrow> slot \<Rightarrow> nat \<Rightarrow> (proto_array, unit, proto_error) op" where
  "on_block spec b current_slot time_into_slot pa =
     (if map_of (indices pa) (b_root b) \<noteq> None then (Ok (), pa)
      else case b_proposer_index b of
        None \<Rightarrow> (Err OnBlockRequiresProposerIndex, pa)
      | Some proposer \<Rightarrow>
          (let node_index = length (nodes pa);
               parent_index = (case b_parent_root b of None \<Rightarrow> None | Some parent \<Rightarrow> map_of (indices pa) parent)
           in case node_of_block spec pa b proposer parent_index current_slot time_into_slot of
                Inl e \<Rightarrow> (Err e, pa)
              | Inr node \<Rightarrow>
                  (case check_parent_payload pa b node of
                     Inl e \<Rightarrow> (Err e, pa)
                   | Inr _ \<Rightarrow>
                       (let pa = pa\<lparr>indices := AList.update (node_root node) node_index (indices pa),
                                    nodes := nodes pa @ [node],
                                    children := children pa @ [[]]\<rparr>
                        in op_bind (case node_parent node of
                                      None \<Rightarrow> op_return ()
                                    | Some parent_index \<Rightarrow> push_child parent_index node_index)
                             (\<lambda>_. case (node_parent node, b_execution_status b) of
                                    (Some parent_index, Valid _) \<Rightarrow>
                                      propagate_execution_payload_validation_from parent_index
                                        (get_parent_payload_status node)
                                  | _ \<Rightarrow> op_return ()) pa))))"

section \<open>The children index and pruning\<close>

fun children_of :: "nat \<Rightarrow> proto_node list \<Rightarrow> nat list list \<Rightarrow> (nat list list, proto_error) result" where
  "children_of i [] cs = Ok cs"
| "children_of i (node # ns) cs =
     (case node_parent node of
        None \<Rightarrow> children_of (Suc i) ns cs
      | Some parent_index \<Rightarrow>
          if parent_index < length cs
          then children_of (Suc i) ns (cs[parent_index := cs ! parent_index @ [i]])
          else Err (InvalidNodeIndex parent_index))"

definition rebuild_children_index :: "(proto_array, unit, proto_error) op" where
  "rebuild_children_index pa =
     (case children_of 0 (nodes pa) (replicate (length (nodes pa)) []) of
        Inl e \<Rightarrow> (Err e, pa)
      | Inr cs \<Rightarrow> (Ok (), pa\<lparr>children := cs\<rparr>))"

text \<open>
  Shifting indices down in place: whether every index could be shifted, and the list as it is left
  behind.
\<close>

fun shift_all :: "nat \<Rightarrow> nat list \<Rightarrow> bool \<times> nat list" where
  "shift_all n [] = (True, [])"
| "shift_all n (i # is) =
     (if i < n then (False, i # is) else let (ok, js) = shift_all n is in (ok, (i - n) # js))"

fun shift_children :: "nat \<Rightarrow> nat list list \<Rightarrow> bool \<times> nat list list" where
  "shift_children n [] = (True, [])"
| "shift_children n (c # cs) =
     (let (ok, c') = shift_all n c
      in if ok then (let (ok', cs') = shift_children n cs in (ok', c' # cs')) else (False, c' # cs))"

definition shift_values :: "nat \<Rightarrow> (hash256 \<times> nat) list \<Rightarrow> bool \<times> (hash256 \<times> nat) list" where
  "shift_values n m = (let (ok, vs) = shift_all n (map snd m) in (ok, zip (map fst m) vs))"

definition remove_index :: "nat \<Rightarrow> (proto_array, unit, proto_error) op" where
  "remove_index node_index pa =
     (case vec_get (nodes pa) node_index of
        None \<Rightarrow> (Err (InvalidNodeIndex node_index), pa)
      | Some node \<Rightarrow> (Ok (), pa\<lparr>indices := AList.delete (node_root node) (indices pa)\<rparr>))"

definition shift_parent :: "nat \<Rightarrow> proto_node \<Rightarrow> proto_node" where
  "shift_parent n node =
     (case node_parent node of
        None \<Rightarrow> node
      | Some parent \<Rightarrow> set_parent (if n \<le> parent then Some (parent - n) else None) node)"

text \<open>\<open>split_off\<close> panics when the vector is shorter than the index.\<close>

definition drop_finalized :: "nat \<Rightarrow> (proto_array, unit, proto_error) op" where
  "drop_finalized n pa =
     (if length (nodes pa) < n then (Err NoReturn, pa)
      else let pa = pa\<lparr>nodes := drop n (nodes pa)\<rparr>
      in if length (children pa) < n then (Err NoReturn, pa)
      else let (ok, cs) = shift_children n (drop n (children pa)); pa = pa\<lparr>children := cs\<rparr>
      in if \<not> ok then (Err (IndexOverflow ''children''), pa)
      else let (ok, m) = shift_values n (indices pa); pa = pa\<lparr>indices := m\<rparr>
      in if \<not> ok then (Err (IndexOverflow ''indices''), pa)
      else (Ok (), pa\<lparr>nodes := map (shift_parent n) (nodes pa)\<rparr>))"

definition maybe_prune :: "hash256 \<Rightarrow> (proto_array, unit, proto_error) op" where
  "maybe_prune finalized_root pa =
     (case map_of (indices pa) finalized_root of
        None \<Rightarrow> (Err (FinalizedNodeUnknown finalized_root), pa)
      | Some finalized_index \<Rightarrow>
          if finalized_index < prune_threshold pa then (Ok (), pa)
          else op_bind (op_for_each remove_index [0..<finalized_index]) (\<lambda>_. drop_finalized finalized_index) pa)"

end
