(* ===== verification/Proto_Head.thy ===== *)
theory Proto_Head
  imports Proto_Array "HOL-Library.Product_Lexorder"
begin

text \<open>
  How \<open>ProtoArray\<close> chooses the head (\<open>consensus/proto_array/src/proto_array.rs\<close>): the filter of viable
  branches, the weights and tie-breakers, the proposer boost, and the walk from the justified block to
  the head; with the execution verdict of a node. A node of the walk is a block together with a payload
  status; each step of the walk either settles the payload of a block or moves to one of its children.
\<close>

section \<open>Proposer boost\<close>

definition is_head_weak :: "fc_spec \<Rightarrow> proto_node \<Rightarrow> justified_balances \<Rightarrow> bool" where
  "is_head_weak spec head_node balances =
     (let reorg_threshold =
        (case calculate_committee_fraction spec balances (reorg_head_weight_threshold spec) of
           None \<Rightarrow> 0 | Some t \<Rightarrow> t);
          head_weight = saturating_add (attestation_score head_node Pending)
            (case head_node of V17 _ \<Rightarrow> 0 | V29 n \<Rightarrow> pn_equivocating_attestation_score n)
      in head_weight < reorg_threshold)"

definition equivocates_with :: "proto_node \<Rightarrow> proto_node \<Rightarrow> bool" where
  "equivocates_with parent node =
     (case node of
        V29 n \<Rightarrow>
          pn_block_timeliness_ptc_threshold n \<and> Some (pn_proposer_index n) = node_proposer_index parent \<and>
          pn_slot n = node_slot parent \<and> pn_root n \<noteq> node_root parent
      | V17 _ \<Rightarrow> False)"

definition should_apply_proposer_boost ::
  "fc_spec \<Rightarrow> proto_array \<Rightarrow> hash256 \<Rightarrow> justified_balances \<Rightarrow> (bool, proto_error) result" where
  "should_apply_proposer_boost spec pa proposer_boost_root balances =
     (if proposer_boost_root = 0 then Ok False
      else bindE (ok_or (NodeUnknown proposer_boost_root) (map_of (indices pa) proposer_boost_root)) (\<lambda>block_index.
        bindE (ok_or (InvalidNodeIndex block_index) (vec_get (nodes pa) block_index)) (\<lambda>block.
        bindE (ok_or (NodeUnknown proposer_boost_root) (node_parent block)) (\<lambda>parent_index.
        bindE (ok_or (InvalidNodeIndex parent_index) (vec_get (nodes pa) parent_index)) (\<lambda>parent.
          if saturating_add (node_slot parent) 1 < node_slot block then Ok True
          else if \<not> is_head_weak spec parent balances then Ok True
          else Ok (\<not> list_ex (equivocates_with parent) (nodes pa)))))))"

section \<open>Ancestors and children in the tree of payload choices\<close>

fun ancestor_walk :: "nat \<Rightarrow> proto_array \<Rightarrow> slot \<Rightarrow> nat \<Rightarrow> nat \<Rightarrow> (indexed_fork_choice_node, proto_error) result" where
  "ancestor_walk 0 pa s child_index current_index = Err NoReturn"
| "ancestor_walk (Suc fuel) pa s child_index current_index =
     bindE (ok_or (InvalidNodeIndex current_index) (vec_get (nodes pa) current_index)) (\<lambda>current.
       if node_slot current \<le> s
       then bindE (ok_or (InvalidNodeIndex child_index) (vec_get (nodes pa) child_index)) (\<lambda>child.
              Ok \<lparr>fc_root = node_root current, fc_proto_node_index = current_index,
                  fc_payload_status =
                    (case get_parent_payload_status child of
                       ParentFull \<Rightarrow> Full | ParentEmpty \<Rightarrow> Empty | PreGloas \<Rightarrow> Empty)\<rparr>)
       else bindE (ok_or (NodeUnknown (node_root current)) (node_parent current))
              (ancestor_walk fuel pa s current_index))"

definition get_ancestor_node :: "proto_array \<Rightarrow> hash256 \<Rightarrow> slot \<Rightarrow> (indexed_fork_choice_node, proto_error) result" where
  "get_ancestor_node pa root s =
     bindE (ok_or (NodeUnknown root) (map_of (indices pa) root)) (\<lambda>index.
     bindE (ok_or (InvalidNodeIndex index) (vec_get (nodes pa) index)) (\<lambda>block.
       if node_slot block \<le> s
       then Ok \<lparr>fc_root = root, fc_proto_node_index = index, fc_payload_status = Pending\<rparr>
       else bindE (ok_or (NodeUnknown (node_root block)) (node_parent block))
              (ancestor_walk (Suc (length (nodes pa))) pa s index)))"

definition is_supporting_vote ::
  "proto_array \<Rightarrow> indexed_fork_choice_node \<Rightarrow> latest_message \<Rightarrow> (bool, proto_error) result" where
  "is_supporting_vote pa node message =
     bindE (ok_or (InvalidNodeIndex (fc_proto_node_index node)) (vec_get (nodes pa) (fc_proto_node_index node))) (\<lambda>block.
       if fc_root node = lm_root message
       then if fc_payload_status node = Pending then Ok True
            else if lm_slot message \<le> node_slot block then Ok False
            else if lm_payload_present message then Ok (fc_payload_status node = Full)
            else Ok (fc_payload_status node = Empty)
       else bindE (get_ancestor_node pa (lm_root message) (node_slot block)) (\<lambda>ancestor.
              Ok (fc_root node = fc_root ancestor \<and>
                  (fc_payload_status node = Pending \<or> fc_payload_status node = fc_payload_status ancestor))))"

fun child_side :: "parent_payload_status \<Rightarrow> payload_status" where
  "child_side ParentFull = Full"
| "child_side ParentEmpty = Empty"
| "child_side PreGloas = Empty"

definition get_node_children ::
  "proto_array \<Rightarrow> indexed_fork_choice_node \<Rightarrow> ((indexed_fork_choice_node \<times> proto_node) list, proto_error) result" where
  "get_node_children pa node =
     (if fc_payload_status node = Pending
      then bindE (ok_or (InvalidNodeIndex (fc_proto_node_index node)) (vec_get (nodes pa) (fc_proto_node_index node)))
             (\<lambda>proto_node.
               Ok ((with_status node Empty, proto_node) #
                   (if has_full_node proto_node then [(with_status node Full, proto_node)] else [])))
      else bindE (ok_or (InvalidNodeIndex (fc_proto_node_index node)) (vec_get (children pa) (fc_proto_node_index node)))
             (\<lambda>child_indices.
               bindE (collect_results (\<lambda>i.
                   bindE (ok_or (InvalidNodeIndex i) (vec_get (nodes pa) i)) (\<lambda>child.
                     Ok (if child_side (get_parent_payload_status child) = fc_payload_status node
                         then Some (\<lparr>fc_root = node_root child, fc_proto_node_index = i, fc_payload_status = Pending\<rparr>, child)
                         else None))) child_indices)
                 (\<lambda>cs. Ok (List.map_filter id cs))))"

section \<open>Weights and tie-breakers\<close>

definition get_weight ::
  "fc_spec \<Rightarrow> proto_array \<Rightarrow> indexed_fork_choice_node \<Rightarrow> proto_node \<Rightarrow> bool \<Rightarrow> hash256 \<Rightarrow> slot \<Rightarrow>
   justified_balances \<Rightarrow> (u64, proto_error) result" where
  "get_weight spec pa fc_node proto_node apply_proposer_boost proposer_boost_root current_slot balances =
     (if fc_payload_status fc_node = Pending \<or> saturating_add (node_slot proto_node) 1 \<noteq> current_slot
      then let score = attestation_score proto_node (fc_payload_status fc_node) in
           if \<not> apply_proposer_boost then Ok score
           else let message = \<lparr>lm_slot = current_slot, lm_root = proposer_boost_root, lm_payload_present = False\<rparr> in
             bindE (is_supporting_vote pa fc_node message) (\<lambda>supporting.
             bindE (if supporting then get_proposer_score spec balances else Ok 0) (\<lambda>proposer_score.
               Ok (saturating_add score proposer_score)))
      else Ok 0)"

definition should_extend_payload ::
  "fc_spec \<Rightarrow> proto_array \<Rightarrow> indexed_fork_choice_node \<Rightarrow> proto_node \<Rightarrow> slot \<Rightarrow> hash256 \<Rightarrow> (bool, proto_error) result" where
  "should_extend_payload spec pa fc_node proto_node current_slot proposer_boost_root =
     (if saturating_add (node_slot proto_node) 1 \<noteq> current_slot
      then Err (ShouldExtendPayloadInvalidSlot (fc_root fc_node) (node_slot proto_node) current_slot)
      else case proto_node of
        V17 _ \<Rightarrow> Err (InvalidNodeVariant (fc_root fc_node))
      | V29 node \<Rightarrow>
          if \<not> pn_payload_received node then Ok False
          else if proposer_boost_root = 0 then Ok True
          else bindE (ok_or (NodeUnknown proposer_boost_root) (map_of (indices pa) proposer_boost_root)) (\<lambda>boost_index.
            bindE (ok_or (InvalidNodeIndex boost_index) (vec_get (nodes pa) boost_index)) (\<lambda>boost_node.
            bindE (ok_or (NodeUnknown proposer_boost_root) (node_parent boost_node)) (\<lambda>parent_index.
            bindE (ok_or (InvalidNodeIndex parent_index) (vec_get (nodes pa) parent_index)) (\<lambda>boost_parent.
            bindE (payload_timeliness spec proto_node True) (\<lambda>timely.
            bindE (if timely then payload_data_availability spec proto_node True else Ok False) (\<lambda>timely_and_available.
              Ok (timely_and_available \<or> node_root boost_parent \<noteq> fc_root fc_node \<or>
                  is_parent_node_full boost_node))))))))"

definition should_build_on_full ::
  "fc_spec \<Rightarrow> indexed_fork_choice_node \<Rightarrow> proto_node \<Rightarrow> slot \<Rightarrow> (bool, proto_error) result" where
  "should_build_on_full spec fc_node proto_node current_slot =
     (if fc_payload_status fc_node = Pending
      then Err (InvalidPayloadStatus (node_root proto_node) (fc_payload_status fc_node))
      else if fc_payload_status fc_node = Empty then Ok False
      else if saturating_add (node_slot proto_node) 1 \<noteq> current_slot then Ok True
      else bindE (payload_data_availability spec proto_node False) (\<lambda>unavailable.
        if unavailable then Ok False
        else bindE (payload_timeliness spec proto_node False) (\<lambda>untimely.
          if untimely then Ok False else Ok True)))"

definition get_payload_status_tiebreaker ::
  "fc_spec \<Rightarrow> proto_array \<Rightarrow> indexed_fork_choice_node \<Rightarrow> proto_node \<Rightarrow> slot \<Rightarrow> hash256 \<Rightarrow> (u8, proto_error) result" where
  "get_payload_status_tiebreaker spec pa fc_node proto_node current_slot proposer_boost_root =
     (if fc_payload_status fc_node = Pending \<or> saturating_add (node_slot proto_node) 1 \<noteq> current_slot
      then Ok (payload_status_u8 (fc_payload_status fc_node))
      else if fc_payload_status fc_node = Empty then Ok 1
      else bindE (should_extend_payload spec pa fc_node proto_node current_slot proposer_boost_root)
             (\<lambda>extend. Ok (if extend then 2 else 0)))"

section \<open>Viable branches\<close>

definition node_is_viable_for_head ::
  "fc_spec \<Rightarrow> proto_array \<Rightarrow> proto_node \<Rightarrow> slot \<Rightarrow> checkpoint \<Rightarrow> checkpoint \<Rightarrow> bool" where
  "node_is_viable_for_head spec pa node current_slot best_justified best_finalized =
     (if (case node of V17 v17 \<Rightarrow> status_is_invalid (pn_execution_status v17) | V29 _ \<Rightarrow> False) then False
      else let current_epoch = slot_epoch spec current_slot;
               node_epoch = slot_epoch spec (node_slot node);
               voting_source =
                 (if current_epoch > node_epoch
                  then (case node_unrealized_justified node of
                          None \<Rightarrow> node_justified_checkpoint node | Some cp \<Rightarrow> cp)
                  else node_justified_checkpoint node);
               correct_justified =
                 (cp_epoch best_justified = 0 \<or> cp_epoch voting_source = cp_epoch best_justified \<or>
                  saturating_add (cp_epoch voting_source) 2 \<ge> current_epoch);
               correct_finalized =
                 (cp_epoch best_finalized = 0 \<or>
                  is_finalized_checkpoint_or_descendant spec pa (node_root node) best_finalized)
           in correct_justified \<and> correct_finalized)"

definition invalid_payloads :: "proto_array \<Rightarrow> execution_block_hash list" where
  "invalid_payloads pa = List.map_filter (\<lambda>node.
     case node_execution_status_of node of
       Invalid h \<Rightarrow> Some h
     | Valid _ \<Rightarrow> None
     | Optimistic _ \<Rightarrow> None
     | Irrelevant _ \<Rightarrow> None
     | NotYetRevealed _ \<Rightarrow> None) (nodes pa)"

definition latest_payload_invalid :: "proto_array \<Rightarrow> proto_node \<Rightarrow> bool" where
  "latest_payload_invalid pa node =
     (case node of
        V17 _ \<Rightarrow> node_is_invalid node
      | V29 v29 \<Rightarrow> pn_execution_payload_parent_hash v29 \<in> set (invalid_payloads pa))"

definition exclude_step :: "proto_array \<Rightarrow> bool list \<Rightarrow> nat \<Rightarrow> (bool list, proto_error) result" where
  "exclude_step pa excluded i =
     bindE (ok_or (InvalidNodeIndex i) (vec_get (nodes pa) i)) (\<lambda>node.
     bindE (case node_parent node of
              Some p \<Rightarrow> ok_or (InvalidNodeIndex p) (vec_get excluded p)
            | None \<Rightarrow> Ok False) (\<lambda>parent_excluded.
       Ok (excluded[i := parent_excluded \<or> latest_payload_invalid pa node])))"

definition split_children ::
  "proto_array \<Rightarrow> bool list \<Rightarrow> nat \<Rightarrow> (nat list \<times> nat list, proto_error) result" where
  "split_children pa excluded node_index =
     bindE (ok_or (InvalidNodeIndex node_index) (vec_get (children pa) node_index)) (\<lambda>child_indices.
       try_fold (\<lambda>(empty_children, full_children) c.
           bindE (ok_or (InvalidNodeIndex c) (vec_get excluded c)) (\<lambda>is_excluded.
             if is_excluded then Ok (empty_children, full_children)
             else bindE (ok_or (InvalidNodeIndex c) (vec_get (nodes pa) c)) (\<lambda>child.
               case get_parent_payload_status child of
                 ParentFull \<Rightarrow> Ok (empty_children, full_children @ [c])
               | ParentEmpty \<Rightarrow> Ok (empty_children @ [c], full_children)
               | PreGloas \<Rightarrow> Ok (empty_children @ [c], full_children))))
         ([], []) child_indices)"

definition filter_step ::
  "fc_spec \<Rightarrow> proto_array \<Rightarrow> slot \<Rightarrow> checkpoint \<Rightarrow> checkpoint \<Rightarrow> bool list \<Rightarrow>
   (nat \<times> payload_status) set \<Rightarrow> nat \<Rightarrow> ((nat \<times> payload_status) set, proto_error) result" where
  "filter_step spec pa current_slot best_justified best_finalized excluded viable node_index =
     bindE (ok_or (InvalidNodeIndex node_index) (vec_get excluded node_index)) (\<lambda>is_excluded.
       if is_excluded then Ok viable
       else bindE (ok_or (InvalidNodeIndex node_index) (vec_get (nodes pa) node_index)) (\<lambda>node.
         bindE (split_children pa excluded node_index) (\<lambda>(empty_children, full_children).
           let is_viable = (\<lambda>cs.
                 if cs = [] then node_is_viable_for_head spec pa node current_slot best_justified best_finalized
                 else list_ex (\<lambda>i. (i, Pending) \<in> viable) cs);
               empty_viable = is_viable empty_children;
               full_viable = (has_full_node node \<and> is_viable full_children);
               viable = (if empty_viable then insert (node_index, Empty) viable else viable);
               viable = (if full_viable then insert (node_index, Full) viable else viable)
           in Ok (if empty_viable \<or> full_viable then insert (node_index, Pending) viable else viable))))"

definition filter_node_tree ::
  "fc_spec \<Rightarrow> proto_array \<Rightarrow> nat \<Rightarrow> slot \<Rightarrow> checkpoint \<Rightarrow> checkpoint \<Rightarrow> (nat \<times> payload_status) set \<Rightarrow>
   ((nat \<times> payload_status) set, proto_error) result" where
  "filter_node_tree spec pa start_index current_slot best_justified best_finalized viable =
     bindE (try_fold (exclude_step pa) (replicate (length (nodes pa)) False) [Suc start_index..<length (nodes pa)])
       (\<lambda>excluded. try_fold (filter_step spec pa current_slot best_justified best_finalized excluded) viable
          (rev [start_index..<length (nodes pa)]))"

definition get_filtered_node_tree ::
  "fc_spec \<Rightarrow> proto_array \<Rightarrow> nat \<Rightarrow> slot \<Rightarrow> checkpoint \<Rightarrow> checkpoint \<Rightarrow> ((nat \<times> payload_status) set, proto_error) result" where
  "get_filtered_node_tree spec pa start_index current_slot best_justified best_finalized =
     filter_node_tree spec pa start_index current_slot best_justified best_finalized {}"

section \<open>The walk to the head\<close>

definition best_child ::
  "fc_spec \<Rightarrow> proto_array \<Rightarrow> bool \<Rightarrow> hash256 \<Rightarrow> slot \<Rightarrow> justified_balances \<Rightarrow>
   (indexed_fork_choice_node \<times> proto_node) list \<Rightarrow> (indexed_fork_choice_node, proto_error) result" where
  "best_child spec pa apply_proposer_boost proposer_boost_root current_slot balances cs =
     bindE (collect_results (\<lambda>(child, proto_node).
         bindE (get_weight spec pa child proto_node apply_proposer_boost proposer_boost_root current_slot balances) (\<lambda>w.
         bindE (get_payload_status_tiebreaker spec pa child proto_node current_slot proposer_boost_root) (\<lambda>tiebreaker.
           Ok (child, w, tiebreaker)))) cs)
       (\<lambda>weighted. ok_or NoViableChildren
          (map_option fst (max_by_key (\<lambda>(child, w, tiebreaker). (w, fc_root child, tiebreaker)) weighted)))"

fun head_loop ::
  "nat \<Rightarrow> fc_spec \<Rightarrow> proto_array \<Rightarrow> (nat \<times> payload_status) set \<Rightarrow> bool \<Rightarrow> hash256 \<Rightarrow> slot \<Rightarrow> justified_balances \<Rightarrow>
   indexed_fork_choice_node \<Rightarrow> (indexed_fork_choice_node, proto_error) result" where
  "head_loop 0 spec pa viable apply_proposer_boost proposer_boost_root current_slot balances head = Err NoReturn"
| "head_loop (Suc fuel) spec pa viable apply_proposer_boost proposer_boost_root current_slot balances head =
     bindE (get_node_children pa head) (\<lambda>all_children.
       let cs = filter (\<lambda>(child, _). (fc_proto_node_index child, fc_payload_status child) \<in> viable) all_children
       in if cs = [] then Ok head
          else bindE (best_child spec pa apply_proposer_boost proposer_boost_root current_slot balances cs)
                 (head_loop fuel spec pa viable apply_proposer_boost proposer_boost_root current_slot balances))"

definition find_head_walk ::
  "fc_spec \<Rightarrow> proto_array \<Rightarrow> nat \<Rightarrow> slot \<Rightarrow> checkpoint \<Rightarrow> checkpoint \<Rightarrow> hash256 \<Rightarrow> justified_balances \<Rightarrow>
   (indexed_fork_choice_node, proto_error) result" where
  "find_head_walk spec pa start_index current_slot best_justified best_finalized proposer_boost_root balances =
     (let head = \<lparr>fc_root = cp_root best_justified, fc_proto_node_index = start_index, fc_payload_status = Pending\<rparr> in
      bindE (get_filtered_node_tree spec pa start_index current_slot best_justified best_finalized) (\<lambda>viable.
        if (start_index, Pending) \<notin> viable then Ok (with_status head Empty)
        else bindE (should_apply_proposer_boost spec pa proposer_boost_root balances) (\<lambda>apply_proposer_boost.
          head_loop (2 * length (nodes pa) + 2) spec pa viable apply_proposer_boost proposer_boost_root current_slot balances head)))"

definition find_head ::
  "fc_spec \<Rightarrow> proto_array \<Rightarrow> hash256 \<Rightarrow> slot \<Rightarrow> checkpoint \<Rightarrow> checkpoint \<Rightarrow> hash256 \<Rightarrow> justified_balances \<Rightarrow>
   (hash256 \<times> payload_status, proto_error) result" where
  "find_head spec pa justified_root current_slot best_justified best_finalized proposer_boost_root balances =
     bindE (ok_or (JustifiedNodeUnknown justified_root) (map_of (indices pa) justified_root)) (\<lambda>justified_index.
     bindE (find_head_walk spec pa justified_index current_slot best_justified best_finalized proposer_boost_root balances)
       (\<lambda>best. Ok (fc_root best, fc_payload_status best)))"

fun leaf_loop ::
  "nat \<Rightarrow> fc_spec \<Rightarrow> proto_array \<Rightarrow> (nat \<times> payload_status) set \<Rightarrow> bool \<Rightarrow> hash256 \<Rightarrow> slot \<Rightarrow> justified_balances \<Rightarrow>
   indexed_fork_choice_node list \<Rightarrow> (hash256 \<times> payload_status \<times> u64) list \<Rightarrow>
   ((hash256 \<times> payload_status \<times> u64) list, proto_error) result" where
  "leaf_loop fuel spec pa viable apply_proposer_boost proposer_boost_root current_slot balances [] leaves = Ok leaves"
| "leaf_loop 0 spec pa viable apply_proposer_boost proposer_boost_root current_slot balances (n # stack) leaves = Err NoReturn"
| "leaf_loop (Suc fuel) spec pa viable apply_proposer_boost proposer_boost_root current_slot balances (n # stack) leaves =
     bindE (ok_or (InvalidNodeIndex (fc_proto_node_index n)) (vec_get (nodes pa) (fc_proto_node_index n))) (\<lambda>proto_node.
     bindE (get_node_children pa n) (\<lambda>all_children.
       let cs = filter (\<lambda>(child, _). (fc_proto_node_index child, fc_payload_status child) \<in> viable) all_children
       in if cs = []
          then let leaf = (case node_payload_received proto_node of None \<Rightarrow> with_status n Pending | Some _ \<Rightarrow> n) in
               bindE (get_weight spec pa leaf proto_node apply_proposer_boost proposer_boost_root current_slot balances) (\<lambda>w.
                 leaf_loop fuel spec pa viable apply_proposer_boost proposer_boost_root current_slot balances stack
                   (leaves @ [(fc_root leaf, fc_payload_status leaf, w)]))
          else leaf_loop fuel spec pa viable apply_proposer_boost proposer_boost_root current_slot balances
                 (rev (map fst cs) @ stack) leaves))"

definition filtered_node_tree_leaves_and_weights ::
  "fc_spec \<Rightarrow> proto_array \<Rightarrow> hash256 \<Rightarrow> slot \<Rightarrow> checkpoint \<Rightarrow> checkpoint \<Rightarrow> hash256 \<Rightarrow> justified_balances \<Rightarrow>
   ((hash256 \<times> payload_status \<times> u64) list, proto_error) result" where
  "filtered_node_tree_leaves_and_weights spec pa justified_root current_slot justified finalized proposer_boost_root balances =
     bindE (ok_or (NodeUnknown justified_root) (map_of (indices pa) justified_root)) (\<lambda>start_index.
     bindE (get_filtered_node_tree spec pa start_index current_slot justified finalized) (\<lambda>viable.
     bindE (should_apply_proposer_boost spec pa proposer_boost_root balances) (\<lambda>apply_proposer_boost.
       leaf_loop (3 * length (nodes pa) + 1) spec pa viable apply_proposer_boost proposer_boost_root current_slot balances
         [\<lparr>fc_root = justified_root, fc_proto_node_index = start_index, fc_payload_status = Pending\<rparr>] [])))"

section \<open>Verdicts and payload choice of a node\<close>

fun verdict_of :: "execution_status \<Rightarrow> execution_verdict option" where
  "verdict_of (Valid _) = Some VerdictValid"
| "verdict_of (Irrelevant _) = Some VerdictValid"
| "verdict_of (Invalid _) = Some VerdictInvalid"
| "verdict_of (Optimistic _) = Some VerdictOptimistic"
| "verdict_of (NotYetRevealed _) = None"

text \<open>The loop ends at the executed node, or at the root of the array (no node).\<close>

fun inherited_walk :: "nat \<Rightarrow> proto_array \<Rightarrow> proto_node \<Rightarrow> (proto_node option, proto_error) result" where
  "inherited_walk 0 pa node = Err NoReturn"
| "inherited_walk (Suc fuel) pa node =
     (case node of
        V17 _ \<Rightarrow> Ok (Some node)
      | V29 gloas_node \<Rightarrow>
          (case pn_parent gloas_node of
             None \<Rightarrow> Ok None
           | Some parent_index \<Rightarrow>
               bindE (ok_or (InvalidNodeIndex parent_index) (vec_get (nodes pa) parent_index)) (\<lambda>parent.
                 case pn_parent_payload_status gloas_node of
                   ParentFull \<Rightarrow> Ok (Some parent)
                 | PreGloas \<Rightarrow> Ok (Some parent)
                 | ParentEmpty \<Rightarrow> inherited_walk fuel pa parent)))"

definition inherited_execution_status :: "proto_array \<Rightarrow> hash256 \<Rightarrow> (execution_verdict, proto_error) result" where
  "inherited_execution_status pa block_root =
     bindE (ok_or (NodeUnknown block_root) (get_block pa block_root)) (\<lambda>node.
     bindE (inherited_walk (Suc (length (nodes pa))) pa node) (\<lambda>executed.
       case executed of
         None \<Rightarrow> Ok VerdictValid
       | Some executed_node \<Rightarrow>
           ok_or (UnexpectedUnrevealed (node_root executed_node)) (verdict_of (node_execution_status_of executed_node))))"

definition node_execution_status :: "proto_array \<Rightarrow> hash256 \<Rightarrow> payload_status \<Rightarrow> (execution_verdict, proto_error) result" where
  "node_execution_status pa root status =
     (case status of
        Full \<Rightarrow>
          bindE (ok_or (NodeUnknown root) (get_block pa root)) (\<lambda>node.
            case verdict_of (node_execution_status_of node) of
              Some verdict \<Rightarrow> Ok verdict
            | None \<Rightarrow> inherited_execution_status pa root)
      | Empty \<Rightarrow> inherited_execution_status pa root
      | Pending \<Rightarrow> inherited_execution_status pa root)"

definition get_canonical_payload_status ::
  "fc_spec \<Rightarrow> proto_array \<Rightarrow> hash256 \<Rightarrow> slot \<Rightarrow> hash256 \<Rightarrow> justified_balances \<Rightarrow> (payload_status, proto_error) result" where
  "get_canonical_payload_status spec pa root current_slot proposer_boost_root balances =
     bindE (ok_or (NodeUnknown root) (map_of (indices pa) root)) (\<lambda>index.
     bindE (ok_or (InvalidNodeIndex index) (vec_get (nodes pa) index)) (\<lambda>proto_node.
     bindE (ok_or (InvalidNodeVariant root) (node_payload_received proto_node)) (\<lambda>received.
       if \<not> received \<or> node_is_invalid proto_node then Ok Empty
       else let full_fc = \<lparr>fc_root = root, fc_proto_node_index = index, fc_payload_status = Full\<rparr>;
                empty_fc = \<lparr>fc_root = root, fc_proto_node_index = index, fc_payload_status = Empty\<rparr> in
         bindE (should_apply_proposer_boost spec pa proposer_boost_root balances) (\<lambda>boost.
         bindE (get_weight spec pa full_fc proto_node boost proposer_boost_root current_slot balances) (\<lambda>full_weight.
         bindE (get_weight spec pa empty_fc proto_node boost proposer_boost_root current_slot balances) (\<lambda>empty_weight.
           if full_weight > empty_weight then Ok Full
           else if full_weight < empty_weight then Ok Empty
           else bindE (get_payload_status_tiebreaker spec pa full_fc proto_node current_slot proposer_boost_root) (\<lambda>full_tb.
             bindE (get_payload_status_tiebreaker spec pa empty_fc proto_node current_slot proposer_boost_root) (\<lambda>empty_tb.
               Ok (if full_tb \<ge> empty_tb then Full else Empty)))))))))"

end
