(* ===== verification/Proto_Votes.thy ===== *)
theory Proto_Votes
  imports Proto_Head
begin

text \<open>
  \<open>ProtoArrayForkChoice\<close> (\<open>consensus/proto_array/src/proto_array_fork_choice.rs\<close> and
  \<open>ssz_container.rs\<close>): the votes of the validators, the score changes they make, the operations of the
  fork choice that combine them with the node array, the re-org decision of a proposer, and the
  conversion to and from the stored container. The error strings of the source are one constructor per
  message, with the error they format.
\<close>

section \<open>Votes\<close>

record vote_tracker =
  v_current_root :: hash256
  v_next_root :: hash256
  v_current_slot :: slot
  v_next_slot :: slot
  v_current_payload_present :: bool
  v_next_payload_present :: bool

definition default_vote :: vote_tracker where
  "default_vote = \<lparr>v_current_root = 0, v_next_root = 0, v_current_slot = 0, v_next_slot = 0,
     v_current_payload_present = False, v_next_payload_present = False\<rparr>"

definition current_payload_status :: "vote_tracker \<Rightarrow> slot \<Rightarrow> payload_status" where
  "current_payload_status v block_slot = from_vote (v_current_slot v) (v_current_payload_present v) block_slot"

text \<open>\<open>ElasticList::ensure\<close>.\<close>

definition ensure :: "'a \<Rightarrow> 'a list \<Rightarrow> nat \<Rightarrow> 'a list" where
  "ensure default_v xs i =
     (if length xs \<le> i then xs @ replicate (Suc i - length xs) default_v else xs)"

definition balance_at :: "u64 list \<Rightarrow> nat \<Rightarrow> u64" where
  "balance_at balances i = (case vec_get balances i of None \<Rightarrow> 0 | Some b \<Rightarrow> b)"

section \<open>Score changes of votes\<close>

text \<open>Taking a balance from, and giving a balance to, the node a vote names, if it is in the tree.\<close>

definition subtract_vote ::
  "(hash256 \<times> nat) list \<Rightarrow> slot list \<Rightarrow> hash256 \<Rightarrow> slot \<Rightarrow> bool \<Rightarrow> u64 \<Rightarrow> u64 \<Rightarrow> node_delta list \<Rightarrow>
   (node_delta list, proto_error) result" where
  "subtract_vote index_map node_slots root vote_slot present balance equivocating deltas =
     (case map_of index_map root of
        None \<Rightarrow> Ok deltas
      | Some i \<Rightarrow>
          bindE (ok_or (InvalidNodeDelta i) (vec_get deltas i)) (\<lambda>d.
          bindE (ok_or (DeltaOverflow i) (i64_checked_sub (nd_delta d) balance)) (\<lambda>v.
          bindE (ok_or (InvalidNodeDelta i) (vec_get node_slots i)) (\<lambda>block_slot.
          bindE (sub_payload_delta (from_vote vote_slot present block_slot) balance i (d\<lparr>nd_delta := v\<rparr>)) (\<lambda>d'.
            Ok (deltas[i := d'\<lparr>nd_equivocating_attestation_delta :=
              saturating_add (nd_equivocating_attestation_delta d') equivocating\<rparr>]))))))"

definition add_vote ::
  "(hash256 \<times> nat) list \<Rightarrow> slot list \<Rightarrow> hash256 \<Rightarrow> slot \<Rightarrow> bool \<Rightarrow> u64 \<Rightarrow> node_delta list \<Rightarrow>
   (node_delta list, proto_error) result" where
  "add_vote index_map node_slots root vote_slot present balance deltas =
     (case map_of index_map root of
        None \<Rightarrow> Ok deltas
      | Some i \<Rightarrow>
          bindE (ok_or (InvalidNodeDelta i) (vec_get deltas i)) (\<lambda>d.
          bindE (ok_or (DeltaOverflow i) (i64_checked_add (nd_delta d) balance)) (\<lambda>v.
          bindE (ok_or (InvalidNodeDelta i) (vec_get node_slots i)) (\<lambda>block_slot.
          bindE (add_payload_delta (from_vote vote_slot present block_slot) balance i (d\<lparr>nd_delta := v\<rparr>)) (\<lambda>d'.
            Ok (deltas[i := d'])))))) "

definition equivocating_vote_step ::
  "(hash256 \<times> nat) list \<Rightarrow> slot list \<Rightarrow> u64 list \<Rightarrow> nat \<Rightarrow> vote_tracker \<Rightarrow> node_delta list \<Rightarrow>
   (node_delta list, proto_error) result \<times> vote_tracker" where
  "equivocating_vote_step index_map node_slots old_balances val_index vote deltas =
     (if v_current_root vote \<noteq> 0
      then let old_balance = balance_at old_balances val_index in
           case subtract_vote index_map node_slots (v_current_root vote) (v_current_slot vote)
                  (v_current_payload_present vote) old_balance old_balance deltas of
             Inl e \<Rightarrow> (Err e, vote)
           | Inr deltas' \<Rightarrow>
               (Ok deltas', vote\<lparr>v_current_root := 0, v_current_slot := 0, v_current_payload_present := False\<rparr>)
      else (Ok deltas, vote))"

definition ordinary_vote_step ::
  "(hash256 \<times> nat) list \<Rightarrow> slot list \<Rightarrow> u64 list \<Rightarrow> u64 list \<Rightarrow> nat \<Rightarrow> vote_tracker \<Rightarrow> node_delta list \<Rightarrow>
   (node_delta list, proto_error) result \<times> vote_tracker" where
  "ordinary_vote_step index_map node_slots old_balances new_balances val_index vote deltas =
     (let old_balance = balance_at old_balances val_index;
          new_balance = balance_at new_balances val_index
      in if v_current_root vote \<noteq> v_next_root vote \<or> old_balance \<noteq> new_balance \<or>
            v_current_payload_present vote \<noteq> v_next_payload_present vote \<or>
            v_current_slot vote \<noteq> v_next_slot vote
         then case bindE (subtract_vote index_map node_slots (v_current_root vote) (v_current_slot vote)
                            (v_current_payload_present vote) old_balance 0 deltas)
                     (add_vote index_map node_slots (v_next_root vote) (v_next_slot vote)
                            (v_next_payload_present vote) new_balance) of
                Inl e \<Rightarrow> (Err e, vote)
              | Inr deltas' \<Rightarrow>
                  (Ok deltas', vote\<lparr>v_current_root := v_next_root vote, v_current_slot := v_next_slot vote,
                     v_current_payload_present := v_next_payload_present vote\<rparr>)
         else (Ok deltas, vote))"

definition vote_step ::
  "(hash256 \<times> nat) list \<Rightarrow> slot list \<Rightarrow> u64 list \<Rightarrow> u64 list \<Rightarrow> u64 set \<Rightarrow> nat \<Rightarrow> vote_tracker \<Rightarrow> node_delta list \<Rightarrow>
   (node_delta list, proto_error) result \<times> vote_tracker" where
  "vote_step index_map node_slots old_balances new_balances equivocating_indices val_index vote deltas =
     (if v_current_root vote = 0 \<and> v_next_root vote = 0 then (Ok deltas, vote)
      else if of_nat val_index \<in> equivocating_indices
      then equivocating_vote_step index_map node_slots old_balances val_index vote deltas
      else ordinary_vote_step index_map node_slots old_balances new_balances val_index vote deltas)"

fun deltas_loop ::
  "(nat \<Rightarrow> vote_tracker \<Rightarrow> node_delta list \<Rightarrow> (node_delta list, proto_error) result \<times> vote_tracker) \<Rightarrow>
   nat \<Rightarrow> vote_tracker list \<Rightarrow> node_delta list \<Rightarrow> (node_delta list, proto_error) result \<times> vote_tracker list" where
  "deltas_loop step val_index [] deltas = (Ok deltas, [])"
| "deltas_loop step val_index (vote # votes) deltas =
     (case step val_index vote deltas of
        (Inl e, vote') \<Rightarrow> (Err e, vote' # votes)
      | (Inr deltas', vote') \<Rightarrow>
          (let (r, votes') = deltas_loop step (Suc val_index) votes deltas' in (r, vote' # votes')))"

definition compute_deltas ::
  "(hash256 \<times> nat) list \<Rightarrow> slot list \<Rightarrow> u64 list \<Rightarrow> u64 list \<Rightarrow> u64 set \<Rightarrow> vote_tracker list \<Rightarrow>
   (node_delta list, proto_error) result \<times> vote_tracker list" where
  "compute_deltas index_map node_slots old_balances new_balances equivocating_indices votes =
     deltas_loop (vote_step index_map node_slots old_balances new_balances equivocating_indices) 0 votes
       (replicate (length index_map) (from_delta 0))"

section \<open>The fork choice\<close>

record fork_choice =
  fc_array :: proto_array
  fc_votes :: "vote_tracker list"
  fc_balances :: justified_balances

datatype fork_choice_error =
    AddFinalizedBlockFailed proto_error
  | ExecutionPayloadFailed proto_error
  | ValidPayloadFailed proto_error
  | InvalidPayloadFailed proto_error
  | PayloadAttestationUnknownRoot hash256
  | PayloadAttestationInvalidIndex nat
  | PayloadAttestationNotV29 hash256
  | PayloadAttestationSetFailed
  | MissingParentRoot
  | ProcessBlockError proto_error
  | ComputeDeltasFailed proto_error
  | ApplyScoreChangesFailed proto_error
  | SettleComputeDeltasFailed proto_error
  | SettleApplyScoreChangesFailed proto_error
  | ReplayComputeDeltasFailed proto_error
  | ReplayApplyScoreChangesFailed proto_error
  | FindHeadFailed proto_error
  | MaybePruneFailed proto_error
  | UnknownBlockRoot hash256
  | MissingNodeAt nat
  | BuildFailed proto_error

definition DEFAULT_PRUNE_THRESHOLD :: nat where
  "DEFAULT_PRUNE_THRESHOLD = 256"

text \<open>An operation of the array, as an operation of the fork choice.\<close>

definition on_array :: "(proto_error \<Rightarrow> fork_choice_error) \<Rightarrow> (proto_array, unit, proto_error) op \<Rightarrow>
    (fork_choice, unit, fork_choice_error) op" where
  "on_array wrap f fc = (let (r, pa) = f (fc_array fc) in (map_err wrap r, fc\<lparr>fc_array := pa\<rparr>))"

definition fork_choice_new ::
  "fc_spec \<Rightarrow> slot \<Rightarrow> slot \<Rightarrow> hash256 \<Rightarrow> checkpoint \<Rightarrow> checkpoint \<Rightarrow> attestation_shuffling_id \<Rightarrow> attestation_shuffling_id \<Rightarrow>
   execution_status \<Rightarrow> execution_block_hash option \<Rightarrow> execution_block_hash option \<Rightarrow> u64 \<Rightarrow>
   (fork_choice, fork_choice_error) result" where
  "fork_choice_new spec current_slot finalized_block_slot finalized_block_state_root justified finalized_cp
     current_shuffling next_shuffling status payload_parent_hash payload_block_hash proposer =
     (let pa = \<lparr>prune_threshold = DEFAULT_PRUNE_THRESHOLD, nodes = [], indices = [], children = []\<rparr>;
          b = \<lparr>b_slot = finalized_block_slot, b_root = cp_root finalized_cp, b_parent_root = None,
               b_state_root = finalized_block_state_root, b_target_root = cp_root finalized_cp,
               b_current_epoch_shuffling_id = current_shuffling, b_next_epoch_shuffling_id = next_shuffling,
               b_justified_checkpoint = justified, b_finalized_checkpoint = finalized_cp,
               b_execution_status = status,
               b_unrealized_justified_checkpoint = Some justified,
               b_unrealized_finalized_checkpoint = Some finalized_cp,
               b_execution_payload_parent_hash = payload_parent_hash,
               b_execution_payload_block_hash = payload_block_hash,
               b_proposer_index = Some proposer, b_payload_received = False\<rparr>
      in case on_block spec b current_slot 0 pa of
           (Inl e, _) \<Rightarrow> Err (AddFinalizedBlockFailed e)
         | (Inr _, pa') \<Rightarrow>
             Ok \<lparr>fc_array = pa', fc_votes = [],
                 fc_balances = \<lparr>effective_balances = [], total_effective_balance = 0, num_active_validators = 0,
                                slashed_balances = []\<rparr>\<rparr>)"

definition fc_on_payload_envelope_received :: "hash256 \<Rightarrow> execution_status \<Rightarrow> (fork_choice, unit, fork_choice_error) op" where
  "fc_on_payload_envelope_received root status = on_array ExecutionPayloadFailed (on_payload_envelope_received root status)"

definition process_execution_payload_validation :: "execution_block_hash \<Rightarrow> (fork_choice, unit, fork_choice_error) op" where
  "process_execution_payload_validation h = on_array ValidPayloadFailed (propagate_execution_payload_validation h)"

definition process_execution_payload_invalidation ::
  "fc_spec \<Rightarrow> invalidation_operation \<Rightarrow> checkpoint \<Rightarrow> (fork_choice, unit, fork_choice_error) op" where
  "process_execution_payload_invalidation spec operation finalized_cp =
     on_array InvalidPayloadFailed (propagate_execution_payload_invalidation spec operation finalized_cp)"

definition process_attestation ::
  "nat \<Rightarrow> hash256 \<Rightarrow> slot \<Rightarrow> bool \<Rightarrow> (fork_choice, unit, fork_choice_error) op" where
  "process_attestation validator_index block_root attestation_slot payload_present fc =
     (let votes = ensure default_vote (fc_votes fc) validator_index;
          vote = votes ! validator_index
      in if attestation_slot > v_next_slot vote \<or> vote = default_vote
         then (Ok (), fc\<lparr>fc_votes := votes[validator_index := vote\<lparr>v_next_root := block_root,
                 v_next_slot := attestation_slot, v_next_payload_present := payload_present\<rparr>]\<rparr>)
         else (Ok (), fc\<lparr>fc_votes := votes\<rparr>))"

definition set_payload_votes ::
  "fc_spec \<Rightarrow> nat \<Rightarrow> bool \<Rightarrow> bool \<Rightarrow> proto_node_v29 \<Rightarrow> (unit, fork_choice_error) result \<times> proto_node_v29" where
  "set_payload_votes spec ptc_index payload_present blob_data_available n =
     (case bitvector_set spec (pn_payload_timeliness_votes n) ptc_index payload_present of
        None \<Rightarrow> (Err PayloadAttestationSetFailed, n)
      | Some tv \<Rightarrow>
          (let n = n\<lparr>pn_payload_timeliness_votes := tv\<rparr>
           in case bitvector_set spec (pn_payload_data_availability_votes n) ptc_index blob_data_available of
                None \<Rightarrow> (Err PayloadAttestationSetFailed, n)
              | Some av \<Rightarrow>
                  (let n = n\<lparr>pn_payload_data_availability_votes := av\<rparr>
                   in case bitvector_set spec (pn_ptc_participation n) ptc_index True of
                        None \<Rightarrow> (Err PayloadAttestationSetFailed, n)
                      | Some p \<Rightarrow> (Ok (), n\<lparr>pn_ptc_participation := p\<rparr>))))"

definition process_payload_attestation ::
  "fc_spec \<Rightarrow> hash256 \<Rightarrow> nat \<Rightarrow> bool \<Rightarrow> bool \<Rightarrow> (fork_choice, unit, fork_choice_error) op" where
  "process_payload_attestation spec block_root ptc_index payload_present blob_data_available fc =
     (let pa = fc_array fc in
      case map_of (indices pa) block_root of
        None \<Rightarrow> (Err (PayloadAttestationUnknownRoot block_root), fc)
      | Some i \<Rightarrow>
          (case vec_get (nodes pa) i of
             None \<Rightarrow> (Err (PayloadAttestationInvalidIndex i), fc)
           | Some (V17 _) \<Rightarrow> (Err (PayloadAttestationNotV29 block_root), fc)
           | Some (V29 n) \<Rightarrow>
               (let (r, n') = set_payload_votes spec ptc_index payload_present blob_data_available n
                in (r, fc\<lparr>fc_array := pa\<lparr>nodes := (nodes pa)[i := V29 n']\<rparr>\<rparr>))))"

definition process_block :: "fc_spec \<Rightarrow> block \<Rightarrow> slot \<Rightarrow> nat \<Rightarrow> (fork_choice, unit, fork_choice_error) op" where
  "process_block spec b current_slot time_into_slot fc =
     (if b_parent_root b = None then (Err MissingParentRoot, fc)
      else on_array ProcessBlockError (on_block spec b current_slot time_into_slot) fc)"

definition fc_maybe_prune :: "hash256 \<Rightarrow> (fork_choice, unit, fork_choice_error) op" where
  "fc_maybe_prune root = on_array MaybePruneFailed (maybe_prune root)"

definition set_prune_threshold :: "nat \<Rightarrow> fork_choice \<Rightarrow> fork_choice" where
  "set_prune_threshold n fc = fc\<lparr>fc_array := (fc_array fc)\<lparr>prune_threshold := n\<rparr>\<rparr>"

text \<open>One round of vote accounting: the deltas of the votes, applied to the nodes.\<close>

definition score_round ::
  "(proto_error \<Rightarrow> fork_choice_error) \<Rightarrow> (proto_error \<Rightarrow> fork_choice_error) \<Rightarrow> u64 list \<Rightarrow> u64 list \<Rightarrow> u64 set \<Rightarrow>
   (fork_choice, unit, fork_choice_error) op" where
  "score_round deltas_failed scores_failed old_balances new_balances equivocating_indices fc =
     (let pa = fc_array fc;
          (r, votes) = compute_deltas (indices pa) (map node_slot (nodes pa)) old_balances new_balances
            equivocating_indices (fc_votes fc);
          fc = fc\<lparr>fc_votes := votes\<rparr>
      in case r of
           Inl e \<Rightarrow> (Err (deltas_failed e), fc)
         | Inr deltas \<Rightarrow> on_array scores_failed (apply_score_changes deltas) fc)"

definition fc_find_head ::
  "fc_spec \<Rightarrow> checkpoint \<Rightarrow> checkpoint \<Rightarrow> justified_balances \<Rightarrow> hash256 \<Rightarrow> u64 set \<Rightarrow> slot \<Rightarrow>
   (fork_choice, hash256 \<times> payload_status, fork_choice_error) op" where
  "fc_find_head spec justified finalized_cp new_balances proposer_boost_root equivocating_indices current_slot fc =
     op_bind (score_round ComputeDeltasFailed ApplyScoreChangesFailed (effective_balances (fc_balances fc)) (effective_balances new_balances) equivocating_indices)
       (\<lambda>_ fc.
          let fc = fc\<lparr>fc_balances := new_balances\<rparr>
          in (map_err FindHeadFailed (find_head spec (fc_array fc) (cp_root justified) current_slot justified
                finalized_cp proposer_boost_root new_balances), fc)) fc"

definition contains_invalid_payloads :: "fork_choice \<Rightarrow> bool" where
  "contains_invalid_payloads fc =
     list_ex (\<lambda>node. status_is_invalid (node_execution_status_of node)) (nodes (fc_array fc))"

definition forget_verdict :: "proto_node \<Rightarrow> proto_node" where
  "forget_verdict node =
     (case node_execution_status_of node of
        Valid h \<Rightarrow> set_execution_status (Optimistic h) node
      | Invalid h \<Rightarrow> set_execution_status (Optimistic h) node
      | Optimistic h \<Rightarrow> set_execution_status (Optimistic h) node
      | Irrelevant _ \<Rightarrow> node
      | NotYetRevealed _ \<Rightarrow> node)"

fun clear_weights :: "proto_node \<Rightarrow> proto_node" where
  "clear_weights (V17 n) = V17 (n\<lparr>pn_weight := 0\<rparr>)"
| "clear_weights (V29 n) = V29 (n\<lparr>pn_weight := 0, pn_full_payload_weight := 0, pn_empty_payload_weight := 0\<rparr>)"

definition set_all_blocks_to_optimistic :: "u64 set \<Rightarrow> (fork_choice, unit, fork_choice_error) op" where
  "set_all_blocks_to_optimistic equivocating_indices fc =
     (let balances = effective_balances (fc_balances fc) in
      op_bind (score_round SettleComputeDeltasFailed SettleApplyScoreChangesFailed balances balances equivocating_indices)
        (\<lambda>_ fc. score_round ReplayComputeDeltasFailed ReplayApplyScoreChangesFailed [] balances equivocating_indices
           (fc\<lparr>fc_array := (fc_array fc)\<lparr>nodes := map (clear_weights \<circ> forget_verdict) (nodes (fc_array fc))\<rparr>\<rparr>)) fc)"

section \<open>Re-orgs by the proposer\<close>

datatype do_not_reorg =
    MissingHeadOrParentNode
  | MissingHeadFinalizedCheckpoint
  | ParentDistance
  | HeadDistance
  | JustificationAndFinalizationNotCompetitive
  | ChainNotFinalizing u64
  | HeadNotWeak u64 u64
  | ParentNotStrong u64 u64
  | HeadNotLate
  | NotProposing
  | ReOrgsDisabled

datatype 'e proposer_head_error = DoNotReOrg do_not_reorg | ProposerHeadFailed 'e

record proposer_head_info =
  phi_head_node :: proto_node
  phi_parent_node :: proto_node
  phi_head_weight_threshold :: u64
  phi_parent_weight_threshold :: u64
  phi_current_slot :: slot

definition get_proposer_head_info ::
  "fc_spec \<Rightarrow> fork_choice \<Rightarrow> slot \<Rightarrow> hash256 \<Rightarrow> justified_balances \<Rightarrow>
   (proposer_head_info, proto_error proposer_head_error) result" where
  "get_proposer_head_info spec fc current_slot canonical_head balances =
     (case take 2 (iter_nodes (fc_array fc) canonical_head) of
        [head_node, parent_node] \<Rightarrow>
          (let parent_slot = node_slot parent_node; head_slot = node_slot head_node;
               re_org_block_slot = saturating_add head_slot 1;
               proposal_epoch = slot_epoch spec re_org_block_slot
           in bindE (ok_or (DoNotReOrg MissingHeadFinalizedCheckpoint) (node_unrealized_finalized head_node)) (\<lambda>finalized_cp.
              let epochs_since_finalization = saturating_sub proposal_epoch (cp_epoch finalized_cp)
              in if epochs_since_finalization > reorg_max_epochs_since_finalization spec
                 then Err (DoNotReOrg (ChainNotFinalizing epochs_since_finalization))
                 else if saturating_add parent_slot 1 \<noteq> head_slot then Err (DoNotReOrg ParentDistance)
                 else if \<not> (node_unrealized_justified parent_node = node_unrealized_justified head_node \<and>
                          node_unrealized_finalized parent_node = node_unrealized_finalized head_node)
                 then Err (DoNotReOrg JustificationAndFinalizationNotCompetitive)
                 else bindE (ok_or (ProposerHeadFailed ReOrgThresholdOverflow)
                        (calculate_committee_fraction spec balances (reorg_head_weight_threshold spec))) (\<lambda>head_threshold.
                      bindE (ok_or (ProposerHeadFailed ReOrgThresholdOverflow)
                        (calculate_committee_fraction spec balances (reorg_parent_weight_threshold spec))) (\<lambda>parent_threshold.
                      Ok \<lparr>phi_head_node = head_node, phi_parent_node = parent_node,
                          phi_head_weight_threshold = head_threshold,
                          phi_parent_weight_threshold = parent_threshold, phi_current_slot = current_slot\<rparr>))))
      | _ \<Rightarrow> Err (DoNotReOrg MissingHeadOrParentNode))"

definition get_proposer_head ::
  "fc_spec \<Rightarrow> fork_choice \<Rightarrow> slot \<Rightarrow> hash256 \<Rightarrow> justified_balances \<Rightarrow>
   (proposer_head_info, proto_error proposer_head_error) result" where
  "get_proposer_head spec fc current_slot canonical_head balances =
     bindE (get_proposer_head_info spec fc current_slot canonical_head balances) (\<lambda>info.
       let head_slot_ok = (saturating_add (node_slot (phi_head_node info)) 1 = current_slot);
           head_weight = node_weight (phi_head_node info);
           parent_pending_weight = attestation_score (phi_parent_node info) Pending
       in if \<not> head_slot_ok then Err (DoNotReOrg HeadDistance)
          else if \<not> head_weight < phi_head_weight_threshold info
          then Err (DoNotReOrg (HeadNotWeak head_weight (phi_head_weight_threshold info)))
          else if \<not> parent_pending_weight > phi_parent_weight_threshold info
          then Err (DoNotReOrg (ParentNotStrong parent_pending_weight (phi_parent_weight_threshold info)))
          else Ok info)"

section \<open>Queries\<close>

definition contains_block :: "fork_choice \<Rightarrow> hash256 \<Rightarrow> bool" where
  "contains_block fc root = (map_of (indices (fc_array fc)) root \<noteq> None)"

fun node_payload_hashes :: "proto_node \<Rightarrow> execution_block_hash option \<times> execution_block_hash option" where
  "node_payload_hashes (V17 _) = (None, None)"
| "node_payload_hashes (V29 n) = (Some (pn_execution_payload_parent_hash n), Some (pn_execution_payload_block_hash n))"

fun node_shuffling_ids :: "proto_node \<Rightarrow> attestation_shuffling_id \<times> attestation_shuffling_id" where
  "node_shuffling_ids (V17 n) = (pn_current_epoch_shuffling_id n, pn_next_epoch_shuffling_id n)"
| "node_shuffling_ids (V29 n) = (pn_current_epoch_shuffling_id n, pn_next_epoch_shuffling_id n)"

fun node_state_and_target :: "proto_node \<Rightarrow> hash256 \<times> hash256" where
  "node_state_and_target (V17 n) = (pn_state_root n, pn_target_root n)"
| "node_state_and_target (V29 n) = (pn_state_root n, pn_target_root n)"

definition proto_node_to_block :: "fork_choice \<Rightarrow> proto_node \<Rightarrow> block" where
  "proto_node_to_block fc node =
     \<lparr>b_slot = node_slot node, b_root = node_root node,
      b_parent_root = map_option node_root (get_parent (fc_array fc) node),
      b_state_root = fst (node_state_and_target node), b_target_root = snd (node_state_and_target node),
      b_current_epoch_shuffling_id = fst (node_shuffling_ids node),
      b_next_epoch_shuffling_id = snd (node_shuffling_ids node),
      b_justified_checkpoint = node_justified_checkpoint node,
      b_finalized_checkpoint = node_finalized_checkpoint node,
      b_execution_status = node_execution_status_of node,
      b_unrealized_justified_checkpoint = node_unrealized_justified node,
      b_unrealized_finalized_checkpoint = node_unrealized_finalized node,
      b_execution_payload_parent_hash = fst (node_payload_hashes node),
      b_execution_payload_block_hash = snd (node_payload_hashes node),
      b_proposer_index = node_proposer_index node,
      b_payload_received = (case node_payload_received node of None \<Rightarrow> False | Some r \<Rightarrow> r)\<rparr>"

definition fc_get_block :: "fork_choice \<Rightarrow> hash256 \<Rightarrow> block option" where
  "fc_get_block fc root = map_option (proto_node_to_block fc) (get_block (fc_array fc) root)"

definition get_children :: "fork_choice \<Rightarrow> hash256 \<Rightarrow> block list" where
  "get_children fc root =
     (case map_of (indices (fc_array fc)) root of
        None \<Rightarrow> []
      | Some i \<Rightarrow>
          (case vec_get (children (fc_array fc)) i of
             None \<Rightarrow> []
           | Some cs \<Rightarrow> map (proto_node_to_block fc) (List.map_filter (vec_get (nodes (fc_array fc))) cs)))"

definition fc_should_build_on_full ::
  "fc_spec \<Rightarrow> fork_choice \<Rightarrow> hash256 \<Rightarrow> payload_status \<Rightarrow> slot \<Rightarrow> (bool, fork_choice_error) result" where
  "fc_should_build_on_full spec fc block_root status current_slot =
     bindE (ok_or (UnknownBlockRoot block_root) (map_of (indices (fc_array fc)) block_root)) (\<lambda>i.
     bindE (ok_or (MissingNodeAt i) (vec_get (nodes (fc_array fc)) i)) (\<lambda>node.
       map_err BuildFailed (should_build_on_full spec
         \<lparr>fc_root = node_root node, fc_proto_node_index = i, fc_payload_status = status\<rparr> node current_slot)))"

definition fc_should_extend_payload ::
  "fc_spec \<Rightarrow> fork_choice \<Rightarrow> hash256 \<Rightarrow> slot \<Rightarrow> hash256 \<Rightarrow> (bool, fork_choice_error) result" where
  "fc_should_extend_payload spec fc block_root current_slot proposer_boost_root =
     bindE (ok_or (UnknownBlockRoot block_root) (map_of (indices (fc_array fc)) block_root)) (\<lambda>i.
     bindE (ok_or (MissingNodeAt i) (vec_get (nodes (fc_array fc)) i)) (\<lambda>node.
       map_err BuildFailed (should_extend_payload spec (fc_array fc)
         \<lparr>fc_root = node_root node, fc_proto_node_index = i,
          fc_payload_status = child_side (get_parent_payload_status node)\<rparr> node current_slot proposer_boost_root)))"

definition supported_node :: "fork_choice \<Rightarrow> hash256 \<Rightarrow> slot \<Rightarrow> bool \<Rightarrow> (hash256 \<times> payload_status) option" where
  "supported_node fc block_root vote_slot payload_present =
     (case get_block (fc_array fc) block_root of
        None \<Rightarrow> None
      | Some node \<Rightarrow> Some (block_root, from_vote vote_slot payload_present (node_slot node)))"

definition is_payload_received :: "fork_choice \<Rightarrow> hash256 \<Rightarrow> bool" where
  "is_payload_received fc root =
     (case get_block (fc_array fc) root of
        None \<Rightarrow> False
      | Some node \<Rightarrow> (case node_payload_received node of None \<Rightarrow> False | Some r \<Rightarrow> r))"

definition ptc_votes_payload_timely :: "fc_spec \<Rightarrow> fork_choice \<Rightarrow> hash256 \<Rightarrow> bool" where
  "ptc_votes_payload_timely spec fc root =
     (case get_block (fc_array fc) root of
        None \<Rightarrow> False
      | Some node \<Rightarrow> (case ptc_votes_timeliness spec node True of Inl _ \<Rightarrow> False | Inr r \<Rightarrow> r))"

definition ptc_votes_data_available :: "fc_spec \<Rightarrow> fork_choice \<Rightarrow> hash256 \<Rightarrow> bool" where
  "ptc_votes_data_available spec fc root =
     (case get_block (fc_array fc) root of
        None \<Rightarrow> False
      | Some node \<Rightarrow> (case ptc_votes_data_availability spec node True of Inl _ \<Rightarrow> False | Inr r \<Rightarrow> r))"

definition block_weight :: "fork_choice \<Rightarrow> hash256 \<Rightarrow> u64 option" where
  "block_weight fc root = map_option node_weight (get_block (fc_array fc) root)"

definition latest_message_of :: "fork_choice \<Rightarrow> nat \<Rightarrow> latest_message option" where
  "latest_message_of fc validator_index =
     (case vec_get (fc_votes fc) validator_index of
        None \<Rightarrow> None
      | Some vote \<Rightarrow>
          if vote = default_vote then None
          else Some \<lparr>lm_slot = v_next_slot vote, lm_root = v_next_root vote,
                     lm_payload_present = v_next_payload_present vote\<rparr>)"

section \<open>The stored container\<close>

record vote_tracker_v28 =
  v28_current_root :: hash256
  v28_next_root :: hash256
  v28_next_epoch :: epoch

record ssz_container_v29 =
  c29_votes :: "vote_tracker list"
  c29_prune_threshold :: nat
  c29_nodes :: "proto_node list"
  c29_indices :: "(hash256 \<times> nat) list"

record proposer_boost =
  pb_root :: hash256
  pb_score :: u64

record ssz_container_v28 =
  c28_votes :: "vote_tracker_v28 list"
  c28_prune_threshold :: nat
  c28_justified_checkpoint :: checkpoint
  c28_finalized_checkpoint :: checkpoint
  c28_nodes :: "proto_node_v17 list"
  c28_indices :: "(hash256 \<times> nat) list"
  c28_previous_proposer_boost :: proposer_boost

definition vote_from_v28 :: "vote_tracker_v28 \<Rightarrow> vote_tracker" where
  "vote_from_v28 v = \<lparr>v_current_root = v28_current_root v, v_next_root = v28_next_root v, v_current_slot = 0,
     v_next_slot = 0, v_current_payload_present = False, v_next_payload_present = False\<rparr>"

definition vote_to_v28 :: "vote_tracker \<Rightarrow> vote_tracker_v28" where
  "vote_to_v28 v = \<lparr>v28_current_root = v_current_root v, v28_next_root = v_next_root v, v28_next_epoch = 0\<rparr>"

definition from_proto_array :: "fork_choice \<Rightarrow> ssz_container_v29" where
  "from_proto_array fc =
     \<lparr>c29_votes = fc_votes fc, c29_prune_threshold = prune_threshold (fc_array fc),
      c29_nodes = nodes (fc_array fc), c29_indices = indices (fc_array fc)\<rparr>"

text \<open>Collecting pairs into a map: a later pair replaces an earlier one.\<close>

definition collect_map :: "(hash256 \<times> nat) list \<Rightarrow> (hash256 \<times> nat) list" where
  "collect_map ps = foldl (\<lambda>m (k, v). AList.update k v m) [] ps"

definition try_from_container :: "ssz_container_v29 \<Rightarrow> justified_balances \<Rightarrow> (fork_choice, proto_error) result" where
  "try_from_container c balances =
     (let pa = \<lparr>prune_threshold = c29_prune_threshold c, nodes = c29_nodes c,
                indices = collect_map (c29_indices c), children = []\<rparr>;
          (r, pa) = rebuild_children_index pa
      in bindE r (\<lambda>_. Ok \<lparr>fc_array = pa, fc_votes = c29_votes c, fc_balances = balances\<rparr>))"

definition container_from_v28 :: "ssz_container_v28 \<Rightarrow> ssz_container_v29" where
  "container_from_v28 c =
     \<lparr>c29_votes = map vote_from_v28 (c28_votes c), c29_prune_threshold = c28_prune_threshold c,
      c29_nodes = map (\<lambda>n. V17 (n\<lparr>pn_best_child := None, pn_best_descendant := None\<rparr>)) (c28_nodes c),
      c29_indices = c28_indices c\<rparr>"

definition container_to_v28 :: "ssz_container_v29 \<Rightarrow> ssz_container_v28" where
  "container_to_v28 c =
     \<lparr>c28_votes = map vote_to_v28 (c29_votes c), c28_prune_threshold = c29_prune_threshold c,
      c28_justified_checkpoint = \<lparr>cp_epoch = 0, cp_root = 0\<rparr>,
      c28_finalized_checkpoint = \<lparr>cp_epoch = 0, cp_root = 0\<rparr>,
      c28_nodes = List.map_filter (\<lambda>n. case n of V17 v17 \<Rightarrow> Some v17 | V29 _ \<Rightarrow> None) (c29_nodes c),
      c28_indices = c29_indices c,
      c28_previous_proposer_boost = \<lparr>pb_root = 0, pb_score = 0\<rparr>\<rparr>"

end
