(* ===== verification/Proto_Invariant.thy ===== *)
theory Proto_Invariant
  imports Proto_Votes
begin

text \<open>
  The invariant of the node array - parents come before their children, the index map names every node
  by its root, and the cached children index is the one of the parent links - and that the operations
  of \<open>Proto_Array\<close> keep it. Most operations change neither links nor roots: they keep the shape of the
  tree.
\<close>

declare validation_walk.simps [simp del] invalidate_loop.simps(3) [simp del] executed_path.simps [simp del]
  ancestor_walk.simps [simp del] head_loop.simps [simp del] leaf_loop.simps(3) [simp del] inherited_walk.simps [simp del]

section \<open>Well-formed arrays\<close>

definition wf_array :: "proto_array \<Rightarrow> bool" where
  "wf_array pa \<longleftrightarrow>
     length (children pa) = length (nodes pa) \<and>
     (\<forall>i p. i < length (nodes pa) \<longrightarrow> node_parent (nodes pa ! i) = Some p \<longrightarrow> p < i) \<and>
     distinct (map node_root (nodes pa)) \<and>
     distinct (map fst (indices pa)) \<and>
     (\<forall>r i. map_of (indices pa) r = Some i \<longleftrightarrow> i < length (nodes pa) \<and> node_root (nodes pa ! i) = r) \<and>
     (\<forall>p < length (nodes pa).
        children pa ! p = filter (\<lambda>i. node_parent (nodes pa ! i) = Some p) [0..<length (nodes pa)])"

lemma wf_children_length: "wf_array pa \<Longrightarrow> length (children pa) = length (nodes pa)"
  by (simp add: wf_array_def)

lemma wf_parent: "wf_array pa \<Longrightarrow> i < length (nodes pa) \<Longrightarrow> node_parent (nodes pa ! i) = Some p \<Longrightarrow> p < i"
  by (simp add: wf_array_def)

lemma wf_lookup: "wf_array pa \<Longrightarrow> map_of (indices pa) r = Some i \<longleftrightarrow> i < length (nodes pa) \<and> node_root (nodes pa ! i) = r"
  by (simp add: wf_array_def)

lemma wf_children:
  "wf_array pa \<Longrightarrow> p < length (nodes pa) \<Longrightarrow>
   children pa ! p = filter (\<lambda>i. node_parent (nodes pa ! i) = Some p) [0..<length (nodes pa)]"
  by (simp add: wf_array_def)

lemma wf_child:
  "wf_array pa \<Longrightarrow> p < length (nodes pa) \<Longrightarrow>
   c \<in> set (children pa ! p) \<longleftrightarrow> c < length (nodes pa) \<and> node_parent (nodes pa ! c) = Some p"
  by (auto simp: wf_children)

lemma wf_root_eq:
  "wf_array pa \<Longrightarrow> i < length (nodes pa) \<Longrightarrow> j < length (nodes pa) \<Longrightarrow>
   node_root (nodes pa ! i) = node_root (nodes pa ! j) \<longleftrightarrow> i = j"
  by (auto simp: wf_array_def distinct_conv_nth)

lemma wf_indices_length:
  assumes "wf_array pa"
  shows "length (indices pa) = length (nodes pa)"
proof -
  have "set (map fst (indices pa)) = node_root ` set (nodes pa)"
  proof -
    have "r \<in> fst ` set (indices pa) \<longleftrightarrow> r \<in> node_root ` set (nodes pa)" for r
    proof -
      have "r \<in> fst ` set (indices pa) \<longleftrightarrow> (\<exists>i. map_of (indices pa) r = Some i)"
        by (metis domIff dom_map_of_conv_image_fst not_None_eq)
      also have "\<dots> \<longleftrightarrow> r \<in> node_root ` set (nodes pa)"
        by (auto simp: wf_lookup [OF assms] set_conv_nth)
      finally show ?thesis .
    qed
    then show ?thesis by auto
  qed
  moreover have "distinct (map fst (indices pa))" "distinct (map node_root (nodes pa))"
    using assms by (auto simp: wf_array_def)
  ultimately show ?thesis by (metis distinct_card length_map set_map)
qed

subsection \<open>Operations that keep the shape of the tree\<close>

text \<open>What the structure of the tree depends on; weights, verdicts and payload votes are left out.\<close>

definition node_shape where
  "node_shape n = (node_root n, node_parent n, node_slot n, get_parent_payload_status n, is_gloas n,
     node_justified_checkpoint n, node_finalized_checkpoint n, node_unrealized_justified n, node_unrealized_finalized n)"

definition same_shape :: "proto_array \<Rightarrow> proto_array \<Rightarrow> bool" where
  "same_shape pa pa' \<longleftrightarrow> map node_shape (nodes pa) = map node_shape (nodes pa') \<and> indices pa = indices pa' \<and>
     children pa = children pa' \<and> prune_threshold pa = prune_threshold pa'"

lemma same_shape_refl [simp]: "same_shape pa pa"
  by (simp add: same_shape_def)

lemma same_shape_trans: "same_shape a b \<Longrightarrow> same_shape b c \<Longrightarrow> same_shape a c"
  by (simp add: same_shape_def)

lemma same_shape_length: "same_shape pa pa' \<Longrightarrow> length (nodes pa') = length (nodes pa)"
  by (metis length_map same_shape_def)

lemma same_shape_node:
  assumes "same_shape pa pa'" "i < length (nodes pa)"
  shows "node_shape (nodes pa' ! i) = node_shape (nodes pa ! i)"
  using assms same_shape_length [OF assms(1)] by (metis nth_map same_shape_def)

lemma node_shape_fields:
  assumes "node_shape n = node_shape m"
  shows "node_root n = node_root m" "node_parent n = node_parent m" "node_slot n = node_slot m"
    "get_parent_payload_status n = get_parent_payload_status m" "is_gloas n = is_gloas m"
    "node_justified_checkpoint n = node_justified_checkpoint m" "node_finalized_checkpoint n = node_finalized_checkpoint m"
    "node_unrealized_justified n = node_unrealized_justified m" "node_unrealized_finalized n = node_unrealized_finalized m"
  using assms by (simp_all add: node_shape_def)

lemmas same_shape_fields = node_shape_fields [OF same_shape_node]

lemma same_shape_wf:
  assumes "same_shape pa pa'" "wf_array pa"
  shows "wf_array pa'"
proof -
  note len = same_shape_length [OF assms(1)]
  have roots: "map node_root (nodes pa') = map node_root (nodes pa)"
    by (rule nth_equalityI) (simp_all add: len same_shape_fields [OF assms(1)])
  have ch: "filter (\<lambda>i. node_parent (nodes pa' ! i) = Some p) [0..<length (nodes pa)] =
      filter (\<lambda>i. node_parent (nodes pa ! i) = Some p) [0..<length (nodes pa)]" for p
    by (rule filter_cong) (simp_all add: same_shape_fields [OF assms(1)])
  have same: "indices pa' = indices pa" "children pa' = children pa" using assms(1) by (simp_all add: same_shape_def)
  show ?thesis
    using assms(2) unfolding wf_array_def same len roots ch
    by (simp add: same_shape_fields [OF assms(1)] cong: conj_cong)
qed

lemma node_shape_set_execution_status [simp]: "node_shape (set_execution_status s n) = node_shape n"
  by (cases n) (simp_all add: node_shape_def)

lemma same_shape_update:
  "node_shape n' = node_shape (nodes pa ! i) \<Longrightarrow> same_shape pa (pa\<lparr>nodes := (nodes pa)[i := n']\<rparr>)"
  by (cases "i < length (nodes pa)") (simp_all add: same_shape_def map_update list_update_beyond, metis list_update_id nth_map)

lemma same_shape_set_status_at: "same_shape pa (set_status_at i s pa)"
  by (simp add: set_status_at_def same_shape_update)

text \<open>
  What a verdict may become: the verdicts on a payload are final, and only a payload that is optimistic
  or not revealed yet may get one.
\<close>

fun verdict_moves :: "execution_status \<Rightarrow> execution_status \<Rightarrow> bool" where
  "verdict_moves (Optimistic _) s = True"
| "verdict_moves (NotYetRevealed _) s = True"
| "verdict_moves (Valid h) s = (s = Valid h)"
| "verdict_moves (Invalid h) s = (s = Invalid h)"
| "verdict_moves (Irrelevant b) s = (s = Irrelevant b)"

text \<open>
  A relation between the array before and after an operation that holds for every single change of a
  node: a verdict that may move, or any change that keeps the shape and the verdict of the node. It then
  holds for the operations on verdicts and scores.
\<close>

locale array_relation =
  fixes R :: "proto_array \<Rightarrow> proto_array \<Rightarrow> bool"
  assumes related_refl: "R pa pa"
    and related_trans: "R a b \<Longrightarrow> R b c \<Longrightarrow> R a c"
    and related_verdict: "i < length (nodes pa) \<Longrightarrow> verdict_moves (node_execution_status_of (nodes pa ! i)) s \<Longrightarrow>
      R pa (set_status_at i s pa)"
    and related_update: "i < length (nodes pa) \<Longrightarrow> node_shape n = node_shape (nodes pa ! i) \<Longrightarrow>
      node_execution_status_of n = node_execution_status_of (nodes pa ! i) \<Longrightarrow>
      R pa (pa\<lparr>nodes := (nodes pa)[i := n]\<rparr>)"
begin

lemma validation_walk_related: "R pa (snd (validation_walk fuel i s pa))"
proof (induction fuel arbitrary: i s pa)
  case (Suc fuel)
  show ?case
  proof (cases "i < length (nodes pa)")
    case True
    have "R pa (set_status_at i st pa) \<and> R pa (snd (validation_walk fuel p t (set_status_at i st pa)))"
      if "verdict_moves (node_execution_status_of (nodes pa ! i)) st" for p t st
      using related_verdict [OF True that] related_trans [OF _ Suc] by blast
    with True Suc related_refl show ?thesis
      by (auto simp: validation_walk.simps Let_def split: option.splits execution_status.splits)
  qed (simp add: validation_walk.simps related_refl vec_get_def)
qed (simp add: validation_walk.simps related_refl)

lemma op_for_each_related:
  assumes "\<And>x pa. x \<in> set xs \<Longrightarrow> R pa (snd (f x pa))"
  shows "R pa (snd (op_for_each f xs pa))"
proof -
  have "op_keeps (R pa) (op_for_each f xs)"
    using assms related_trans by (intro op_keeps_for_each op_keepsI) blast
  with related_refl show ?thesis by (simp add: op_keeps_def)
qed

lemma validation_related: "R pa (snd (propagate_execution_payload_validation h pa))"
  unfolding propagate_execution_payload_validation_def
  by (rule op_for_each_related)
    (auto simp: validation_step_def propagate_execution_payload_validation_from_def validation_walk_related related_refl
      split: option.splits)

lemma envelope_related: "R pa (snd (on_payload_envelope_received root s pa))"
proof (cases "map_of (indices pa) root")
  case (Some i)
  show ?thesis
  proof (cases "vec_get (nodes pa) i")
    case node: (Some n)
    then have i: "i < length (nodes pa)" "n = nodes pa ! i" by (auto simp: vec_get_def split: if_splits)
    show ?thesis
    proof (cases n)
      case (V29 v)
      let ?pa = "pa\<lparr>nodes := (nodes pa)[i := V29 (v\<lparr>pn_payload_received := True\<rparr>)]\<rparr>"
      have step: "R pa ?pa"
        using V29 i by (intro related_update) (auto simp: node_shape_def)
      have "R pa (snd (validation_walk f j t ?pa))" for f j t
        by (rule related_trans [OF step validation_walk_related])
      moreover have "R pa (set_status_at i t ?pa)" if "verdict_moves (pn_execution_status v) t" for t
        using that i by (intro related_trans [OF step related_verdict]) simp_all
      ultimately show ?thesis using step Some node V29
        by (auto simp: on_payload_envelope_received_def propagate_execution_payload_validation_from_def Let_def
            split: execution_status.splits)
    qed (use Some node in \<open>auto simp: on_payload_envelope_received_def related_refl\<close>)
  qed (use Some in \<open>auto simp: on_payload_envelope_received_def related_refl\<close>)
qed (simp add: on_payload_envelope_received_def related_refl)

lemma invalidate_loop_related: "R pa (snd (invalidate_loop fuel d stack pa))"
proof (induction fuel d stack pa rule: invalidate_loop.induct)
  case (3 fuel d i stack pa)
  show ?case
  proof (cases "i < length (nodes pa)")
    case True
    have "R pa (set_status_at i (Invalid h) pa) \<and>
        (\<forall>cs. children_to_invalidate (set_status_at i (Invalid h) pa) d i = Inr cs \<longrightarrow>
          R pa (snd (invalidate_loop fuel d (cs @ stack) (set_status_at i (Invalid h) pa))))"
      if "verdict_moves (node_execution_status_of (nodes pa ! i)) (Invalid h)" for h
      using related_verdict [OF True that] 3 [OF vec_get_nth [OF True] refl] related_trans by blast
    with True related_refl show ?thesis
      by (auto simp: invalidate_loop.simps(3) Let_def split: execution_status.splits sum.splits)
  qed (simp add: invalidate_loop.simps(3) related_refl vec_get_def)
qed (auto simp: related_refl)

lemma invalidation_related: "R pa (snd (propagate_execution_payload_invalidation spec operation cp pa))"
proof -
  have "R q (snd (invalidation_step spec operation cp i q))" for i q
    by (auto simp: invalidation_step_def op_bind_def op_read_def op_return_def invalidate_node_and_descendants_def
        invalidate_loop_related related_refl split: sum.splits option.splits)
  then show ?thesis
    by (auto simp: propagate_execution_payload_invalidation_def Let_def related_refl intro: op_for_each_related)
qed

lemma apply_node_delta_keeps:
  "node_shape (snd (apply_node_delta n d i)) = node_shape n"
  "node_execution_status_of (snd (apply_node_delta n d i)) = node_execution_status_of n"
  by (cases n; auto simp: apply_v17_def apply_v29_def apply_v29_invalid_def apply_v29_viable_def node_shape_def Let_def
      split: prod.splits sum.splits option.splits if_splits)+

lemma score_step_related: "R pa (fst (snd (score_step i (pa, deltas))))"
proof (cases "i < length (nodes pa)")
  case True
  have "R pa (pa\<lparr>nodes := (nodes pa)[i := snd (apply_node_delta (nodes pa ! i) d i)]\<rparr>)" for d
    using True by (rule related_update) (rule apply_node_delta_keeps)+
  then have "apply_node_delta (nodes pa ! i) d i = (r, n') \<Longrightarrow> R pa (pa\<lparr>nodes := (nodes pa)[i := n']\<rparr>)" for d r n'
    by (metis snd_conv)
  with True related_refl show ?thesis
    by (auto simp: score_step_def Let_def split: option.splits sum.splits prod.splits)
qed (simp add: score_step_def related_refl vec_get_def)

lemma apply_score_changes_related: "R pa (snd (apply_score_changes deltas pa))"
proof -
  have "op_keeps (\<lambda>s. R pa (fst s)) (op_for_each score_step xs)" for xs
    by (intro op_keeps_for_each op_keepsI) (metis prod.collapse related_trans score_step_related)
  then have "R pa (fst (snd (op_for_each score_step xs (pa, deltas))))" for xs
    by (simp add: op_keeps_def related_refl)
  then show ?thesis by (auto simp: apply_score_changes_def related_refl split: prod.splits) (metis fst_conv snd_conv)
qed

end

interpretation shape: array_relation same_shape
  using same_shape_trans by unfold_locales (auto intro: same_shape_set_status_at same_shape_update)

lemmas validation_walk_shape = shape.validation_walk_related
lemmas validation_shape = shape.validation_related
lemmas envelope_shape = shape.envelope_related
lemmas invalidate_loop_shape = shape.invalidate_loop_related
lemmas invalidation_shape = shape.invalidation_related
lemmas apply_score_changes_shape = shape.apply_score_changes_related

text \<open>Verdicts that were reached are kept.\<close>

definition verdicts_kept :: "proto_array \<Rightarrow> proto_array \<Rightarrow> bool" where
  "verdicts_kept pa pa' \<longleftrightarrow> length (nodes pa) \<le> length (nodes pa') \<and>
     (\<forall>i < length (nodes pa). node_root (nodes pa' ! i) = node_root (nodes pa ! i) \<and>
        verdict_moves (node_execution_status_of (nodes pa ! i)) (node_execution_status_of (nodes pa' ! i)))"

lemma verdict_moves_refl [simp]: "verdict_moves s s"
  by (cases s) simp_all

lemma verdict_moves_trans: "verdict_moves s t \<Longrightarrow> verdict_moves t u \<Longrightarrow> verdict_moves s u"
  by (cases s) simp_all

lemma set_execution_status_fields [simp]:
  "node_parent (set_execution_status s n) = node_parent n" "node_root (set_execution_status s n) = node_root n"
  "node_execution_status_of (set_execution_status s n) = s"
  by (cases n; simp)+

lemma verdicts_kept_node:
  "verdicts_kept pa pa' \<Longrightarrow> i < length (nodes pa) \<Longrightarrow> i < length (nodes pa') \<and>
     node_root (nodes pa' ! i) = node_root (nodes pa ! i) \<and>
     verdict_moves (node_execution_status_of (nodes pa ! i)) (node_execution_status_of (nodes pa' ! i))"
  by (auto simp: verdicts_kept_def)

lemma verdicts_kept_trans:
  assumes "verdicts_kept a b" "verdicts_kept b c"
  shows "verdicts_kept a c"
proof -
  have "node_root (nodes c ! i) = node_root (nodes a ! i) \<and>
      verdict_moves (node_execution_status_of (nodes a ! i)) (node_execution_status_of (nodes c ! i))"
    if "i < length (nodes a)" for i
    using verdicts_kept_node [OF assms(1) that] verdicts_kept_node [OF assms(2), of i] verdict_moves_trans by metis
  then show ?thesis using assms by (simp add: verdicts_kept_def)
qed

interpretation verdicts: array_relation verdicts_kept
proof
  fix pa a b c :: proto_array
  show "verdicts_kept pa pa" by (simp add: verdicts_kept_def)
  show "verdicts_kept a c" if "verdicts_kept a b" "verdicts_kept b c"
    using that by (rule verdicts_kept_trans)
next
  fix i s n and pa :: proto_array
  assume i: "i < length (nodes pa)"
  show "verdicts_kept pa (set_status_at i s pa)" if "verdict_moves (node_execution_status_of (nodes pa ! i)) s"
    using that i by (auto simp: verdicts_kept_def set_status_at_def nth_list_update)
  show "verdicts_kept pa (pa\<lparr>nodes := (nodes pa)[i := n]\<rparr>)"
    if "node_shape n = node_shape (nodes pa ! i)" "node_execution_status_of n = node_execution_status_of (nodes pa ! i)"
    using that i node_shape_fields(1) [OF that(1)] by (auto simp: verdicts_kept_def nth_list_update)
qed

subsection \<open>Registering a block\<close>

definition add_node :: "proto_node \<Rightarrow> proto_array \<Rightarrow> proto_array" where
  "add_node node pa =
     (let n = length (nodes pa); cs = children pa @ [[]]
      in pa\<lparr>indices := AList.update (node_root node) n (indices pa), nodes := nodes pa @ [node],
            children := (case node_parent node of None \<Rightarrow> cs | Some p \<Rightarrow> cs[p := cs ! p @ [n]])\<rparr>)"

lemma add_node_wf:
  assumes wf: "wf_array pa" and fresh: "map_of (indices pa) (node_root node) = None"
    and parent: "\<And>p. node_parent node = Some p \<Longrightarrow> p < length (nodes pa)"
  shows "wf_array (add_node node pa)"
proof -
  let ?n = "length (nodes pa)" and ?pa = "add_node node pa"
  have nodes: "nodes ?pa = nodes pa @ [node]" and idx: "map_of (indices ?pa) = (map_of (indices pa))(node_root node \<mapsto> ?n)"
    by (auto simp: add_node_def Let_def AList.update_conv' split: option.splits)
  have new: "node_root node \<notin> set (map node_root (nodes pa))"
    using fresh wf_lookup [OF wf] by (auto simp: in_set_conv_nth) (metis option.distinct(1))
  have lookup: "map_of (indices ?pa) r = Some i \<longleftrightarrow> i < Suc ?n \<and> node_root ((nodes pa @ [node]) ! i) = r" for r i
    using wf_lookup [OF wf, of r i] new fresh
    by (auto simp: idx nth_append less_Suc_eq in_set_conv_nth)
  have parents: "p < i" if "i < Suc ?n" "node_parent ((nodes pa @ [node]) ! i) = Some p" for i p
    using that parent wf_parent [OF wf, of i p] by (auto simp: nth_append less_Suc_eq split: if_splits)
  have ch: "children ?pa ! p = filter (\<lambda>i. node_parent ((nodes pa @ [node]) ! i) = Some p) [0..<Suc ?n]" if "p < Suc ?n" for p
  proof -
    have "filter (\<lambda>i. node_parent ((nodes pa @ [node]) ! i) = Some p) [0..<Suc ?n] =
        filter (\<lambda>i. node_parent (nodes pa ! i) = Some p) [0..<?n] @ (if node_parent node = Some p then [?n] else [])"
    proof -
      have "filter (\<lambda>i. node_parent ((nodes pa @ [node]) ! i) = Some p) [0..<?n] =
          filter (\<lambda>i. node_parent (nodes pa ! i) = Some p) [0..<?n]"
        by (rule filter_cong) (simp_all add: nth_append)
      then show ?thesis by simp
    qed
    also have "filter (\<lambda>i. node_parent (nodes pa ! i) = Some p) [0..<?n] = (children pa @ [[]]) ! p"
    proof (cases "p < ?n")
      case True
      then show ?thesis using wf_children [OF wf True] wf_children_length [OF wf] by (simp add: nth_append)
    next
      case False
      with that have "p = ?n" by simp
      moreover have "node_parent (nodes pa ! i) \<noteq> Some ?n" if "i < ?n" for i
        using wf_parent [OF wf that, of ?n] that by auto
      ultimately show ?thesis using wf_children_length [OF wf]
        by (auto simp: filter_empty_conv nth_append)
    qed
    also have "(children pa @ [[]]) ! p @ (if node_parent node = Some p then [?n] else []) = children ?pa ! p"
      using parent wf_children_length [OF wf] that
      by (auto simp: add_node_def Let_def nth_list_update split: option.splits)
    finally show ?thesis by simp
  qed
  have "length (children ?pa) = Suc ?n"
    using wf_children_length [OF wf] by (auto simp: add_node_def Let_def split: option.splits)
  moreover have "distinct (map fst (indices ?pa))"
    using wf by (auto simp: add_node_def Let_def wf_array_def intro: distinct_update)
  moreover have "distinct (map node_root (nodes ?pa))" using wf new by (simp add: nodes wf_array_def)
  ultimately show ?thesis using lookup parents ch unfolding wf_array_def by (simp add: nodes)
qed

lemma node_of_block_shape:
  assumes "node_of_block spec pa b q parent_index s t = Ok node"
  shows "node_root node = b_root b" "node_parent node = parent_index" "node_slot node = b_slot b" "node_weight node = 0"
  using assms by (auto simp: node_of_block_def Let_def split: if_splits)

lemma on_block_cases:
  assumes wf: "wf_array pa"
  obtains (kept) r where "on_block spec b s t pa = (r, pa)" "r \<noteq> Err NoReturn"
  | (added) node where "map_of (indices pa) (b_root b) = None" "node_root node = b_root b"
      "node_slot node = b_slot b" "node_weight node = 0"
      "check_parent_payload pa b node = Ok ()"
      "node_parent node = (case b_parent_root b of None \<Rightarrow> None | Some parent \<Rightarrow> map_of (indices pa) parent)"
      "\<And>p. node_parent node = Some p \<Longrightarrow> p < length (nodes pa)"
      "on_block spec b s t pa =
        (case (node_parent node, b_execution_status b) of
           (Some p, Valid _) \<Rightarrow>
             propagate_execution_payload_validation_from p (get_parent_payload_status node) (add_node node pa)
         | _ \<Rightarrow> (Ok (), add_node node pa))"
proof (cases "map_of (indices pa) (b_root b) \<noteq> None \<or> b_proposer_index b = None")
  case True
  then show thesis
    by (intro kept [of "if map_of (indices pa) (b_root b) \<noteq> None then Ok () else Err OnBlockRequiresProposerIndex"])
      (auto simp: on_block_def)
next
  case False
  then obtain q where q: "map_of (indices pa) (b_root b) = None" "b_proposer_index b = Some q" by auto
  let ?p = "case b_parent_root b of None \<Rightarrow> None | Some parent \<Rightarrow> map_of (indices pa) parent"
  show thesis
  proof (cases "bindE (node_of_block spec pa b q ?p s t) (check_parent_payload pa b)")
    case (Inl e)
    then have "on_block spec b s t pa = (Err e, pa)"
      using q by (auto simp: on_block_def Let_def bindE_def split: sum.splits)
    moreover have "e \<noteq> NoReturn"
      using Inl by (auto simp: bindE_eq_Inl node_of_block_def check_parent_payload_def Let_def ok_or_def
          split: if_splits option.splits proto_node.splits)
    ultimately show thesis by (intro kept) auto
  next
    case (Inr u)
    then obtain node where node: "node_of_block spec pa b q ?p s t = Ok node" "check_parent_payload pa b node = Ok ()" by auto
    note shape = node_of_block_shape [OF node(1)]
    have p: "p < length (nodes pa)" if "node_parent node = Some p" for p
      using that wf_lookup [OF wf] by (auto simp: shape(2) split: option.splits)
    have "on_block spec b s t pa =
        (case (node_parent node, b_execution_status b) of
           (Some p, Valid _) \<Rightarrow>
             propagate_execution_payload_validation_from p (get_parent_payload_status node) (add_node node pa)
         | _ \<Rightarrow> (Ok (), add_node node pa))"
    proof (cases "node_parent node")
      case None
      then show ?thesis using q node
        by (simp add: on_block_def Let_def op_bind_def op_return_def add_node_def)
    next
      case (Some p')
      have "push_child p' (length (nodes pa)) (pa\<lparr>indices := AList.update (node_root node) (length (nodes pa)) (indices pa),
          nodes := nodes pa @ [node], children := children pa @ [[]]\<rparr>) = (Ok (), add_node node pa)"
        using p [OF Some] Some wf_children_length [OF wf] by (simp add: push_child_def add_node_def Let_def)
      then show ?thesis using q node Some
        by (simp add: on_block_def Let_def op_bind_def op_return_def split: execution_status.splits)
    qed
    from added [OF q(1) shape(1,3,4) node(2) shape(2) p this] show thesis .
  qed
qed

lemma on_block_wf:
  assumes "wf_array pa"
  shows "wf_array (snd (on_block spec b s t pa))"
  using assms
proof (cases rule: on_block_cases [where spec = spec and b = b and s = s and t = t])
  case (added node)
  then have "wf_array (add_node node pa)" by (intro add_node_wf [OF assms]) simp_all
  then show ?thesis
    unfolding added(8) using same_shape_wf [OF validation_walk_shape]
    by (auto simp: propagate_execution_payload_validation_from_def split: option.splits execution_status.splits)
qed (use assms in simp)

subsection \<open>Pruning\<close>

lemma shift_all_ok: "(\<And>x. x \<in> set xs \<Longrightarrow> n \<le> x) \<Longrightarrow> shift_all n xs = (True, map (\<lambda>x. x - n) xs)"
proof (induction xs)
  case (Cons x xs)
  have "\<not> x < n" using Cons.prems [of x] by simp
  moreover have "shift_all n xs = (True, map (\<lambda>x. x - n) xs)" using Cons by auto
  ultimately show ?case by simp
qed simp

lemma shift_children_ok:
  "(\<And>c x. c \<in> set cs \<Longrightarrow> x \<in> set c \<Longrightarrow> n \<le> x) \<Longrightarrow> shift_children n cs = (True, map (map (\<lambda>x. x - n)) cs)"
proof (induction cs)
  case (Cons c cs)
  have "shift_all n c = (True, map (\<lambda>x. x - n) c)" using Cons.prems by (intro shift_all_ok) auto
  moreover have "shift_children n cs = (True, map (map (\<lambda>x. x - n)) cs)" using Cons by auto
  ultimately show ?case by simp
qed simp

lemma shift_values_ok:
  assumes "\<And>v. v \<in> snd ` set m \<Longrightarrow> n \<le> v"
  shows "shift_values n m = (True, map (\<lambda>(k, v). (k, v - n)) m)"
proof -
  have "shift_all n (map snd m) = (True, map (\<lambda>x. x - n) (map snd m))"
    using assms by (intro shift_all_ok) auto
  moreover have "zip (map fst m) (map (\<lambda>x. x - n) (map snd m)) = map (\<lambda>(k, v). (k, v - n)) m"
    by (induction m) auto
  ultimately show ?thesis by (simp add: shift_values_def)
qed

lemma remove_indices:
  assumes "n \<le> length (nodes pa)"
  shows "op_for_each remove_index [m..<n] pa =
    (Ok (), pa\<lparr>indices := fold (\<lambda>i. AList.delete (node_root (nodes pa ! i))) [m..<n] (indices pa)\<rparr>)"
  using assms
proof (induction "n - m" arbitrary: m pa)
  case (Suc k)
  then have "m < n" "[m..<n] = m # [Suc m..<n]" by (simp_all add: upt_conv_Cons)
  moreover have "k = n - Suc m" using Suc by simp
  ultimately show ?case using Suc.prems Suc.hyps(1) [of "Suc m" "pa\<lparr>indices := AList.delete (node_root (nodes pa ! m)) (indices pa)\<rparr>"]
    by (simp add: op_bind_def remove_index_def)
qed (simp add: op_return_def)

lemma map_of_fold_delete:
  "map_of (fold (\<lambda>i. AList.delete (f i)) is m) r = (if r \<in> f ` set is then None else map_of m r)"
  by (induction "is" arbitrary: m) (auto simp: AList.delete_conv')

lemma distinct_fold_delete:
  "distinct (map fst m) \<Longrightarrow> distinct (map fst (fold (\<lambda>i. AList.delete (f i)) is m))"
  by (induction "is" arbitrary: m) (auto intro: distinct_delete)

lemma node_parent_shift: "node_parent (shift_parent n node) =
    (case node_parent node of None \<Rightarrow> None | Some p \<Rightarrow> if n \<le> p then Some (p - n) else None)"
  by (cases node) (auto simp: shift_parent_def split: option.splits)

lemma shift_parent_fields [simp]:
  "node_root (shift_parent n node) = node_root node" "node_slot (shift_parent n node) = node_slot node"
  "node_weight (shift_parent n node) = node_weight node"
  "node_execution_status_of (shift_parent n node) = node_execution_status_of node"
  "get_parent_payload_status (shift_parent n node) = get_parent_payload_status node"
  by (cases node; auto simp: shift_parent_def split: option.splits)+

text \<open>What pruning at index \<open>n\<close> makes of an array.\<close>

definition pruned :: "nat \<Rightarrow> proto_array \<Rightarrow> proto_array" where
  "pruned n pa = pa\<lparr>nodes := map (shift_parent n) (drop n (nodes pa)),
     children := map (map (\<lambda>x. x - n)) (drop n (children pa)),
     indices := map (\<lambda>(k, v). (k, v - n)) (fold (\<lambda>i. AList.delete (node_root (nodes pa ! i))) [0..<n] (indices pa))\<rparr>"

lemma pruned_lookup:
  assumes wf: "wf_array pa" and n: "n \<le> length (nodes pa)"
  shows "map_of (fold (\<lambda>i. AList.delete (node_root (nodes pa ! i))) [0..<n] (indices pa)) r = Some i \<longleftrightarrow>
    n \<le> i \<and> i < length (nodes pa) \<and> node_root (nodes pa ! i) = r"
proof -
  have "r \<in> (\<lambda>i. node_root (nodes pa ! i)) ` set [0..<n] \<longleftrightarrow> i < n"
    if "i < length (nodes pa)" "node_root (nodes pa ! i) = r"
    using that n wf_root_eq [OF wf] by (auto simp: image_iff)
  then show ?thesis by (auto simp: map_of_fold_delete wf_lookup [OF wf])
qed

lemma drop_finalized_pruned:
  assumes wf: "wf_array pa" and n: "n \<le> length (nodes pa)"
  shows "drop_finalized n (pa\<lparr>indices := fold (\<lambda>i. AList.delete (node_root (nodes pa ! i))) [0..<n] (indices pa)\<rparr>) =
    (Ok (), pruned n pa)"
proof -
  let ?m = "fold (\<lambda>i. AList.delete (node_root (nodes pa ! i))) [0..<n] (indices pa)"
  have "n \<le> x" if "c \<in> set (drop n (children pa))" "x \<in> set c" for c x
  proof -
    from that(1) obtain p where p: "n \<le> p" "p < length (children pa)" "c = children pa ! p"
      by (auto simp: in_set_conv_nth) (metis add.commute le_add2 less_diff_conv)
    with that(2) wf_child [OF wf, of p x] wf_parent [OF wf] wf_children_length [OF wf] show ?thesis by fastforce
  qed
  then have c: "shift_children n (drop n (children pa)) = (True, map (map (\<lambda>x. x - n)) (drop n (children pa)))"
    by (rule shift_children_ok)
  have "n \<le> v" if "v \<in> snd ` set ?m" for v
  proof -
    from that obtain k where "(k, v) \<in> set ?m" by auto
    moreover have "distinct (map fst ?m)" using wf by (intro distinct_fold_delete) (simp add: wf_array_def)
    ultimately have "map_of ?m k = Some v" by simp
    then show ?thesis by (simp add: pruned_lookup [OF wf n] del: map_of_eq_Some_iff)
  qed
  then have "shift_values n ?m = (True, map (\<lambda>(k, v). (k, v - n)) ?m)" by (rule shift_values_ok)
  with c n wf_children_length [OF wf] show ?thesis
    by (simp add: drop_finalized_def Let_def pruned_def)
qed

lemma pruned_wf:
  assumes wf: "wf_array pa" and n: "n \<le> length (nodes pa)"
  shows "wf_array (pruned n pa)"
proof -
  let ?l = "length (nodes pa) - n" and ?q = "pruned n pa"
  have nodes: "length (nodes ?q) = ?l" "\<And>i. i < ?l \<Longrightarrow> nodes ?q ! i = shift_parent n (nodes pa ! (n + i))"
    using n by (simp_all add: pruned_def)
  have roots: "map node_root (nodes ?q) = drop n (map node_root (nodes pa))"
    by (simp add: pruned_def drop_map comp_def)
  have lookup: "map_of (indices ?q) r = Some i \<longleftrightarrow> i < ?l \<and> node_root (nodes ?q ! i) = r" for r i
  proof -
    have "map_of (indices ?q) r = Some i \<longleftrightarrow>
        (\<exists>j. map_of (fold (\<lambda>i. AList.delete (node_root (nodes pa ! i))) [0..<n] (indices pa)) r = Some j \<and> i = j - n)"
      by (auto simp: pruned_def map_of_map)
    also have "\<dots> \<longleftrightarrow> i < ?l \<and> node_root (nodes pa ! (n + i)) = r"
      unfolding pruned_lookup [OF wf n] by (auto intro!: exI [of _ "n + i"])
    finally show ?thesis using nodes by auto
  qed
  have par: "node_parent (nodes ?q ! i) = Some p \<longleftrightarrow> node_parent (nodes pa ! (n + i)) = Some (n + p)" if "i < ?l" for i p
    using nodes(2) [OF that] by (auto simp: node_parent_shift split: option.splits)
  have ch: "children ?q ! p = filter (\<lambda>i. node_parent (nodes ?q ! i) = Some p) [0..<?l]" if p: "p < ?l" for p
  proof -
    let ?P = "\<lambda>i. node_parent (nodes pa ! i) = Some (n + p)"
    have "[0..<length (nodes pa)] = [0..<n] @ map (\<lambda>i. n + i) [0..<?l]"
      by (rule nth_equalityI) (use n in \<open>auto simp: nth_append\<close>)
    moreover have "\<not> ?P i" if "i < n" for i
      using wf_parent [OF wf, of i "n + p"] that n by auto
    then have "filter ?P [0..<n] = []" by (simp add: filter_empty_conv)
    ultimately have "children pa ! (n + p) = map (\<lambda>i. n + i) (filter (\<lambda>i. ?P (n + i)) [0..<?l])"
      using wf_children [OF wf, of "n + p"] p by (simp add: filter_map comp_def)
    moreover have "filter (\<lambda>i. ?P (n + i)) [0..<?l] = filter (\<lambda>i. node_parent (nodes ?q ! i) = Some p) [0..<?l]"
      by (rule filter_cong) (simp_all add: par)
    ultimately show ?thesis using p wf_children_length [OF wf] by (simp add: pruned_def comp_def)
  qed
  have "length (children ?q) = ?l" using wf_children_length [OF wf] by (simp add: pruned_def)
  moreover have "p < i" if "i < ?l" "node_parent (nodes ?q ! i) = Some p" for i p
    using wf_parent [OF wf, of "n + i" "n + p"] that par by simp
  moreover have "distinct (map fst (indices ?q))"
  proof -
    have "map fst (indices ?q) = map fst (fold (\<lambda>i. AList.delete (node_root (nodes pa ! i))) [0..<n] (indices pa))"
      by (simp add: pruned_def comp_def case_prod_beta')
    then show ?thesis using wf by (simp only: wf_array_def distinct_fold_delete)
  qed
  moreover have "distinct (map node_root (nodes ?q))" unfolding roots using wf by (simp add: wf_array_def)
  ultimately show ?thesis unfolding wf_array_def using lookup ch by (simp add: nodes(1))
qed

lemma maybe_prune_wf:
  assumes wf: "wf_array pa"
  shows "maybe_prune r pa =
    (case map_of (indices pa) r of
       None \<Rightarrow> (Err (FinalizedNodeUnknown r), pa)
     | Some n \<Rightarrow> if n < prune_threshold pa then (Ok (), pa) else (Ok (), pruned n pa))"
proof (cases "map_of (indices pa) r")
  case (Some n)
  then have "n \<le> length (nodes pa)" using wf_lookup [OF wf, of r n] by simp
  with Some remove_indices [OF this, of 0] drop_finalized_pruned [OF wf this] show ?thesis
    by (simp add: maybe_prune_def op_bind_def)
qed (simp add: maybe_prune_def)

lemma maybe_prune_keeps_wf: "wf_array pa \<Longrightarrow> wf_array (snd (maybe_prune r pa))"
  by (auto simp: maybe_prune_wf wf_lookup intro!: pruned_wf split: option.splits)

end
