(* ===== verification/Proto_Reachable.thy ===== *)
theory Proto_Reachable
  imports Proto_Invariant
begin

text \<open>
  The states a fork choice can be in: those reached from a new fork choice by any sequence of its
  operations, successful or not. The invariant holds in all of them, the stored form of a state gives
  the state back, and no loop over the array of such a state runs forever.
\<close>

section \<open>The stored container\<close>

lemma children_of_spec:
  assumes "k \<le> length ns" "length cs = length ns"
    and "\<And>i p. i < length ns \<Longrightarrow> node_parent (ns ! i) = Some p \<Longrightarrow> p < length ns"
    and "\<And>p. p < length ns \<Longrightarrow> cs ! p = filter (\<lambda>i. node_parent (ns ! i) = Some p) [0..<k]"
  shows "children_of k (drop k ns) cs =
    Ok (map (\<lambda>p. filter (\<lambda>i. node_parent (ns ! i) = Some p) [0..<length ns]) [0..<length ns])"
  using assms
proof (induction "length ns - k" arbitrary: k cs)
  case 0
  then have "cs = map (\<lambda>p. filter (\<lambda>i. node_parent (ns ! i) = Some p) [0..<length ns]) [0..<length ns]"
    by (intro nth_equalityI) auto
  with 0 show ?case by simp
next
  case (Suc m)
  then have k: "k < length ns" "m = length ns - Suc k" by auto
  then have d: "drop k ns = ns ! k # drop (Suc k) ns" by (simp add: Cons_nth_drop_Suc)
  let ?cs = "case node_parent (ns ! k) of None \<Rightarrow> cs | Some p \<Rightarrow> cs[p := cs ! p @ [k]]"
  have "children_of (Suc k) (drop (Suc k) ns) ?cs =
      Ok (map (\<lambda>p. filter (\<lambda>i. node_parent (ns ! i) = Some p) [0..<length ns]) [0..<length ns])"
    using k Suc.prems by (intro Suc.hyps) (auto simp: nth_list_update split: option.splits)
  with d k Suc.prems(2) Suc.prems(3) [OF k(1)] show ?case by (auto split: option.splits)
qed

lemma rebuild_children_index_wf:
  assumes "wf_array pa"
  shows "rebuild_children_index (pa\<lparr>children := cs\<rparr>) = (Ok (), pa)"
proof -
  have "children_of 0 (drop 0 (nodes pa)) (replicate (length (nodes pa)) []) =
      Ok (map (\<lambda>p. filter (\<lambda>i. node_parent (nodes pa ! i) = Some p) [0..<length (nodes pa)]) [0..<length (nodes pa)])"
    using wf_parent [OF assms] by (intro children_of_spec) (auto dest: less_trans)
  moreover have "map (\<lambda>p. filter (\<lambda>i. node_parent (nodes pa ! i) = Some p) [0..<length (nodes pa)]) [0..<length (nodes pa)] = children pa"
    using wf_children [OF assms] wf_children_length [OF assms] by (intro nth_equalityI) auto
  ultimately show ?thesis by (simp add: rebuild_children_index_def)
qed

lemma collect_map_distinct:
  assumes "distinct (map fst ps)"
  shows "collect_map ps = ps"
proof -
  have "foldl (\<lambda>m (k, v). AList.update k v m) acc ps = acc @ ps" if "distinct (map fst (acc @ ps))" for acc
    using that
  proof (induction ps arbitrary: acc)
    case (Cons p ps)
    obtain k v where p: "p = (k, v)" by (cases p)
    with Cons.prems have "k \<notin> set (map fst acc)" by auto
    then have "AList.update k v acc = acc @ [(k, v)]" by (induction acc) auto
    with Cons.IH [of "acc @ [(k, v)]"] Cons.prems p show ?case by simp
  qed simp
  from this [of "[]"] assms show ?thesis by (simp add: collect_map_def)
qed

lemma container_roundtrip:
  assumes "wf_array (fc_array fc)"
  shows "try_from_container (from_proto_array fc) balances = Ok (fc\<lparr>fc_balances := balances\<rparr>)"
proof -
  have "rebuild_children_index \<lparr>prune_threshold = prune_threshold (fc_array fc), nodes = nodes (fc_array fc),
      indices = indices (fc_array fc), children = []\<rparr> = (Ok (), fc_array fc)"
    using rebuild_children_index_wf [OF assms, of "[]"] by (cases "fc_array fc") simp
  then show ?thesis
    using assms by (cases fc) (simp add: try_from_container_def from_proto_array_def collect_map_distinct wf_array_def)
qed

section \<open>Reachable states of the fork choice\<close>

text \<open>One call of an operation; the call that forgets the verdicts of the execution layer is kept apart.\<close>

inductive fork_choice_call :: "fc_spec \<Rightarrow> fork_choice \<Rightarrow> fork_choice \<Rightarrow> bool" for spec where
  fc_envelope: "fc_on_payload_envelope_received r s fc = (res, fc') \<Longrightarrow> fork_choice_call spec fc fc'"
| fc_validation: "process_execution_payload_validation h fc = (res, fc') \<Longrightarrow> fork_choice_call spec fc fc'"
| fc_invalidation: "process_execution_payload_invalidation spec operation cp fc = (res, fc') \<Longrightarrow> fork_choice_call spec fc fc'"
| fc_attestation: "process_attestation v r sl present fc = (res, fc') \<Longrightarrow> fork_choice_call spec fc fc'"
| fc_payload_attestation: "process_payload_attestation spec r i present available fc = (res, fc') \<Longrightarrow> fork_choice_call spec fc fc'"
| fc_block: "process_block spec b sl t fc = (res, fc') \<Longrightarrow> fork_choice_call spec fc fc'"
| fc_prune: "fc_maybe_prune r fc = (res, fc') \<Longrightarrow> fork_choice_call spec fc fc'"
| fc_threshold: "fork_choice_call spec fc (set_prune_threshold n fc)"
| fc_head: "fc_find_head spec jcp fcp balances boost equivocating sl fc = (head, fc') \<Longrightarrow> fork_choice_call spec fc fc'"
| fc_stored: "try_from_container (from_proto_array fc) balances = Ok fc' \<Longrightarrow> fork_choice_call spec fc fc'"

inductive fork_choice_step :: "fc_spec \<Rightarrow> fork_choice \<Rightarrow> fork_choice \<Rightarrow> bool" for spec where
  fc_call: "fork_choice_call spec fc fc' \<Longrightarrow> fork_choice_step spec fc fc'"
| fc_optimistic: "set_all_blocks_to_optimistic equivocating fc = (res, fc') \<Longrightarrow> fork_choice_step spec fc fc'"

inductive fork_choice_reachable :: "fc_spec \<Rightarrow> fork_choice \<Rightarrow> bool" for spec where
  fc_created: "fork_choice_new spec cs fbs sr jcp fcp ci ni es ph bh pi = Ok fc \<Longrightarrow> fork_choice_reachable spec fc"
| fc_stepped: "fork_choice_reachable spec fc \<Longrightarrow> fork_choice_step spec fc fc' \<Longrightarrow> fork_choice_reachable spec fc'"

lemma wf_empty: "wf_array \<lparr>prune_threshold = n, nodes = [], indices = [], children = []\<rparr>"
  by (simp add: wf_array_def)

lemma on_array_snd: "on_array wrap f fc = (r, fc') \<Longrightarrow> fc_array fc' = snd (f (fc_array fc)) \<and> fc_votes fc' = fc_votes fc"
  by (auto simp: on_array_def split: prod.splits)

context array_relation
begin

lemma on_array_related:
  "(\<And>pa. R pa (snd (f pa))) \<Longrightarrow> on_array wrap f fc = (r, fc') \<Longrightarrow> R (fc_array fc) (fc_array fc')"
  by (auto dest: on_array_snd)

lemma score_round_related: "R (fc_array fc) (fc_array (snd (score_round e1 e2 ob nb eq fc)))"
proof (cases "compute_deltas (indices (fc_array fc)) (map node_slot (nodes (fc_array fc))) ob nb eq (fc_votes fc)")
  case (Pair r votes)
  then show ?thesis using apply_score_changes_related [of "fc_array fc"] related_refl
    by (auto simp: score_round_def Let_def on_array_def case_prod_beta split: sum.splits)
qed

lemma payload_attestation_related:
  assumes "process_payload_attestation spec r i present available fc = (res, fc')"
  shows "R (fc_array fc) (fc_array fc')"
proof -
  have votes: "node_shape (V29 n') = node_shape (V29 n) \<and> pn_execution_status n' = pn_execution_status n"
    if "set_payload_votes spec i present available n = (q, n')" for n n' q
    using that by (auto simp: set_payload_votes_def Let_def node_shape_def split: option.splits)
  show ?thesis
  proof (cases "map_of (indices (fc_array fc)) r")
    case (Some j)
    show ?thesis
    proof (cases "j < length (nodes (fc_array fc))")
      case True
      with Some assms votes related_refl show ?thesis
        by (auto simp: process_payload_attestation_def Let_def split: proto_node.splits prod.splits intro!: related_update)
    qed (use Some assms related_refl in \<open>auto simp: process_payload_attestation_def Let_def vec_get_def\<close>)
  qed (use assms related_refl in \<open>auto simp: process_payload_attestation_def Let_def\<close>)
qed

lemma fc_find_head_related: "R (fc_array fc) (fc_array (snd (fc_find_head spec jcp fcp b r eq s fc)))"
proof -
  let ?f = "score_round ComputeDeltasFailed ApplyScoreChangesFailed (effective_balances (fc_balances fc)) (effective_balances b) eq"
  have "fc_array (snd (fc_find_head spec jcp fcp b r eq s fc)) = fc_array (snd (?f fc))"
    by (simp add: fc_find_head_def op_bind_def split: prod.splits sum.splits)
  then show ?thesis by (simp add: score_round_related)
qed

end

lemmas on_array_shape = shape.on_array_related
lemmas score_round_shape = shape.score_round_related
lemmas payload_attestation_shape = shape.payload_attestation_related
lemmas find_head_shape = shape.fc_find_head_related

lemma forget_clear_shape: "node_shape (clear_weights (forget_verdict n)) = node_shape n"
  by (cases n) (auto simp: forget_verdict_def node_shape_def split: execution_status.splits)

lemma optimistic_shape: "same_shape (fc_array fc) (fc_array (snd (set_all_blocks_to_optimistic eq fc)))"
proof -
  let ?reset = "\<lambda>fc. fc\<lparr>fc_array := (fc_array fc)\<lparr>nodes := map (clear_weights \<circ> forget_verdict) (nodes (fc_array fc))\<rparr>\<rparr>"
  let ?b = "effective_balances (fc_balances fc)"
  let ?first = "score_round SettleComputeDeltasFailed SettleApplyScoreChangesFailed ?b ?b eq"
  let ?second = "score_round ReplayComputeDeltasFailed ReplayApplyScoreChangesFailed [] ?b eq"
  obtain r q where rq: "?first fc = (r, q)" by (cases "?first fc")
  then have q: "same_shape (fc_array fc) (fc_array q)"
    using score_round_shape [of fc SettleComputeDeltasFailed SettleApplyScoreChangesFailed ?b ?b eq] by simp
  have reset: "same_shape (fc_array q) (fc_array (?reset q))"
    by (simp add: same_shape_def forget_clear_shape)
  note last = score_round_shape [of "?reset q" ReplayComputeDeltasFailed ReplayApplyScoreChangesFailed "[]" ?b eq]
  have "snd (set_all_blocks_to_optimistic eq fc) = (case r of Inl _ \<Rightarrow> q | Inr _ \<Rightarrow> snd (?second (?reset q)))"
    by (simp add: set_all_blocks_to_optimistic_def op_bind_def rq split: sum.splits)
  then show ?thesis using q same_shape_trans [OF q same_shape_trans [OF reset last]]
    by (simp split: sum.splits)
qed

lemma fork_choice_call_wf:
  assumes "fork_choice_call spec fc fc'" "wf_array (fc_array fc)"
  shows "wf_array (fc_array fc')"
  using assms
proof (induction rule: fork_choice_call.induct)
  case (fc_envelope r s fc res fc')
  show ?case by (rule same_shape_wf [OF on_array_shape [OF envelope_shape fc_envelope(1) [unfolded fc_on_payload_envelope_received_def]] fc_envelope(2)])
next
  case (fc_validation h fc res fc')
  show ?case by (rule same_shape_wf [OF on_array_shape [OF validation_shape fc_validation(1) [unfolded process_execution_payload_validation_def]] fc_validation(2)])
next
  case (fc_invalidation operation cp fc res fc')
  show ?case by (rule same_shape_wf [OF on_array_shape [OF invalidation_shape fc_invalidation(1) [unfolded process_execution_payload_invalidation_def]] fc_invalidation(2)])
next
  case (fc_attestation v r sl present fc res fc')
  then show ?case by (auto simp: process_attestation_def Let_def split: if_splits)
next
  case (fc_payload_attestation r i present available fc res fc')
  show ?case by (rule same_shape_wf [OF payload_attestation_shape [OF fc_payload_attestation(1)] fc_payload_attestation(2)])
next
  case (fc_block b sl t fc res fc')
  show ?case
  proof (cases "b_parent_root b = None")
    case True
    with fc_block show ?thesis by (simp add: process_block_def)
  next
    case False
    with fc_block(1) have "on_array ProcessBlockError (on_block spec b sl t) fc = (res, fc')"
      by (simp add: process_block_def)
    from on_array_snd [OF this] on_block_wf [OF fc_block(2)] show ?thesis by simp
  qed
next
  case (fc_prune r fc res fc')
  show ?case
    using on_array_snd [OF fc_prune(1) [unfolded fc_maybe_prune_def]] maybe_prune_keeps_wf [OF fc_prune(2), of r] by simp
next
  case (fc_threshold fc n)
  then show ?case by (simp add: set_prune_threshold_def wf_array_def)
next
  case (fc_head jcp fcp balances boost equivocating sl fc head fc')
  show ?case
    using same_shape_wf [OF find_head_shape fc_head(2), of spec jcp fcp balances boost equivocating sl] fc_head(1) by simp
next
  case (fc_stored fc balances fc')
  then show ?case by (simp add: container_roundtrip) auto
qed

lemma fork_choice_step_wf:
  assumes "fork_choice_step spec fc fc'" "wf_array (fc_array fc)"
  shows "wf_array (fc_array fc')"
  using assms
proof (cases rule: fork_choice_step.cases)
  case fc_call
  then show ?thesis by (rule fork_choice_call_wf [OF _ assms(2)])
next
  case (fc_optimistic equivocating res)
  then show ?thesis using same_shape_wf [OF optimistic_shape assms(2), of equivocating] by simp
qed

lemma fork_choice_reachable_wf: "fork_choice_reachable spec fc \<Longrightarrow> wf_array (fc_array fc)"
proof (induction rule: fork_choice_reachable.induct)
  case (fc_created cs fbs sr jcp fcp ci ni es ph bh pi fc)
  then show ?case using on_block_wf [OF wf_empty]
    by (auto simp: fork_choice_new_def Let_def split: prod.splits sum.splits) (metis snd_conv)
next
  case (fc_stepped fc fc')
  show ?case by (rule fork_choice_step_wf [OF fc_stepped(2) fc_stepped.IH])
qed

section \<open>Verdicts\<close>

lemma add_node_verdicts: "verdicts_kept pa (add_node node pa)"
  by (simp add: verdicts_kept_def add_node_def Let_def nth_append)

lemma on_block_verdicts:
  assumes "wf_array pa"
  shows "verdicts_kept pa (snd (on_block spec b s t pa))"
  using assms
proof (cases rule: on_block_cases [where spec = spec and b = b and s = s and t = t])
  case (added node)
  have "verdicts_kept pa (snd (validation_walk fuel p st (add_node node pa)))" for fuel p st
    by (rule verdicts_kept_trans [OF add_node_verdicts verdicts.validation_walk_related])
  with add_node_verdicts show ?thesis
    unfolding added(8) by (auto simp: propagate_execution_payload_validation_from_def split: option.splits execution_status.splits)
qed (simp add: verdicts.related_refl)

lemma verdicts_kept_block:
  assumes wf: "wf_array pa" "wf_array pa'" and kept: "verdicts_kept pa pa'" and n: "get_block pa r = Some n"
  shows "\<exists>n'. get_block pa' r = Some n' \<and> verdict_moves (node_execution_status_of n) (node_execution_status_of n')"
proof -
  from n obtain i where i: "map_of (indices pa) r = Some i" "i < length (nodes pa)" "n = nodes pa ! i"
    by (auto simp: get_block_def vec_get_def split: option.splits if_splits)
  then have "node_root (nodes pa ! i) = r" using wf_lookup [OF wf(1)] by simp
  with verdicts_kept_node [OF kept i(2)] wf_lookup [OF wf(2), of r i] have "map_of (indices pa') r = Some i" by simp
  with verdicts_kept_node [OF kept i(2)] i(3) show ?thesis by (simp add: get_block_def)
qed

text \<open>The block of a root after pruning: the same block with its parent renumbered, or none.\<close>

lemma option_restrict:
  assumes "\<And>i. x = Some i \<longleftrightarrow> P i \<and> y = Some i"
  shows "x = (case y of Some i \<Rightarrow> if P i then Some i else None | None \<Rightarrow> None)"
proof (cases x)
  case None
  with assms have "\<not> (P i \<and> y = Some i)" for i by simp
  with None show ?thesis by (simp split: option.splits)
next
  case (Some i)
  with assms [of i] show ?thesis by simp
qed

lemma pruned_map_of:
  assumes "wf_array pa" "n \<le> length (nodes pa)"
  shows "map_of (indices (pruned n pa)) r =
    (case map_of (indices pa) r of Some i \<Rightarrow> if n \<le> i then Some (i - n) else None | None \<Rightarrow> None)"
proof -
  let ?m = "map_of (fold (\<lambda>i. AList.delete (node_root (nodes pa ! i))) [0..<n] (indices pa))"
  have "map_of (indices (pruned n pa)) r = map_option (\<lambda>v. v - n) (?m r)"
    by (simp add: pruned_def map_of_map)
  moreover have "?m r = (case map_of (indices pa) r of Some i \<Rightarrow> if n \<le> i then Some i else None | None \<Rightarrow> None)"
    by (rule option_restrict) (simp only: pruned_lookup [OF assms] wf_lookup [OF assms(1)])
  ultimately show ?thesis by (simp split: option.splits)
qed

lemma pruned_get_block:
  assumes "wf_array pa" "n \<le> length (nodes pa)" "get_block (pruned n pa) r = Some node"
  shows "\<exists>m. get_block pa r = Some m \<and> node = shift_parent n m"
proof -
  from assms(3) obtain i where i: "map_of (indices pa) r = Some i" "n \<le> i" "vec_get (nodes (pruned n pa)) (i - n) = Some node"
    by (auto simp: get_block_def pruned_map_of [OF assms(1,2)] split: option.splits if_splits)
  then have "i < length (nodes pa)" using wf_lookup [OF assms(1)] by simp
  with i show ?thesis by (auto simp: get_block_def pruned_def)
qed

lemma fork_choice_call_verdict:
  assumes call: "fork_choice_call spec fc fc'" and wf: "wf_array (fc_array fc)"
    and n: "get_block (fc_array fc) r = Some n" and n': "get_block (fc_array fc') r = Some n'"
  shows "verdict_moves (node_execution_status_of n) (node_execution_status_of n')"
proof -
  note wf' = fork_choice_call_wf [OF call wf]
  have kept: ?thesis if "verdicts_kept (fc_array fc) (fc_array fc')"
    using verdicts_kept_block [OF wf wf' that n] n' by simp
  have same: ?thesis if "nodes (fc_array fc') = nodes (fc_array fc) \<and> indices (fc_array fc') = indices (fc_array fc)"
    using n n' unfolding get_block_def that [THEN conjunct1] that [THEN conjunct2] by simp
  from call show ?thesis
  proof (cases rule: fork_choice_call.cases)
    case (fc_envelope r s res)
    show ?thesis by (rule kept, rule verdicts.on_array_related [OF verdicts.envelope_related fc_envelope [unfolded fc_on_payload_envelope_received_def]])
  next
    case (fc_validation h res)
    show ?thesis by (rule kept, rule verdicts.on_array_related [OF verdicts.validation_related fc_validation [unfolded process_execution_payload_validation_def]])
  next
    case (fc_invalidation operation cp res)
    show ?thesis by (rule kept, rule verdicts.on_array_related [OF verdicts.invalidation_related fc_invalidation [unfolded process_execution_payload_invalidation_def]])
  next
    case (fc_payload_attestation r i present available res)
    show ?thesis by (rule kept, rule verdicts.payload_attestation_related [OF fc_payload_attestation])
  next
    case (fc_block b sl t res)
    have "verdicts_kept (fc_array fc) (fc_array fc')"
    proof (cases "b_parent_root b = None")
      case False
      with fc_block have "on_array ProcessBlockError (on_block spec b sl t) fc = (res, fc')" by (simp add: process_block_def)
      from on_array_snd [OF this] on_block_verdicts [OF wf] show ?thesis by simp
    qed (use fc_block in \<open>simp add: process_block_def verdicts.related_refl\<close>)
    then show ?thesis by (rule kept)
  next
    case (fc_prune root res)
    have "fc_array fc' = snd (maybe_prune root (fc_array fc))"
      using on_array_snd [OF fc_prune [unfolded fc_maybe_prune_def]] by simp
    moreover have "snd (maybe_prune root (fc_array fc)) = fc_array fc \<or>
        (\<exists>k \<le> length (nodes (fc_array fc)). snd (maybe_prune root (fc_array fc)) = pruned k (fc_array fc))"
    proof (cases "map_of (indices (fc_array fc)) root")
      case (Some k)
      with wf_lookup [OF wf, of root k] show ?thesis by (auto simp: maybe_prune_wf [OF wf] intro!: exI [of _ k])
    qed (simp add: maybe_prune_wf [OF wf])
    ultimately have "\<exists>m k. get_block (fc_array fc) r = Some m \<and> (n' = m \<or> n' = shift_parent k m)"
      using pruned_get_block [OF wf] n' by metis
    with n show ?thesis by auto
  next
    case (fc_head jcp fcp balances boost equivocating sl head)
    show ?thesis
      using verdicts.fc_find_head_related [of fc spec jcp fcp balances boost equivocating sl] fc_head by (intro kept) simp
  qed (rule same; auto simp: process_attestation_def Let_def set_prune_threshold_def container_roundtrip [OF wf] split: if_splits)+
qed

section \<open>Loops return\<close>

lemma collect_results_total: "(\<And>x. x \<in> set xs \<Longrightarrow> f x = Ok (g x)) \<Longrightarrow> collect_results f xs = Ok (map g xs)"
  by (induction xs) auto

lemma collect_results_Err: "collect_results f xs = Inl e \<Longrightarrow> \<exists>x \<in> set xs. f x = Inl e"
  by (induction xs) (auto simp: bindE_eq_Inl)

lemma map_filter_if: "List.map_filter id (map (\<lambda>c. if P c then Some (g c) else None) xs) = map g (filter P xs)"
  by (induction xs) (auto simp: List.map_filter_def)

lemma try_fold_total:
  assumes "P s" and "\<And>s x. x \<in> set xs \<Longrightarrow> P s \<Longrightarrow> \<exists>s'. f s x = Ok s' \<and> P s'"
  shows "\<exists>t. try_fold f s xs = Ok t \<and> P t"
  using assms
proof (induction xs arbitrary: s)
  case (Cons x xs)
  then obtain s' where "f s x = Ok s'" "P s'" by (meson list.set_intros(1))
  with Cons.IH [of s'] Cons.prems(2) show ?case by auto
qed simp

subsection \<open>Along the parent links\<close>

lemma validation_walk_returns:
  "wf_array pa \<Longrightarrow> i < fuel \<Longrightarrow> fst (validation_walk fuel i s pa) \<noteq> Err NoReturn"
proof (induction fuel arbitrary: i s pa)
  case (Suc fuel)
  have IH: "fst (validation_walk fuel p t q) \<noteq> Err NoReturn"
    if "i < length (nodes pa)" "node_parent (nodes pa ! i) = Some p" "wf_array q" for p t q
    using Suc.IH [OF that(3), of p t] wf_parent [OF Suc.prems(1) that(1,2)] Suc.prems(2) by simp
  have wf: "wf_array (set_status_at i st pa)" for st
    by (rule same_shape_wf [OF same_shape_set_status_at Suc.prems(1)])
  show ?case
    by (cases "i < length (nodes pa)")
      (auto simp: validation_walk.simps Let_def IH wf Suc.prems(1) split: option.splits execution_status.splits)
qed simp

lemma executed_path_returns:
  "wf_array pa \<Longrightarrow> i < fuel \<Longrightarrow> executed_path fuel pa lv i ex \<noteq> Err NoReturn"
proof (induction fuel arbitrary: i ex)
  case (Suc fuel)
  have "executed_path fuel pa lv p t \<noteq> Err NoReturn"
    if "i < length (nodes pa)" "node_parent (nodes pa ! i) = Some p" for p t
    using Suc.IH [of p t] wf_parent [OF Suc.prems(1) that] Suc.prems by simp
  then show ?case
    by (cases "i < length (nodes pa)") (auto simp: executed_path.simps bindE_eq_Inl split: option.splits)
qed simp

lemma ancestor_walk_returns:
  "wf_array pa \<Longrightarrow> i < fuel \<Longrightarrow> ancestor_walk fuel pa sl c i \<noteq> Err NoReturn"
proof (induction fuel arbitrary: i c)
  case (Suc fuel)
  have "ancestor_walk fuel pa sl i p \<noteq> Err NoReturn"
    if "i < length (nodes pa)" "node_parent (nodes pa ! i) = Some p" for p
    using Suc.IH [of p i] wf_parent [OF Suc.prems(1) that] Suc.prems by simp
  then show ?case
    by (cases "i < length (nodes pa)") (auto simp: ancestor_walk.simps bindE_eq_Inl ok_or_def split: option.splits)
qed simp

lemma inherited_walk_returns:
  "wf_array pa \<Longrightarrow> i < length (nodes pa) \<Longrightarrow> i < fuel \<Longrightarrow> inherited_walk fuel pa (nodes pa ! i) \<noteq> Err NoReturn"
proof (induction fuel arbitrary: i)
  case (Suc fuel)
  have "inherited_walk fuel pa (nodes pa ! p) \<noteq> Err NoReturn" if "node_parent (nodes pa ! i) = Some p" for p
    using Suc.IH [of p] wf_parent [OF Suc.prems(1,2) that] Suc.prems by simp
  then show ?case
    by (cases "nodes pa ! i")
      (auto simp: inherited_walk.simps bindE_eq_Inl ok_or_def vec_get_def split: option.splits parent_payload_status.splits if_splits)
qed simp

lemma parent_below_fuel:
  "wf_array pa \<Longrightarrow> i < length (nodes pa) \<Longrightarrow> node_parent (nodes pa ! i) = Some p \<Longrightarrow> p < Suc (length (nodes pa))"
  using wf_parent [of pa i p] by simp

subsection \<open>Over a stack\<close>

text \<open>
  The state of a depth-first walk from \<open>r\<close>: what has been visited and what is on the stack are apart,
  and everything but \<open>r\<close> has a visited parent.
\<close>

definition dfs_inv :: "(nat \<Rightarrow> nat option) \<Rightarrow> nat \<Rightarrow> nat set \<Rightarrow> nat list \<Rightarrow> bool" where
  "dfs_inv par r V stack \<longleftrightarrow> distinct stack \<and> set stack \<inter> V = {} \<and>
     (\<forall>y \<in> set stack \<union> V. y = r \<or> (\<exists>x \<in> V. par y = Some x)) \<and> (\<forall>y \<in> set stack \<union> V. r \<le> y)"

lemma dfs_step:
  assumes inv: "dfs_inv par r V (x # stack)" and cs: "distinct cs" "\<And>c. c \<in> set cs \<Longrightarrow> par c = Some x \<and> x < c"
  shows "dfs_inv par r (insert x V) (cs @ stack)"
proof -
  have new: "c \<notin> V \<union> set (x # stack)" if "c \<in> set cs" for c
  proof
    assume c: "c \<in> V \<union> set (x # stack)"
    have "c \<noteq> r" using cs(2) [OF that] inv by (auto simp: dfs_inv_def)
    with c inv obtain z where "z \<in> V" "par c = Some z" by (auto simp: dfs_inv_def)
    with cs(2) [OF that] inv show False by (auto simp: dfs_inv_def)
  qed
  have "r \<le> c" if "c \<in> set cs" for c
    using cs(2) [OF that] inv by (auto simp: dfs_inv_def)
  with inv cs new show ?thesis by (auto simp: dfs_inv_def)
qed

lemma dfs_bound:
  assumes "dfs_inv par r V stack" "V \<union> set stack \<subseteq> {..<n}"
  shows "card V + length stack \<le> n"
proof -
  have "finite V" using assms(2) finite_subset by blast
  then have "card (V \<union> set stack) = card V + length stack"
    using assms(1) by (subst card_Un_disjoint) (auto simp: dfs_inv_def distinct_card)
  moreover have "card (V \<union> set stack) \<le> n" using card_mono [OF _ assms(2)] by simp
  ultimately show ?thesis by simp
qed

lemma children_to_invalidate_wf:
  assumes "wf_array pa" "i < length (nodes pa)"
  shows "children_to_invalidate pa d i =
    Ok (rev (filter (\<lambda>c. \<not> (i = d \<and> get_parent_payload_status (nodes pa ! c) = ParentEmpty)) (children pa ! i)))"
proof -
  let ?P = "\<lambda>c. \<not> (i = d \<and> get_parent_payload_status (nodes pa ! c) = ParentEmpty)"
  have "collect_results (\<lambda>c. bindE (ok_or (InvalidNodeIndex c) (vec_get (nodes pa) c)) (\<lambda>child.
        Ok (if i = d \<and> get_parent_payload_status child = ParentEmpty then None else Some c))) (children pa ! i) =
      Ok (map (\<lambda>c. if ?P c then Some c else None) (children pa ! i))"
    using wf_child [OF assms] by (intro collect_results_total) auto
  then show ?thesis
    using assms map_filter_if [of ?P "\<lambda>c. c"] wf_children_length [OF assms(1)]
    by (simp add: children_to_invalidate_def)
qed

lemma invalidate_loop_returns:
  assumes "wf_array pa" "dfs_inv (\<lambda>i. node_parent (nodes pa ! i)) r V stack"
    and "V \<union> set stack \<subseteq> {..<length (nodes pa)}" "length (nodes pa) \<le> fuel + card V"
  shows "fst (invalidate_loop fuel d stack pa) \<noteq> Err NoReturn"
  using assms
proof (induction fuel d stack pa arbitrary: V rule: invalidate_loop.induct)
  case (2 d i stack pa)
  with dfs_bound [OF 2(2,3)] show ?case by simp
next
  case (3 fuel d i stack pa)
  then have i: "i < length (nodes pa)" by simp
  have "fst (invalidate_loop fuel d (cs @ stack) (set_status_at i (Invalid h) pa)) \<noteq> Err NoReturn"
    if cs: "children_to_invalidate (set_status_at i (Invalid h) pa) d i = Inr cs" for h cs
  proof -
    let ?pa = "set_status_at i (Invalid h) pa"
    note shape = same_shape_set_status_at [of pa i "Invalid h"]
    note wf = same_shape_wf [OF shape 3(2)]
    have len: "length (nodes ?pa) = length (nodes pa)" by (rule same_shape_length [OF shape])
    have par: "node_parent (nodes ?pa ! j) = node_parent (nodes pa ! j)" for j
      using i by (cases "j = i") (simp_all add: set_status_at_def)
    have "cs = rev (filter (\<lambda>c. \<not> (i = d \<and> get_parent_payload_status (nodes ?pa ! c) = ParentEmpty)) (children ?pa ! i))"
      using children_to_invalidate_wf [OF wf] i len cs by simp
    then have c: "distinct cs" "\<And>c. c \<in> set cs \<Longrightarrow> c < length (nodes pa) \<and> node_parent (nodes pa ! c) = Some i"
      using wf_child [OF wf, of i] wf_children [OF wf, of i] i len par by auto
    have sub: "insert i V \<union> set (cs @ stack) \<subseteq> {..<length (nodes pa)}" using 3(4) c by auto
    have "card (insert i V) = Suc (card V)"
      using 3(3,4) finite_subset [of V "{..<length (nodes pa)}"] by (auto simp: dfs_inv_def)
    then have "length (nodes pa) \<le> fuel + card (insert i V)" using 3(5) by simp
    moreover have "dfs_inv (\<lambda>j. node_parent (nodes pa ! j)) r (insert i V) (cs @ stack)"
      using c wf_parent [OF 3(2)] by (intro dfs_step [OF 3(3)]) blast+
    ultimately show ?thesis
      using 3(1) [OF vec_get_nth [OF i] refl cs wf] sub len par by simp
  qed
  moreover have "children_to_invalidate (set_status_at i (Invalid h) pa) d i \<noteq> Inl e" for h e
    using children_to_invalidate_wf [OF same_shape_wf [OF same_shape_set_status_at 3(2)]] i
      same_shape_length [OF same_shape_set_status_at] by simp
  ultimately show ?case
    using i by (auto simp: invalidate_loop.simps(3) Let_def split: execution_status.splits sum.splits)
qed simp


lemma invalidate_returns:
  assumes "wf_array pa" "i < length (nodes pa)"
  shows "fst (invalidate_node_and_descendants i pa) \<noteq> Err NoReturn"
  unfolding invalidate_node_and_descendants_def
  using assms by (intro invalidate_loop_returns [where V = "{}" and r = i]) (auto simp: dfs_inv_def)

lemma invalidate_beyond: "length (nodes pa) \<le> i \<Longrightarrow> fst (invalidate_node_and_descendants i pa) \<noteq> Err NoReturn"
  by (simp add: invalidate_node_and_descendants_def invalidate_loop.simps(3))

subsection \<open>Operations on the array\<close>

lemma op_for_each_returns:
  assumes "wf_array pa" and "\<And>x q. wf_array q \<Longrightarrow> fst (f x q) \<noteq> Err NoReturn \<and> wf_array (snd (f x q))"
  shows "fst (op_for_each f xs pa) \<noteq> Err NoReturn"
  using assms(1)
proof (induction xs arbitrary: pa)
  case (Cons x xs)
  with assms(2) [OF Cons.prems, of x] show ?case
    by (cases "f x pa") (auto simp: op_bind_def split: sum.splits)
qed (simp add: op_return_def)

lemma validation_from_returns:
  assumes "wf_array pa"
  shows "fst (propagate_execution_payload_validation_from i s pa) \<noteq> Err NoReturn"
proof (cases "i < length (nodes pa)")
  case True
  then show ?thesis
    using validation_walk_returns [OF assms] by (simp add: propagate_execution_payload_validation_from_def)
qed (simp add: propagate_execution_payload_validation_from_def validation_walk.simps)

lemma validation_returns:
  assumes "wf_array pa"
  shows "fst (propagate_execution_payload_validation h pa) \<noteq> Err NoReturn"
  unfolding propagate_execution_payload_validation_def
proof (rule op_for_each_returns [OF assms])
  fix i q assume "wf_array q"
  then show "fst (validation_step i q) \<noteq> Err NoReturn \<and> wf_array (snd (validation_step i q))"
    using validation_from_returns same_shape_wf [OF validation_walk_shape]
    by (auto simp: validation_step_def propagate_execution_payload_validation_from_def split: option.splits)
qed

lemma envelope_returns:
  assumes "wf_array pa"
  shows "fst (on_payload_envelope_received r s pa) \<noteq> Err NoReturn"
proof -
  have "fst (propagate_execution_payload_validation_from i ParentFull
      (pa\<lparr>nodes := (nodes pa)[i := V29 (v\<lparr>pn_payload_received := True\<rparr>)]\<rparr>)) \<noteq> Err NoReturn"
    if "i < length (nodes pa)" "nodes pa ! i = V29 v" for i v
  proof -
    have "same_shape pa (pa\<lparr>nodes := (nodes pa)[i := V29 (v\<lparr>pn_payload_received := True\<rparr>)]\<rparr>)"
      using that by (intro same_shape_update) (auto simp: node_shape_def)
    from validation_from_returns [OF same_shape_wf [OF this assms]] show ?thesis .
  qed
  then show ?thesis
    by (auto simp: on_payload_envelope_received_def Let_def vec_get_def
        split: option.splits proto_node.splits execution_status.splits if_splits)
qed

lemma find_deepest_returns:
  assumes "wf_array pa"
  shows "find_deepest_node_to_invalidate spec pa i operation cp \<noteq> Err NoReturn"
proof -
  have "find_deepest_executed_node pa i lv \<noteq> Err NoReturn" if "i < length (nodes pa)" for lv
    using executed_path_returns [OF assms] that by (auto simp: find_deepest_executed_node_def bindE_eq_Inl)
  then show ?thesis
    by (cases "i < length (nodes pa)")
      (auto simp: find_deepest_node_to_invalidate_def Let_def bindE_eq_Inl ok_or_def split: option.splits if_splits)
qed

lemma invalidation_returns:
  assumes "wf_array pa"
  shows "fst (propagate_execution_payload_invalidation spec operation cp pa) \<noteq> Err NoReturn"
proof -
  have "fst (invalidation_step spec operation cp i q) \<noteq> Err NoReturn \<and> wf_array (snd (invalidation_step spec operation cp i q))"
    if "wf_array q" for i q
  proof -
    have "fst (invalidate_node_and_descendants j q) \<noteq> Err NoReturn" for j
      using invalidate_returns [OF that] invalidate_beyond [of q j] by (cases "j < length (nodes q)") auto
    moreover have "wf_array (snd (invalidate_node_and_descendants j q))" for j
      unfolding invalidate_node_and_descendants_def by (rule same_shape_wf [OF invalidate_loop_shape that])
    ultimately show ?thesis
      using find_deepest_returns [OF that] that
      by (auto simp: invalidation_step_def op_bind_def op_read_def op_return_def split: sum.splits option.splits)
  qed
  then have "fst (op_for_each (invalidation_step spec operation cp) xs pa) \<noteq> Err NoReturn" for xs
    by (intro op_for_each_returns [OF assms])
  then show ?thesis by (auto simp: propagate_execution_payload_invalidation_def Let_def)
qed

lemma on_block_returns:
  assumes "wf_array pa"
  shows "fst (on_block spec b s t pa) \<noteq> Err NoReturn"
  using assms
proof (cases rule: on_block_cases [where spec = spec and b = b and s = s and t = t])
  case (added node)
  then have "wf_array (add_node node pa)" by (intro add_node_wf [OF assms]) simp_all
  from validation_from_returns [OF this] show ?thesis
    unfolding added(8) by (auto split: option.splits execution_status.splits)
qed simp

lemma maybe_prune_returns: "wf_array pa \<Longrightarrow> fst (maybe_prune r pa) \<noteq> Err NoReturn"
  by (auto simp: maybe_prune_wf split: option.splits)

end
