(* ===== verification/Proto_Verdicts.thy ===== *)
theory Proto_Verdicts
  imports Proto_Reachable
begin

text \<open>
  What an invalidation and a pruning of the node array do, as a whole: the set of blocks that are
  condemned, against the depth-first loop that marks them, and the chains of parents that are left
  after pruning.
\<close>

section \<open>Invalid payloads\<close>

text \<open>
  The blocks an invalidation condemns: the given block, and every block reached from it downwards, except
  that a child of the given block that does not execute its payload is spared.
\<close>

inductive condemned :: "proto_array \<Rightarrow> nat \<Rightarrow> nat \<Rightarrow> bool" for pa d where
  condemned_self: "condemned pa d d"
| condemned_child: "condemned pa d i \<Longrightarrow> c < length (nodes pa) \<Longrightarrow> node_parent (nodes pa ! c) = Some i \<Longrightarrow>
    i = d \<longrightarrow> get_parent_payload_status (nodes pa ! c) \<noteq> ParentEmpty \<Longrightarrow> condemned pa d c"

fun payload_hash_of :: "execution_status \<Rightarrow> execution_block_hash" where
  "payload_hash_of (Valid h) = h"
| "payload_hash_of (Invalid h) = h"
| "payload_hash_of (Optimistic h) = h"
| "payload_hash_of (NotYetRevealed h) = h"
| "payload_hash_of (Irrelevant _) = 0"

fun condemnable :: "execution_status \<Rightarrow> bool" where
  "condemnable (Valid _) = False"
| "condemnable (Irrelevant _) = False"
| "condemnable _ = True"

definition condemn_node :: "proto_node \<Rightarrow> proto_node" where
  "condemn_node n = set_execution_status (Invalid (payload_hash_of (node_execution_status_of n))) n"

definition condemn :: "nat set \<Rightarrow> proto_array \<Rightarrow> proto_array" where
  "condemn W pa = pa\<lparr>nodes := map (\<lambda>i. if i \<in> W then condemn_node (nodes pa ! i) else nodes pa ! i) [0..<length (nodes pa)]\<rparr>"

lemma condemn_fields [simp]:
  "length (nodes (condemn W pa)) = length (nodes pa)" "children (condemn W pa) = children pa"
  "i < length (nodes pa) \<Longrightarrow> nodes (condemn W pa) ! i = (if i \<in> W then condemn_node (nodes pa ! i) else nodes pa ! i)"
  by (simp_all add: condemn_def)

lemma condemn_shape: "same_shape pa (condemn W pa)"
  by (auto simp: same_shape_def condemn_def condemn_node_def intro!: nth_equalityI)

lemma condemn_insert:
  assumes "i < length (nodes pa)"
  shows "set_status_at i (Invalid (payload_hash_of (node_execution_status_of (nodes pa ! i)))) (condemn W pa) = condemn (insert i W) pa"
proof -
  have "set_execution_status s (set_execution_status t n) = set_execution_status s n" for s t n by (cases n) simp_all
  with assms have "nodes (set_status_at i (Invalid (payload_hash_of (node_execution_status_of (nodes pa ! i)))) (condemn W pa)) =
      nodes (condemn (insert i W) pa)"
    by (intro nth_equalityI) (auto simp: set_status_at_def condemn_node_def nth_list_update)
  then show ?thesis by (simp add: set_status_at_def condemn_def)
qed

definition condemned_children :: "proto_array \<Rightarrow> nat \<Rightarrow> nat \<Rightarrow> nat set" where
  "condemned_children pa d i = {c. c < length (nodes pa) \<and> node_parent (nodes pa ! c) = Some i \<and>
     (i = d \<longrightarrow> get_parent_payload_status (nodes pa ! c) \<noteq> ParentEmpty)}"

lemma children_to_condemn:
  assumes wf: "wf_array pa" and i: "i < length (nodes pa)"
  shows "\<exists>cs. children_to_invalidate (condemn W pa) d i = Ok cs \<and> set cs = condemned_children pa d i"
proof -
  have p: "get_parent_payload_status (nodes (condemn W pa) ! c) = get_parent_payload_status (nodes pa ! c)"
    if "c < length (nodes pa)" for c
    using same_shape_fields(4) [OF condemn_shape that] .
  show ?thesis
    using children_to_invalidate_wf [OF same_shape_wf [OF condemn_shape wf], of i W d] i wf_child [OF wf i] p
    by (auto simp: condemned_children_def)
qed

lemma invalidate_loop_condemns:
  assumes wf: "wf_array pa" and d: "d < length (nodes pa)"
  shows "W \<union> set stack \<subseteq> Collect (condemned pa d) \<Longrightarrow> \<forall>i \<in> W. condemned_children pa d i \<subseteq> W \<union> set stack \<Longrightarrow>
    \<forall>i \<in> W. condemnable (node_execution_status_of (nodes pa ! i)) \<Longrightarrow>
    fst (invalidate_loop fuel d stack (condemn W pa)) \<noteq> Err NoReturn \<Longrightarrow>
    (\<exists>i. condemned pa d i \<and> \<not> condemnable (node_execution_status_of (nodes pa ! i)) \<and>
      fst (invalidate_loop fuel d stack (condemn W pa)) \<noteq> Ok ()) \<or>
    (\<exists>W'. W \<union> set stack \<subseteq> W' \<and> W' \<subseteq> Collect (condemned pa d) \<and> (\<forall>i \<in> W'. condemned_children pa d i \<subseteq> W') \<and>
      (\<forall>i \<in> W'. condemnable (node_execution_status_of (nodes pa ! i))) \<and>
      invalidate_loop fuel d stack (condemn W pa) = (Ok (), condemn W' pa))"
proof (induction fuel arbitrary: W stack)
  case 0
  then show ?case by (cases stack) auto
next
  case (Suc fuel)
  show ?case
  proof (cases stack)
    case Nil
    with Suc.prems show ?thesis by auto
  next
    case (Cons i rest)
    have c: "condemned pa d i" using Suc.prems(1) Cons by simp
    then have i: "i < length (nodes pa)" using d by (cases rule: condemned.cases) simp_all
    let ?s = "node_execution_status_of (nodes pa ! i)"
    show ?thesis
    proof (cases "condemnable ?s")
      case False
      then have "i \<notin> W" using Suc.prems(3) by blast
      with False i have "fst (invalidate_loop (Suc fuel) d stack (condemn W pa)) \<noteq> Ok ()"
        by (cases ?s) (simp_all add: Cons invalidate_loop.simps(3))
      with False c show ?thesis by blast
    next
      case True
      obtain cs where cs: "children_to_invalidate (condemn (insert i W) pa) d i = Ok cs" "set cs = condemned_children pa d i"
        using children_to_condemn [OF wf i] by blast
      have step: "invalidate_loop (Suc fuel) d stack (condemn W pa) = invalidate_loop fuel d (cs @ rest) (condemn (insert i W) pa)"
        using True i cs(1) condemn_insert [OF i, of W]
        by (cases ?s) (simp_all add: Cons invalidate_loop.simps(3) condemn_node_def Let_def)
      have "condemned pa d x" if "x \<in> set cs" for x
        using that c unfolding cs(2) condemned_children_def by (auto intro: condemned_child)
      then have sub: "insert i W \<union> set (cs @ rest) \<subseteq> Collect (condemned pa d)" using Suc.prems(1) Cons by auto
      have "\<forall>j \<in> insert i W. condemned_children pa d j \<subseteq> insert i W \<union> set (cs @ rest)"
        using Suc.prems(2) Cons cs(2) by auto
      from Suc.IH [OF sub this] True Suc.prems(3,4) step show ?thesis by (auto simp: Cons)
    qed
  qed
qed

lemma condemned_closed:
  assumes "d \<in> W" "\<forall>i \<in> W. condemned_children pa d i \<subseteq> W" "condemned pa d i"
  shows "i \<in> W"
  using assms(3) by (induction rule: condemned.induct) (use assms(1,2) in \<open>auto simp: condemned_children_def\<close>)

lemma invalidate_condemns:
  assumes wf: "wf_array pa" and d: "d < length (nodes pa)"
  shows "if \<forall>i. condemned pa d i \<longrightarrow> condemnable (node_execution_status_of (nodes pa ! i))
    then invalidate_node_and_descendants d pa = (Ok (), condemn (Collect (condemned pa d)) pa)
    else fst (invalidate_node_and_descendants d pa) \<noteq> Ok ()"
proof -
  have e: "condemn {} pa = pa" by (simp add: condemn_def map_nth)
  from condemned_self [of pa d] invalidate_loop_condemns [OF wf d, of "{}" "[d]" "Suc (length (nodes pa))"] invalidate_returns [OF wf d]
  consider (bad) i where "condemned pa d i" "\<not> condemnable (node_execution_status_of (nodes pa ! i))"
      "fst (invalidate_node_and_descendants d pa) \<noteq> Ok ()"
    | (full) W where "d \<in> W" "W \<subseteq> Collect (condemned pa d)" "\<forall>i \<in> W. condemned_children pa d i \<subseteq> W"
      "\<forall>i \<in> W. condemnable (node_execution_status_of (nodes pa ! i))"
      "invalidate_node_and_descendants d pa = (Ok (), condemn W pa)"
    by (auto simp: e invalidate_node_and_descendants_def)
  then show ?thesis
  proof cases
    case bad
    then show ?thesis by auto
  next
    case (full W)
    have "W = Collect (condemned pa d)" using condemned_closed [OF full(1,3)] full(2) by blast
    with full show ?thesis by auto
  qed
qed

section \<open>Chains after pruning\<close>

lemma chain_enough:
  assumes wf: "wf_array pa"
  shows "(\<forall>i. x = Some i \<longrightarrow> i < fuel) \<Longrightarrow> chain (fuel + k) pa x = chain fuel pa x"
proof (induction fuel arbitrary: x)
  case 0
  then have "x = None" by (cases x) auto
  then show ?case by (cases k) simp_all
next
  case (Suc fuel)
  show ?case
  proof (cases x)
    case (Some i)
    show ?thesis
    proof (cases "i < length (nodes pa)")
      case True
      have "chain (fuel + k) pa (node_parent (nodes pa ! i)) = chain fuel pa (node_parent (nodes pa ! i))"
        using wf_parent [OF wf True] Suc.prems Some by (intro Suc.IH) fastforce
      with Some True show ?thesis by simp
    qed (simp add: Some)
  qed simp
qed

lemma pruned_chain:
  assumes wf: "wf_array pa" and n: "n \<le> length (nodes pa)"
  shows "n \<le> i \<Longrightarrow> i < length (nodes pa) \<Longrightarrow>
    chain fuel (pruned n pa) (Some (i - n)) =
    map (shift_parent n) (takeWhile (\<lambda>node. map_of (indices (pruned n pa)) (node_root node) \<noteq> None) (chain fuel pa (Some i)))"
proof (induction fuel arbitrary: i)
  case (Suc fuel)
  have kept: "map_of (indices (pruned n pa)) (node_root (nodes pa ! j)) \<noteq> None \<longleftrightarrow> n \<le> j" if "j < length (nodes pa)" for j
  proof -
    have "map_of (indices pa) (node_root (nodes pa ! j)) = Some j" using that wf_lookup [OF wf] by simp
    then show ?thesis by (simp add: pruned_map_of [OF wf n])
  qed
  have node: "vec_get (nodes (pruned n pa)) (i - n) = Some (shift_parent n (nodes pa ! i))"
    using Suc.prems by (simp add: pruned_def vec_get_def less_diff_conv2)
  show ?case
  proof (cases "node_parent (nodes pa ! i)")
    case None
    then show ?thesis using Suc.prems node kept [of i] by (cases fuel) (simp_all add: node_parent_shift)
  next
    case (Some p)
    have p: "p < i" using wf_parent [OF wf Suc.prems(2) Some] .
    show ?thesis
    proof (cases "n \<le> p")
      case True
      with Suc.IH [of p] p Some Suc.prems node kept [of i] show ?thesis by (simp add: node_parent_shift)
    next
      case False
      then have "takeWhile (\<lambda>node. map_of (indices (pruned n pa)) (node_root node) \<noteq> None) (chain fuel pa (Some p)) = []"
        using kept [of p] p Suc.prems by (cases fuel) simp_all
      with False Some Suc.prems node kept [of i] show ?thesis by (cases fuel) (simp_all add: node_parent_shift)
    qed
  qed
qed simp

lemma pruned_iter_nodes:
  assumes wf: "wf_array pa" and n: "n \<le> length (nodes pa)"
  shows "iter_nodes (pruned n pa) r = map (shift_parent n)
    (takeWhile (\<lambda>node. map_of (indices (pruned n pa)) (node_root node) \<noteq> None) (iter_nodes pa r))"
proof (cases "map_of (indices pa) r")
  case None
  then show ?thesis by (cases "length (nodes pa)"; cases "length (nodes (pruned n pa))")
    (simp_all add: iter_nodes_def pruned_map_of [OF wf n])
next
  case (Some i)
  then have i: "i < length (nodes pa)" "node_root (nodes pa ! i) = r" using wf_lookup [OF wf] by auto
  show ?thesis
  proof (cases "n \<le> i")
    case True
    have "length (nodes (pruned n pa)) + n = length (nodes pa)" using n by (simp add: pruned_def)
    with chain_enough [OF pruned_wf [OF wf n], of "Some (i - n)" "length (nodes (pruned n pa))" n] i True
    have "chain (length (nodes (pruned n pa))) (pruned n pa) (Some (i - n)) = chain (length (nodes pa)) (pruned n pa) (Some (i - n))"
      by simp
    with pruned_chain [OF wf n True i(1)] Some True show ?thesis by (simp add: iter_nodes_def pruned_map_of [OF wf n])
  next
    case False
    then have out: "map_of (indices (pruned n pa)) r = None" using Some by (simp add: pruned_map_of [OF wf n])
    have "chain k (pruned n pa) None = []" for k by (cases k) simp_all
    moreover have "\<exists>rest. chain (length (nodes pa)) pa (Some i) = nodes pa ! i # rest"
      using i(1) by (cases "length (nodes pa)") auto
    ultimately show ?thesis using Some out i(2) by (auto simp: iter_nodes_def)
  qed
qed

end
