(* ===== verification/Proto_Ghost.thy ===== *)
theory Proto_Ghost
  imports Proto_Reachable
begin

text \<open>
  The head against its specification: the filter of viable branches as a recursive definition, the walk
  of the fork choice rule as a relation, and that the loops of \<open>Proto_Head\<close> compute them, return on
  every well-formed array, and succeed when the boosted block is known.
\<close>

section \<open>Children in the tree of payload choices\<close>

abbreviation pending_node :: "proto_array \<Rightarrow> nat \<Rightarrow> indexed_fork_choice_node" where
  "pending_node pa i \<equiv> \<lparr>fc_root = node_root (nodes pa ! i), fc_proto_node_index = i, fc_payload_status = Pending\<rparr>"

lemma get_node_children_pending:
  assumes "fc_proto_node_index node < length (nodes pa)" "fc_payload_status node = Pending"
  shows "get_node_children pa node = Ok ((with_status node Empty, nodes pa ! fc_proto_node_index node) #
    (if has_full_node (nodes pa ! fc_proto_node_index node)
     then [(with_status node Full, nodes pa ! fc_proto_node_index node)] else []))"
  using assms by (simp add: get_node_children_def)

lemma get_node_children_settled:
  assumes "wf_array pa" "fc_proto_node_index node < length (nodes pa)" "fc_payload_status node \<noteq> Pending"
  shows "get_node_children pa node = Ok (map (\<lambda>c. (pending_node pa c, nodes pa ! c))
    (filter (\<lambda>c. child_side (get_parent_payload_status (nodes pa ! c)) = fc_payload_status node)
      (children pa ! fc_proto_node_index node)))"
proof -
  let ?cs = "children pa ! fc_proto_node_index node"
  let ?P = "\<lambda>c. child_side (get_parent_payload_status (nodes pa ! c)) = fc_payload_status node"
  have "collect_results (\<lambda>i. bindE (ok_or (InvalidNodeIndex i) (vec_get (nodes pa) i)) (\<lambda>child.
        Ok (if child_side (get_parent_payload_status child) = fc_payload_status node
            then Some (\<lparr>fc_root = node_root child, fc_proto_node_index = i, fc_payload_status = Pending\<rparr>, child)
            else None))) ?cs = Ok (map (\<lambda>c. if ?P c then Some (pending_node pa c, nodes pa ! c) else None) ?cs)"
    using wf_child [OF assms(1,2)] by (intro collect_results_total) auto
  then show ?thesis
    using assms wf_children_length [OF assms(1)] map_filter_if [of ?P "\<lambda>c. (pending_node pa c, nodes pa ! c)" ?cs]
    by (simp add: get_node_children_def)
qed

text \<open>The steps of the walk, on pairs of an index and a payload status.\<close>

definition fc_edge :: "proto_array \<Rightarrow> nat \<times> payload_status \<Rightarrow> nat \<times> payload_status \<Rightarrow> bool" where
  "fc_edge pa x y \<longleftrightarrow>
     (if snd x = Pending
      then fst y = fst x \<and> (snd y = Empty \<or> (snd y = Full \<and> has_full_node (nodes pa ! fst x)))
      else snd y = Pending \<and> fst y < length (nodes pa) \<and> node_parent (nodes pa ! fst y) = Some (fst x) \<and>
        child_side (get_parent_payload_status (nodes pa ! fst y)) = snd x)"

abbreviation fc_pos :: "indexed_fork_choice_node \<Rightarrow> nat \<times> payload_status" where
  "fc_pos n \<equiv> (fc_proto_node_index n, fc_payload_status n)"

definition good_node :: "proto_array \<Rightarrow> indexed_fork_choice_node \<Rightarrow> bool" where
  "good_node pa n \<longleftrightarrow> fc_proto_node_index n < length (nodes pa) \<and> fc_root n = node_root (nodes pa ! fc_proto_node_index n)"

lemma get_node_children_ok:
  assumes "wf_array pa" "good_node pa node"
  obtains cs where "get_node_children pa node = Ok cs"
    "\<And>c p. (c, p) \<in> set cs \<longleftrightarrow> good_node pa c \<and> p = nodes pa ! fc_proto_node_index c \<and> fc_edge pa (fc_pos node) (fc_pos c)"
proof (cases "fc_payload_status node = Pending")
  case True
  have i: "fc_proto_node_index node < length (nodes pa)" using assms(2) by (simp add: good_node_def)
  show thesis
  proof (rule that [OF get_node_children_pending [OF i True]])
    fix c p
    show "(c, p) \<in> set ((with_status node Empty, nodes pa ! fc_proto_node_index node) #
        (if has_full_node (nodes pa ! fc_proto_node_index node)
         then [(with_status node Full, nodes pa ! fc_proto_node_index node)] else [])) \<longleftrightarrow>
      good_node pa c \<and> p = nodes pa ! fc_proto_node_index c \<and> fc_edge pa (fc_pos node) (fc_pos c)"
      using assms(2) True by (cases c; cases node) (auto simp: good_node_def fc_edge_def with_status_def)
  qed
next
  case False
  have i: "fc_proto_node_index node < length (nodes pa)" using assms(2) by (simp add: good_node_def)
  show thesis
  proof (rule that [OF get_node_children_settled [OF assms(1) i False]])
    fix c p
    show "(c, p) \<in> set (map (\<lambda>c. (pending_node pa c, nodes pa ! c))
        (filter (\<lambda>c. child_side (get_parent_payload_status (nodes pa ! c)) = fc_payload_status node)
          (children pa ! fc_proto_node_index node))) \<longleftrightarrow>
      good_node pa c \<and> p = nodes pa ! fc_proto_node_index c \<and> fc_edge pa (fc_pos node) (fc_pos c)"
      using wf_child [OF assms(1) i] False by (cases c) (auto simp: good_node_def fc_edge_def)
  qed
qed

lemma fc_edge_forward:
  assumes "wf_array pa" "fc_edge pa x y"
  shows "fst x < fst y \<or> (fst x = fst y \<and> snd x = Pending \<and> snd y \<noteq> Pending)"
  using assms wf_parent [OF assms(1)] by (auto simp: fc_edge_def split: if_splits)

section \<open>Viable branches\<close>

text \<open>A block is excluded when it, or an ancestor above the start, ends on an invalid payload.\<close>

inductive excluded :: "proto_array \<Rightarrow> nat \<Rightarrow> nat \<Rightarrow> bool" for pa start where
  excluded_own: "start < i \<Longrightarrow> i < length (nodes pa) \<Longrightarrow> latest_payload_invalid pa (nodes pa ! i) \<Longrightarrow> excluded pa start i"
| excluded_parent: "start < i \<Longrightarrow> i < length (nodes pa) \<Longrightarrow> node_parent (nodes pa ! i) = Some p \<Longrightarrow>
    excluded pa start p \<Longrightarrow> excluded pa start i"

inductive_simps excluded_iff: "excluded pa start i"

text \<open>
  The filter of the specification, as a recursive definition: a settled node is viable if it has no
  children left and passes the checkpoint test, or if one of its children is viable; an unsettled node
  is viable if one of its two settled nodes is.
\<close>

inductive viable ::
  "fc_spec \<Rightarrow> proto_array \<Rightarrow> nat \<Rightarrow> slot \<Rightarrow> checkpoint \<Rightarrow> checkpoint \<Rightarrow> nat \<times> payload_status \<Rightarrow> bool"
  for spec pa start current_slot jcp fcp where
  viable_leaf: "\<not> excluded pa start i \<Longrightarrow> s = Empty \<or> (s = Full \<and> has_full_node (nodes pa ! i)) \<Longrightarrow>
    (\<And>c. fc_edge pa (i, s) (c, Pending) \<Longrightarrow> excluded pa start c) \<Longrightarrow>
    node_is_viable_for_head spec pa (nodes pa ! i) current_slot jcp fcp \<Longrightarrow>
    viable spec pa start current_slot jcp fcp (i, s)"
| viable_branch: "\<not> excluded pa start i \<Longrightarrow> s = Empty \<or> (s = Full \<and> has_full_node (nodes pa ! i)) \<Longrightarrow>
    fc_edge pa (i, s) (c, Pending) \<Longrightarrow> \<not> excluded pa start c \<Longrightarrow>
    viable spec pa start current_slot jcp fcp (c, Pending) \<Longrightarrow>
    viable spec pa start current_slot jcp fcp (i, s)"
| viable_pending: "s \<noteq> Pending \<Longrightarrow> viable spec pa start current_slot jcp fcp (i, s) \<Longrightarrow>
    viable spec pa start current_slot jcp fcp (i, Pending)"

inductive_simps viable_iff: "viable spec pa start current_slot jcp fcp (i, s)"

lemma exclude_pass:
  assumes wf: "wf_array pa" and k: "start < k" "k \<le> length (nodes pa)"
  shows "try_fold (exclude_step pa) (replicate (length (nodes pa)) False) [Suc start..<k] =
    Ok (map (\<lambda>i. i < k \<and> excluded pa start i) [0..<length (nodes pa)])"
  using k
proof (induction k)
  case (Suc k)
  let ?n = "length (nodes pa)"
  show ?case
  proof (cases "start < k")
    case False
    then have "k = start" using Suc.prems by simp
    moreover have "\<not> excluded pa start i" if "i \<le> start" for i using that by (subst excluded_iff) simp
    ultimately have "map (\<lambda>i. i < Suc k \<and> excluded pa start i) [0..<?n] = replicate ?n False"
      by (auto intro!: nth_equalityI simp: less_Suc_eq_le)
    with \<open>k = start\<close> show ?thesis by simp
  next
    case True
    let ?ex = "map (\<lambda>i. i < k \<and> excluded pa start i) [0..<?n]"
    have kn: "k < ?n" using Suc.prems by simp
    have IH: "try_fold (exclude_step pa) (replicate ?n False) [Suc start..<k] = Ok ?ex"
      using Suc True by simp
    have ex: "excluded pa start k \<longleftrightarrow>
        latest_payload_invalid pa (nodes pa ! k) \<or> (\<exists>p. node_parent (nodes pa ! k) = Some p \<and> excluded pa start p)"
      using True kn by (subst excluded_iff) auto
    have "exclude_step pa ?ex k = Ok (?ex[k := excluded pa start k])"
    proof (cases "node_parent (nodes pa ! k)")
      case None
      with ex kn show ?thesis by (simp add: exclude_step_def)
    next
      case (Some p)
      with wf_parent [OF wf kn] have "p < k" by simp
      with Some ex kn show ?thesis by (auto simp: exclude_step_def)
    qed
    moreover have "?ex[k := excluded pa start k] = map (\<lambda>i. i < Suc k \<and> excluded pa start i) [0..<?n]"
      using kn by (intro nth_equalityI) (auto simp: nth_list_update less_Suc_eq)
    moreover have "[Suc start..<Suc k] = [Suc start..<k] @ [k]" using True by simp
    ultimately show ?thesis using IH by (simp add: try_fold_append)
  qed
qed simp

lemma split_children_ok:
  assumes wf: "wf_array pa" and i: "i < length (nodes pa)" and ex: "length ex = length (nodes pa)"
  shows "split_children pa ex i = Ok
    (filter (\<lambda>c. \<not> ex ! c \<and> child_side (get_parent_payload_status (nodes pa ! c)) = Empty) (children pa ! i),
     filter (\<lambda>c. \<not> ex ! c \<and> child_side (get_parent_payload_status (nodes pa ! c)) = Full) (children pa ! i))"
proof -
  have "try_fold (\<lambda>(es, fs) c.
      bindE (ok_or (InvalidNodeIndex c) (vec_get ex c)) (\<lambda>is_excluded.
        if is_excluded then Ok (es, fs)
        else bindE (ok_or (InvalidNodeIndex c) (vec_get (nodes pa) c)) (\<lambda>child.
          case get_parent_payload_status child of
            ParentFull \<Rightarrow> Ok (es, fs @ [c]) | ParentEmpty \<Rightarrow> Ok (es @ [c], fs) | PreGloas \<Rightarrow> Ok (es @ [c], fs))))
      (es, fs) cs = Ok
    (es @ filter (\<lambda>c. \<not> ex ! c \<and> child_side (get_parent_payload_status (nodes pa ! c)) = Empty) cs,
     fs @ filter (\<lambda>c. \<not> ex ! c \<and> child_side (get_parent_payload_status (nodes pa ! c)) = Full) cs)"
    if "\<And>c. c \<in> set cs \<Longrightarrow> c < length (nodes pa)" for cs es fs
    using that ex
  proof (induction cs arbitrary: es fs)
    case (Cons c cs)
    then have "c < length ex" "c < length (nodes pa)" by auto
    then show ?case using Cons by (cases "get_parent_payload_status (nodes pa ! c)") auto
  qed simp
  from this [of "children pa ! i" "[]" "[]"] show ?thesis
    using wf_child [OF wf i] i wf_children_length [OF wf] by (simp add: split_children_def)
qed

lemma viable_excluded: "viable spec pa start cs j f (i, s) \<Longrightarrow> \<not> excluded pa start i"
  by (induction "(i, s)" arbitrary: i s rule: viable.induct) auto

lemma viable_Pending:
  "viable spec pa start cs j f (i, Pending) \<longleftrightarrow> viable spec pa start cs j f (i, Empty) \<or> viable spec pa start cs j f (i, Full)"
  by (subst viable_iff) (metis payload_status.exhaust payload_status.distinct)

lemma viable_Full: "viable spec pa start cs j f (i, Full) \<Longrightarrow> has_full_node (nodes pa ! i)"
  by (subst (asm) viable_iff) auto

text \<open>A settled node, decided from the children that are left on its side.\<close>

lemma viable_settled:
  assumes wf: "wf_array pa" and i: "i < length (nodes pa)" and ne: "\<not> excluded pa start i"
    and s: "s = Empty \<or> (s = Full \<and> has_full_node (nodes pa ! i))"
    and cs: "set cs = {c \<in> set (children pa ! i). \<not> excluded pa start c \<and>
      child_side (get_parent_payload_status (nodes pa ! c)) = s}"
    and V: "\<And>c. c \<in> set cs \<Longrightarrow> (c, Pending) \<in> V \<longleftrightarrow> viable spec pa start t j f (c, Pending)"
  shows "viable spec pa start t j f (i, s) \<longleftrightarrow>
    (if cs = [] then node_is_viable_for_head spec pa (nodes pa ! i) t j f else list_ex (\<lambda>c. (c, Pending) \<in> V) cs)"
proof -
  have edge: "fc_edge pa (i, s) (c, Pending) \<longleftrightarrow>
      c \<in> set (children pa ! i) \<and> child_side (get_parent_payload_status (nodes pa ! c)) = s" for c
    using wf_child [OF wf i] s by (auto simp: fc_edge_def)
  have some: "c \<in> set cs \<longleftrightarrow> fc_edge pa (i, s) (c, Pending) \<and> \<not> excluded pa start c" for c
    using cs edge by auto
  have "viable spec pa start t j f (i, s) \<longleftrightarrow>
      ((\<forall>c. fc_edge pa (i, s) (c, Pending) \<longrightarrow> excluded pa start c) \<and> node_is_viable_for_head spec pa (nodes pa ! i) t j f) \<or>
      (\<exists>c. fc_edge pa (i, s) (c, Pending) \<and> \<not> excluded pa start c \<and> viable spec pa start t j f (c, Pending))"
    using ne s by (subst viable_iff) auto
  also have "\<dots> \<longleftrightarrow> (cs = [] \<and> node_is_viable_for_head spec pa (nodes pa ! i) t j f) \<or>
      (\<exists>c \<in> set cs. (c, Pending) \<in> V)"
  proof -
    have "(\<forall>c. fc_edge pa (i, s) (c, Pending) \<longrightarrow> excluded pa start c) \<longleftrightarrow> set cs = {}"
      by (simp add: set_eq_iff some)
    moreover have "(\<exists>c. fc_edge pa (i, s) (c, Pending) \<and> \<not> excluded pa start c \<and> viable spec pa start t j f (c, Pending)) \<longleftrightarrow>
        (\<exists>c \<in> set cs. (c, Pending) \<in> V)"
      using V by (auto simp: some)
    ultimately show ?thesis by simp
  qed
  finally show ?thesis by (auto simp: list_ex_iff)
qed

definition viable_from :: "fc_spec \<Rightarrow> proto_array \<Rightarrow> nat \<Rightarrow> slot \<Rightarrow> checkpoint \<Rightarrow> checkpoint \<Rightarrow> nat \<Rightarrow> (nat \<times> payload_status) set" where
  "viable_from spec pa start t j f k = {(i, s). k \<le> i \<and> i < length (nodes pa) \<and> viable spec pa start t j f (i, s)}"

lemma filter_step_sides:
  assumes "vec_get ex k = Some False" "vec_get (nodes pa) k = Some node" "split_children pa ex k = Ok (es, fs)"
    and "ev \<longleftrightarrow> (if es = [] then node_is_viable_for_head spec pa node t j f else list_ex (\<lambda>i. (i, Pending) \<in> V) es)"
    and "fv \<longleftrightarrow> has_full_node node \<and>
      (if fs = [] then node_is_viable_for_head spec pa node t j f else list_ex (\<lambda>i. (i, Pending) \<in> V) fs)"
  shows "filter_step spec pa t j f ex V k =
    Ok (V \<union> {x. fst x = k \<and> (snd x = Empty \<and> ev \<or> snd x = Full \<and> fv \<or> snd x = Pending \<and> (ev \<or> fv))})"
  unfolding filter_step_def assms(1-3) Let_def ok_or_def bindE_def option.case sum.case prod.case if_False assms(4,5) [symmetric]
  by auto

lemma filter_step_viable:
  assumes wf: "wf_array pa" and k: "k < length (nodes pa)" 
  shows "filter_step spec pa t j f (map (excluded pa start) [0..<length (nodes pa)])
      (viable_from spec pa start t j f (Suc k)) k = Ok (viable_from spec pa start t j f k)"
proof -
  let ?ex = "map (excluded pa start) [0..<length (nodes pa)]"
  let ?V = "viable_from spec pa start t j f (Suc k)"
  let ?v = "viable spec pa start t j f"
  let ?side = "\<lambda>s. filter (\<lambda>c. \<not> ?ex ! c \<and> child_side (get_parent_payload_status (nodes pa ! c)) = s) (children pa ! k)"
  let ?test = "\<lambda>cs. if cs = [] then node_is_viable_for_head spec pa (nodes pa ! k) t j f
    else list_ex (\<lambda>i. (i, Pending) \<in> ?V) cs"
  have split: "(\<forall>s. R (k, s) \<longleftrightarrow> ?v (k, s)) \<Longrightarrow> W = ?V \<union> {x. fst x = k \<and> R x} \<Longrightarrow> W = viable_from spec pa start t j f k" for R W
    using k by (auto simp: viable_from_def le_less Suc_le_eq)
  show ?thesis
  proof (cases "excluded pa start k")
    case True
    with k viable_excluded [of spec pa start t j f k] show ?thesis
      by (auto simp: filter_step_def viable_from_def le_less Suc_le_eq)
  next
    case False
    have c: "k < c \<and> c < length (nodes pa)" if "c \<in> set (children pa ! k)" for c
      using that wf_child [OF wf k] wf_parent [OF wf] by auto
    have side: "set (?side s) = {c \<in> set (children pa ! k). \<not> excluded pa start c \<and>
        child_side (get_parent_payload_status (nodes pa ! c)) = s}" for s
      using c by auto
    have V: "(c, Pending) \<in> ?V \<longleftrightarrow> ?v (c, Pending)" if "c \<in> set (?side s)" for c s
      using that c by (simp add: viable_from_def Suc_le_eq)
    have settled: "?v (k, s) \<longleftrightarrow> ?test (?side s)" if "s = Empty \<or> (s = Full \<and> has_full_node (nodes pa ! k))" for s
      using side V by (rule viable_settled [OF wf k False that])
    have E: "?v (k, Empty) \<longleftrightarrow> ?test (?side Empty)"
      by (rule settled) simp
    have F: "?v (k, Full) \<longleftrightarrow> has_full_node (nodes pa ! k) \<and> ?test (?side Full)"
      using settled [of Full] viable_Full [of spec pa start t j f k] by blast
    have "filter_step spec pa t j f ?ex ?V k = Ok (?V \<union> {x. fst x = k \<and>
        (snd x = Empty \<and> ?v (k, Empty) \<or> snd x = Full \<and> ?v (k, Full) \<or> snd x = Pending \<and> (?v (k, Empty) \<or> ?v (k, Full)))})"
      using False k split_children_ok [OF wf k, of ?ex] by (intro filter_step_sides [OF _ _ _ E F]) simp_all
    moreover have "(snd x = Empty \<and> ?v (k, Empty) \<or> snd x = Full \<and> ?v (k, Full) \<or>
        snd x = Pending \<and> (?v (k, Empty) \<or> ?v (k, Full))) \<longleftrightarrow> ?v (k, snd x)" for x :: "nat \<times> payload_status"
      using viable_Pending by (cases "snd x") simp_all
    ultimately have "filter_step spec pa t j f ?ex ?V k = Ok (?V \<union> {x. fst x = k \<and> ?v (k, snd x)})" by simp
    then show ?thesis using split [of "\<lambda>x. ?v (k, snd x)"] by simp
  qed
qed

lemma filter_pass:
  assumes wf: "wf_array pa" and k: "k \<le> length (nodes pa)"
  shows "try_fold (filter_step spec pa t j f (map (excluded pa start) [0..<length (nodes pa)])) {}
    (rev [k..<length (nodes pa)]) = Ok (viable_from spec pa start t j f k)"
  using k
proof (induction "length (nodes pa) - k" arbitrary: k)
  case 0
  then show ?case by (auto simp: viable_from_def)
next
  case (Suc m)
  then have "k < length (nodes pa)" and "m = length (nodes pa) - Suc k" by simp_all
  with Suc.hyps(1) [of "Suc k"] filter_step_viable [OF wf] show ?case
    by (simp add: upt_conv_Cons try_fold_append)
qed

lemma get_filtered_node_tree_viable:
  assumes wf: "wf_array pa" and start: "start < length (nodes pa)"
  shows "get_filtered_node_tree spec pa start t j f = Ok (viable_from spec pa start t j f start)"
proof -
  have "try_fold (exclude_step pa) (replicate (length (nodes pa)) False) [Suc start..<length (nodes pa)] =
      Ok (map (excluded pa start) [0..<length (nodes pa)])"
    using exclude_pass [OF wf start] by (simp cong: map_cong)
  then show ?thesis
    using filter_pass [OF wf, of start] start by (simp add: get_filtered_node_tree_def filter_node_tree_def)
qed

section \<open>The walk to the head\<close>

lemma collect_results_in:
  "collect_results f xs = Inr ys \<Longrightarrow> y \<in> set ys \<Longrightarrow> \<exists>x \<in> set xs. f x = Inr y"
  by (induction xs arbitrary: ys) auto

lemma collect_results_out:
  "collect_results f xs = Inr ys \<Longrightarrow> x \<in> set xs \<Longrightarrow> \<exists>y \<in> set ys. f x = Inr y"
  by (induction xs arbitrary: ys) auto

text \<open>What the children of a node are compared by: weight, then root, then tie-breaker.\<close>

definition ghost_key ::
  "fc_spec \<Rightarrow> proto_array \<Rightarrow> bool \<Rightarrow> hash256 \<Rightarrow> slot \<Rightarrow> justified_balances \<Rightarrow> indexed_fork_choice_node \<Rightarrow>
   (u64 \<times> hash256 \<times> u8, proto_error) result" where
  "ghost_key spec pa boost broot t bal c =
     bindE (get_weight spec pa c (nodes pa ! fc_proto_node_index c) boost broot t bal) (\<lambda>w.
     bindE (get_payload_status_tiebreaker spec pa c (nodes pa ! fc_proto_node_index c) t broot) (\<lambda>tb.
       Ok (w, fc_root c, tb)))"

lemma best_child_cases:
  assumes ne: "cs \<noteq> []" and p: "\<forall>x \<in> set cs. snd x = nodes pa ! fc_proto_node_index (fst x)"
  obtains (best) c k where "best_child spec pa boost broot t bal cs = Ok c" "c \<in> fst ` set cs"
      "ghost_key spec pa boost broot t bal c = Ok k"
      "\<And>c'. c' \<in> fst ` set cs \<Longrightarrow> \<exists>k'. ghost_key spec pa boost broot t bal c' = Ok k' \<and> k' \<le> k"
  | (failed) e c where "best_child spec pa boost broot t bal cs = Err e" "c \<in> fst ` set cs"
      "ghost_key spec pa boost broot t bal c = Err e"
proof -
  let ?f = "\<lambda>(child, proto_node).
     bindE (get_weight spec pa child proto_node boost broot t bal) (\<lambda>w.
     bindE (get_payload_status_tiebreaker spec pa child proto_node t broot) (\<lambda>tiebreaker.
       Ok (child, w, tiebreaker)))"
  let ?key = "\<lambda>(child, w, tiebreaker). (w, fc_root child, tiebreaker)"
  have key: "ghost_key spec pa boost broot t bal (fst x) = bindE (?f x) (\<lambda>y. Ok (?key y))" if "x \<in> set cs" for x
  proof -
    obtain c q where x: "x = (c, q)" by (cases x)
    with that p have "q = nodes pa ! fc_proto_node_index c" by auto
    with x show ?thesis
      by (cases "get_weight spec pa c q boost broot t bal"; cases "get_payload_status_tiebreaker spec pa c q t broot")
        (simp_all add: ghost_key_def)
  qed
  show thesis
  proof (cases "collect_results ?f cs")
    case (Inl e)
    then obtain x where "x \<in> set cs" "?f x = Inl e" using collect_results_Err by meson
    with Inl key show thesis by (intro failed [of e "fst x"]) (simp_all add: best_child_def)
  next
    case (Inr ws)
    then have "ws \<noteq> []" using collect_results_Ok_length ne by fastforce
    then obtain y where y: "max_by_key ?key ws = Some y" by (metis max_by_key_None option.exhaust)
    then obtain x where x: "x \<in> set cs" "?f x = Inr y" using collect_results_in [OF Inr] max_by_key_Some by meson
    have fst: "fst y = fst x" using x(2) by (auto split: prod.splits)
    have "\<exists>k'. ghost_key spec pa boost broot t bal c' = Ok k' \<and> k' \<le> ?key y" if c': "c' \<in> fst ` set cs" for c'
    proof -
      from c' obtain x' where x': "x' \<in> set cs" "c' = fst x'" by auto
      with collect_results_out [OF Inr] obtain y' where "y' \<in> set ws" "?f x' = Inr y'" by meson
      with key [OF x'(1)] x'(2) max_by_key_ge [OF y] show ?thesis by simp
    qed
    with x y fst key Inr show thesis by (intro best [of "fst x" "?key y"]) (simp_all add: best_child_def)
  qed
qed

text \<open>
  The fork choice rule: from a node, go to a viable child with the greatest key, until there is none.
\<close>

inductive ghost_walk ::
  "fc_spec \<Rightarrow> proto_array \<Rightarrow> (nat \<times> payload_status) set \<Rightarrow> bool \<Rightarrow> hash256 \<Rightarrow> slot \<Rightarrow> justified_balances \<Rightarrow>
   indexed_fork_choice_node \<Rightarrow> indexed_fork_choice_node \<Rightarrow> bool" for spec pa V boost broot t bal where
  ghost_stop: "(\<And>c. good_node pa c \<Longrightarrow> fc_edge pa (fc_pos h) (fc_pos c) \<Longrightarrow> fc_pos c \<notin> V) \<Longrightarrow>
    ghost_walk spec pa V boost broot t bal h h"
| ghost_next: "good_node pa c \<Longrightarrow> fc_edge pa (fc_pos h) (fc_pos c) \<Longrightarrow> fc_pos c \<in> V \<Longrightarrow>
    ghost_key spec pa boost broot t bal c = Ok k \<Longrightarrow>
    (\<And>c'. good_node pa c' \<Longrightarrow> fc_edge pa (fc_pos h) (fc_pos c') \<Longrightarrow> fc_pos c' \<in> V \<Longrightarrow>
      \<exists>k'. ghost_key spec pa boost broot t bal c' = Ok k' \<and> k' \<le> k) \<Longrightarrow>
    ghost_walk spec pa V boost broot t bal c h' \<Longrightarrow> ghost_walk spec pa V boost broot t bal h h'"

abbreviation head_measure :: "proto_array \<Rightarrow> indexed_fork_choice_node \<Rightarrow> nat" where
  "head_measure pa h \<equiv> 2 * (length (nodes pa) - fc_proto_node_index h) + (if fc_payload_status h = Pending then 1 else 0)"

lemma head_measure_edge:
  assumes "wf_array pa" "good_node pa c" "fc_edge pa (fc_pos h) (fc_pos c)"
  shows "head_measure pa c < head_measure pa h"
  using fc_edge_forward [OF assms(1,3)] assms(2) by (auto simp: good_node_def)

lemma head_loop_cases:
  assumes wf: "wf_array pa" and good: "good_node pa h" and fuel: "head_measure pa h < fuel"
  obtains (head) h' where "head_loop fuel spec pa V boost broot t bal h = Ok h'"
      "ghost_walk spec pa V boost broot t bal h h'" "good_node pa h'"
  | (failed) e c where "head_loop fuel spec pa V boost broot t bal h = Err e" "good_node pa c" "fc_pos c \<in> V"
      "snd (fc_pos c) = Full \<Longrightarrow> has_full_node (nodes pa ! fc_proto_node_index c)"
      "ghost_key spec pa boost broot t bal c = Err e"
  using good fuel
proof (induction fuel arbitrary: h thesis)
  case (Suc fuel)
  obtain cs where cs: "get_node_children pa h = Ok cs"
    "\<And>c p. (c, p) \<in> set cs \<longleftrightarrow> good_node pa c \<and> p = nodes pa ! fc_proto_node_index c \<and> fc_edge pa (fc_pos h) (fc_pos c)"
    using get_node_children_ok [OF wf Suc.prems(3)] by blast
  let ?cs = "filter (\<lambda>(child, _). fc_pos child \<in> V) cs"
  have loop: "head_loop (Suc fuel) spec pa V boost broot t bal h =
      (if ?cs = [] then Ok h else bindE (best_child spec pa boost broot t bal ?cs)
         (head_loop fuel spec pa V boost broot t bal))"
    using cs(1) by (simp add: head_loop.simps)
  have mem: "c \<in> fst ` set ?cs \<longleftrightarrow> good_node pa c \<and> fc_edge pa (fc_pos h) (fc_pos c) \<and> fc_pos c \<in> V" for c
    using cs(2) by force
  show ?case
  proof (cases "?cs = []")
    case True
    then have "fc_pos c \<notin> V" if "good_node pa c" "fc_edge pa (fc_pos h) (fc_pos c)" for c
      using mem [of c] that by auto
    then have "ghost_walk spec pa V boost broot t bal h h" by (rule ghost_stop)
    with Suc.prems(1,3) loop True show ?thesis by simp
  next
    case False
    have p: "\<forall>x \<in> set ?cs. snd x = nodes pa ! fc_proto_node_index (fst x)" using cs(2) by auto
    from False p show ?thesis
    proof (cases rule: best_child_cases [where spec = spec and boost = boost and broot = broot and t = t and bal = bal])
      case (best c k)
      have c: "good_node pa c" "fc_edge pa (fc_pos h) (fc_pos c)" "fc_pos c \<in> V" using best(2) mem by blast+
      have less: "head_measure pa c < fuel" using head_measure_edge [OF wf c(1,2)] Suc.prems(4) by linarith
      have step: "head_loop (Suc fuel) spec pa V boost broot t bal h = head_loop fuel spec pa V boost broot t bal c"
        using loop False best(1) by simp
      show ?thesis
      proof (rule Suc.IH [OF _ _ c(1) less])
        fix h'
        assume h': "head_loop fuel spec pa V boost broot t bal c = Ok h'" "ghost_walk spec pa V boost broot t bal c h'" "good_node pa h'"
        have "ghost_walk spec pa V boost broot t bal h h'"
          using c best(3) _ h'(2) by (rule ghost_next) (use best(4) mem in blast)
        with h' step Suc.prems(1) show ?thesis by simp
      qed (use step Suc.prems(2) in auto)
    next
      case (failed e c)
      then have c: "good_node pa c" "fc_edge pa (fc_pos h) (fc_pos c)" "fc_pos c \<in> V" using mem by blast+
      from c(2) have "snd (fc_pos c) = Full \<Longrightarrow> has_full_node (nodes pa ! fc_proto_node_index c)"
        by (auto simp: fc_edge_def split: if_splits)
      with failed c loop False Suc.prems(2) show ?thesis by simp
    qed
  qed
qed simp

subsection \<open>The walk returns\<close>

lemma get_ancestor_node_returns:
  assumes "wf_array pa" shows "get_ancestor_node pa r sl \<noteq> Err NoReturn"
  using assms ancestor_walk_returns [OF assms] parent_below_fuel [OF assms]
  by (auto simp: get_ancestor_node_def bindE_eq_Inl ok_or_def vec_get_def split: option.splits if_splits)

lemma is_supporting_vote_returns:
  assumes "wf_array pa" shows "is_supporting_vote pa node msg \<noteq> Err NoReturn"
  using get_ancestor_node_returns [OF assms]
  by (auto simp: is_supporting_vote_def bindE_eq_Inl ok_or_def vec_get_def split: option.splits if_splits)

lemma get_proposer_score_returns: "get_proposer_score spec bal \<noteq> Err NoReturn"
  by (simp add: get_proposer_score_def ok_or_def split: option.splits)

lemma get_weight_returns:
  assumes "wf_array pa" shows "get_weight spec pa c p boost broot t bal \<noteq> Err NoReturn"
  using is_supporting_vote_returns [OF assms] get_proposer_score_returns
  by (auto simp: get_weight_def Let_def bindE_eq_Inl split: if_splits)

lemma payload_votes_return:
  "payload_timeliness spec p b \<noteq> Err NoReturn" "payload_data_availability spec p b \<noteq> Err NoReturn"
  by (cases p; simp)+

lemma should_extend_payload_returns: "should_extend_payload spec pa c p t broot \<noteq> Err NoReturn"
  using payload_votes_return
  by (auto simp: should_extend_payload_def bindE_eq_Inl ok_or_def split: proto_node.splits option.splits if_splits)

lemma tiebreaker_returns: "get_payload_status_tiebreaker spec pa c p t broot \<noteq> Err NoReturn"
  using should_extend_payload_returns by (auto simp: get_payload_status_tiebreaker_def bindE_eq_Inl split: if_splits)

lemma should_apply_proposer_boost_returns: "should_apply_proposer_boost spec pa broot bal \<noteq> Err NoReturn"
  by (auto simp: should_apply_proposer_boost_def bindE_eq_Inl ok_or_def split: option.splits if_splits)

lemma ghost_key_returns:
  assumes "wf_array pa" shows "ghost_key spec pa boost broot t bal c \<noteq> Err NoReturn"
  using get_weight_returns [OF assms] tiebreaker_returns by (auto simp: ghost_key_def bindE_eq_Inl)

subsection \<open>The walk succeeds\<close>

text \<open>The array is one tree, and no block is older than its root.\<close>

definition rooted :: "proto_array \<Rightarrow> bool" where
  "rooted pa \<longleftrightarrow> (\<forall>i < length (nodes pa). (node_parent (nodes pa ! i) = None \<longrightarrow> i = 0) \<and>
     node_slot (nodes pa ! 0) \<le> node_slot (nodes pa ! i))"

text \<open>There is no boosted block, or it is in the tree, not at its root, and its boost is computable.\<close>

definition boost_ok :: "fc_spec \<Rightarrow> proto_array \<Rightarrow> hash256 \<Rightarrow> justified_balances \<Rightarrow> bool" where
  "boost_ok spec pa broot bal \<longleftrightarrow> broot = 0 \<or>
     (rooted pa \<and>
      (case map_of (indices pa) broot of Some i \<Rightarrow> node_parent (nodes pa ! i) \<noteq> None | None \<Rightarrow> False) \<and>
      calculate_committee_fraction spec bal (proposer_score_boost spec) \<noteq> None)"

lemma ancestor_walk_ok:
  assumes wf: "wf_array pa" and r: "rooted pa" and s: "node_slot (nodes pa ! 0) \<le> s"
  shows "i < fuel \<Longrightarrow> i < length (nodes pa) \<Longrightarrow> c < length (nodes pa) \<Longrightarrow> \<exists>a. ancestor_walk fuel pa s c i = Ok a"
proof (induction fuel arbitrary: i c)
  case (Suc fuel)
  show ?case
  proof (cases "node_slot (nodes pa ! i) \<le> s")
    case True
    with Suc.prems show ?thesis by (simp add: ancestor_walk.simps)
  next
    case False
    with s have "i \<noteq> 0" by (metis)
    with r Suc.prems(2) obtain p where p: "node_parent (nodes pa ! i) = Some p" by (auto simp: rooted_def)
    with wf_parent [OF wf Suc.prems(2)] have "p < i" by simp
    with Suc.IH [of p i] Suc.prems p False show ?thesis by (simp add: ancestor_walk.simps)
  qed
qed simp

lemma get_ancestor_node_ok:
  assumes wf: "wf_array pa" and r: "rooted pa" and s: "node_slot (nodes pa ! 0) \<le> s" and i: "map_of (indices pa) root = Some i"
  shows "\<exists>a. get_ancestor_node pa root s = Ok a"
proof -
  have "i < length (nodes pa)" using wf_lookup [OF wf] i by simp
  moreover have "\<exists>p. node_parent (nodes pa ! i) = Some p \<and> p < i" if "\<not> node_slot (nodes pa ! i) \<le> s"
  proof -
    from that s have "i \<noteq> 0" by metis
    with r \<open>i < _\<close> wf_parent [OF wf \<open>i < _\<close>] show ?thesis by (auto simp: rooted_def)
  qed
  ultimately show ?thesis
    using i ancestor_walk_ok [OF wf r s, of _ "Suc (length (nodes pa))" i]
    by (auto simp: get_ancestor_node_def)
qed

lemma should_apply_proposer_boost_ok:
  assumes wf: "wf_array pa" and b: "boost_ok spec pa broot bal"
  shows "\<exists>boost. should_apply_proposer_boost spec pa broot bal = Ok boost \<and> (boost \<longrightarrow> broot \<noteq> 0)"
proof (cases "broot = 0")
  case False
  with b obtain i p where i: "map_of (indices pa) broot = Some i" "node_parent (nodes pa ! i) = Some p"
    by (auto simp: boost_ok_def split: option.splits)
  then have "i < length (nodes pa)" using wf_lookup [OF wf] by simp
  with i wf_parent [OF wf this i(2)] False show ?thesis by (auto simp: should_apply_proposer_boost_def)
qed (auto simp: should_apply_proposer_boost_def)

lemma ex_OkI: "(\<And>e. x \<noteq> Err e) \<Longrightarrow> \<exists>v. x = Ok v"
  by (cases x) auto

lemma get_weight_ok:
  assumes wf: "wf_array pa" and b: "boost_ok spec pa broot bal" "boost \<longrightarrow> broot \<noteq> 0"
    and c: "fc_proto_node_index c < length (nodes pa)"
  shows "\<exists>w. get_weight spec pa c p boost broot t bal = Ok w"
proof (cases boost)
  case True
  with b obtain i where i: "map_of (indices pa) broot = Some i" and r: "rooted pa"
    and s: "\<exists>x. get_proposer_score spec bal = Ok x"
    by (auto simp: boost_ok_def get_proposer_score_def split: option.splits)
  have "node_slot (nodes pa ! 0) \<le> node_slot (nodes pa ! fc_proto_node_index c)"
    using r c by (simp add: rooted_def)
  from get_ancestor_node_ok [OF wf r this i]
  obtain a where "get_ancestor_node pa broot (node_slot (nodes pa ! fc_proto_node_index c)) = Ok a" ..
  with c have "is_supporting_vote pa c \<lparr>lm_slot = t, lm_root = broot, lm_payload_present = False\<rparr> \<noteq> Err e" for e
    by (simp add: is_supporting_vote_def)
  with s show ?thesis by (intro ex_OkI) (auto simp: get_weight_def Let_def bindE_eq_Inl split: if_splits)
qed (auto simp: get_weight_def Let_def)

lemma tiebreaker_ok:
  assumes wf: "wf_array pa" and b: "boost_ok spec pa broot bal" and c: "fc_payload_status c = Full \<Longrightarrow> has_full_node p"
  shows "\<exists>tb. get_payload_status_tiebreaker spec pa c p t broot = Ok tb"
proof (cases "fc_payload_status c = Full \<and> saturating_add (node_slot p) 1 = t")
  case True
  with c obtain n where p: "p = V29 n" "pn_payload_received n" by (cases p) (auto simp: has_full_node_def)
  have "\<exists>x. should_extend_payload spec pa c p t broot = Ok x"
  proof (cases "broot = 0")
    case False
    with b obtain i q where i: "map_of (indices pa) broot = Some i" "node_parent (nodes pa ! i) = Some q"
      by (auto simp: boost_ok_def split: option.splits)
    then have "i < length (nodes pa)" using wf_lookup [OF wf] by simp
    with i wf_parent [OF wf this i(2)] False p True show ?thesis by (intro ex_OkI) (simp add: should_extend_payload_def)
  qed (use True p in \<open>auto simp: should_extend_payload_def\<close>)
  with True show ?thesis by (auto simp: get_payload_status_tiebreaker_def)
next
  case False
  then show ?thesis by (cases "fc_payload_status c") (auto simp: get_payload_status_tiebreaker_def)
qed

lemma ghost_key_ok:
  assumes "wf_array pa" "boost_ok spec pa broot bal" "boost \<longrightarrow> broot \<noteq> 0" "good_node pa c"
    and "fc_payload_status c = Full \<Longrightarrow> has_full_node (nodes pa ! fc_proto_node_index c)"
  shows "\<exists>k. ghost_key spec pa boost broot t bal c = Ok k"
proof -
  have "fc_proto_node_index c < length (nodes pa)" using assms(4) by (simp add: good_node_def)
  from get_weight_ok [OF assms(1-3) this] tiebreaker_ok [OF assms(1,2,5)] show ?thesis by (auto simp: ghost_key_def)
qed

section \<open>The head\<close>

text \<open>The start of the walk is the block of the justified checkpoint.\<close>

lemma find_head_unfold:
  assumes wf: "wf_array pa" and start: "map_of (indices pa) (cp_root j) = Some start"
  shows "find_head spec pa (cp_root j) t j f broot bal =
    (if \<not> viable spec pa start t j f (start, Pending) then Ok (cp_root j, Empty)
     else bindE (should_apply_proposer_boost spec pa broot bal) (\<lambda>boost.
       bindE (head_loop (2 * length (nodes pa) + 2) spec pa (viable_from spec pa start t j f start) boost broot t bal
         (pending_node pa start)) (\<lambda>h. Ok (fc_root h, fc_payload_status h))))"
proof -
  have i: "start < length (nodes pa)" "node_root (nodes pa ! start) = cp_root j" using wf_lookup [OF wf] start by auto
  have "(start, Pending) \<in> viable_from spec pa start t j f start \<longleftrightarrow> viable spec pa start t j f (start, Pending)"
    using i(1) by (simp add: viable_from_def)
  with start i(2) get_filtered_node_tree_viable [OF wf i(1)] show ?thesis
    by (cases "should_apply_proposer_boost spec pa broot bal")
      (simp_all add: find_head_def find_head_walk_def Let_def with_status_def)
qed

lemma good_pending_node: "i < length (nodes pa) \<Longrightarrow> good_node pa (pending_node pa i)"
  by (simp add: good_node_def)

lemma find_head_returns:
  assumes wf: "wf_array pa"
  shows "find_head spec pa (cp_root j) t j f broot bal \<noteq> Err NoReturn"
proof (cases "map_of (indices pa) (cp_root j)")
  case (Some start)
  then have i: "start < length (nodes pa)" using wf_lookup [OF wf] by simp
  have "head_loop (2 * length (nodes pa) + 2) spec pa V boost broot t bal (pending_node pa start) \<noteq> Err NoReturn" for V boost
    using good_pending_node [OF i] by (rule head_loop_cases [OF wf, where fuel = "2 * length (nodes pa) + 2" and spec = spec
          and V = V and boost = boost and broot = broot and t = t and bal = bal])
      (use ghost_key_returns [OF wf] in auto)
  with find_head_unfold [OF wf Some] should_apply_proposer_boost_returns show ?thesis
    by (auto simp: bindE_eq_Inl)
qed (simp add: find_head_def)

lemma find_head_ok:
  assumes wf: "wf_array pa" and start: "map_of (indices pa) (cp_root j) = Some start" and b: "boost_ok spec pa broot bal"
  shows "\<exists>head. find_head spec pa (cp_root j) t j f broot bal = Ok head"
proof -
  have i: "start < length (nodes pa)" using wf_lookup [OF wf] start by simp
  obtain boost where boost: "should_apply_proposer_boost spec pa broot bal = Ok boost" "boost \<longrightarrow> broot \<noteq> 0"
    using should_apply_proposer_boost_ok [OF wf b] by blast
  have "\<exists>h. head_loop (2 * length (nodes pa) + 2) spec pa V boost broot t bal (pending_node pa start) = Ok h" for V
    using good_pending_node [OF i] by (rule head_loop_cases [OF wf, where fuel = "2 * length (nodes pa) + 2" and spec = spec
          and V = V and boost = boost and broot = broot and t = t and bal = bal])
      (simp, blast, metis ghost_key_ok [OF wf b boost(2)] snd_conv sum.distinct(1))
  with boost(1) find_head_unfold [OF wf start] show ?thesis by auto
qed

inductive ancestor :: "proto_array \<Rightarrow> nat \<Rightarrow> nat \<Rightarrow> bool" for pa a where
  ancestor_self: "ancestor pa a a"
| ancestor_child: "ancestor pa a p \<Longrightarrow> i < length (nodes pa) \<Longrightarrow> node_parent (nodes pa ! i) = Some p \<Longrightarrow> ancestor pa a i"

lemma ancestor_trans: "ancestor pa b c \<Longrightarrow> ancestor pa a b \<Longrightarrow> ancestor pa a c"
  by (induction rule: ancestor.induct) (auto intro: ancestor.intros)

lemma fc_edge_ancestor: "fc_edge pa x y \<Longrightarrow> ancestor pa (fst x) (fst y)"
  by (auto simp: fc_edge_def intro: ancestor.intros split: if_splits)

lemma ghost_walk_end:
  assumes "ghost_walk spec pa V boost broot t bal h h'"
  shows "ancestor pa (fc_proto_node_index h) (fc_proto_node_index h')" "fc_pos h \<in> V \<Longrightarrow> fc_pos h' \<in> V"
    and "good_node pa c \<Longrightarrow> fc_edge pa (fc_pos h') (fc_pos c) \<Longrightarrow> fc_pos c \<notin> V"
  using assms by (induction rule: ghost_walk.induct)
    (use fc_edge_ancestor in \<open>fastforce intro: ancestor.intros ancestor_trans\<close>)+

text \<open>A viable node none of whose children is viable is a viable leaf.\<close>

lemma viable_end:
  assumes V: "fc_pos h \<in> viable_from spec pa start t j f start"
    and wf: "wf_array pa" and h: "good_node pa h"
    and stop: "\<And>c. good_node pa c \<Longrightarrow> fc_edge pa (fc_pos h) (fc_pos c) \<Longrightarrow> fc_pos c \<notin> viable_from spec pa start t j f start"
  shows "(fc_payload_status h = Empty \<or> fc_payload_status h = Full \<and> has_full_node (nodes pa ! fc_proto_node_index h)) \<and>
    \<not> excluded pa start (fc_proto_node_index h) \<and>
    node_is_viable_for_head spec pa (nodes pa ! fc_proto_node_index h) t j f"
proof -
  let ?i = "fc_proto_node_index h" and ?v = "viable spec pa start t j f"
  have v: "?v (?i, fc_payload_status h)" "start \<le> ?i" "?i < length (nodes pa)" using V by (simp_all add: viable_from_def)
  have no_child: "\<not> ?v (c, s)" if "fc_edge pa (fc_pos h) (c, s)" "c < length (nodes pa)" for c s
    using stop [of "\<lparr>fc_root = node_root (nodes pa ! c), fc_proto_node_index = c, fc_payload_status = s\<rparr>"] that
      fc_edge_forward [OF wf that(1)] v(2) by (auto simp: good_node_def viable_from_def)
  have ex: "\<not> excluded pa start ?i" using viable_excluded [OF v(1)] .
  show ?thesis
  proof (cases "fc_payload_status h = Pending")
    case True
    then have "?v (?i, Empty) \<or> ?v (?i, Full)" using v(1) viable_Pending by simp
    moreover have "fc_edge pa (fc_pos h) (?i, s)" if "?v (?i, s)" "s \<noteq> Pending" for s
      using that True viable_Full [of spec pa start t j f ?i] by (cases s) (auto simp: fc_edge_def)
    ultimately show ?thesis using no_child v(3) by (metis payload_status.distinct(3,5))
  next
    case False
    have "c < length (nodes pa)" if "fc_edge pa (fc_pos h) (c, Pending)" for c
      using that False by (simp add: fc_edge_def)
    with no_child have "\<not> ?v (c, Pending)" if "fc_edge pa (?i, fc_payload_status h) (c, Pending)" for c
      using that by blast
    with v(1) False ex show ?thesis by (subst (asm) viable_iff) auto
  qed
qed

section \<open>The leaves and their weights\<close>

text \<open>A node of the walk as one number, growing along the steps of the walk.\<close>

fun status_code :: "payload_status \<Rightarrow> nat" where
  "status_code Pending = 0"
| "status_code Empty = 1"
| "status_code Full = 2"

definition pos_code :: "nat \<times> payload_status \<Rightarrow> nat" where
  "pos_code x = 3 * fst x + status_code (snd x)"

definition code_parent :: "proto_array \<Rightarrow> nat \<Rightarrow> nat option" where
  "code_parent pa y =
     (if y mod 3 \<noteq> 0 then Some (3 * (y div 3))
      else map_option (\<lambda>p. pos_code (p, child_side (get_parent_payload_status (nodes pa ! (y div 3)))))
             (node_parent (nodes pa ! (y div 3))))"

lemma status_code_less: "status_code s < 3"
  by (cases s) simp_all

lemma pos_code_div [simp]: "pos_code x div 3 = fst x" and pos_code_mod [simp]: "pos_code x mod 3 = status_code (snd x)"
  using status_code_less [of "snd x"] by (simp_all add: pos_code_def)

lemma pos_code_inj: "pos_code x = pos_code y \<longleftrightarrow> x = y"
proof
  assume "pos_code x = pos_code y"
  then have "fst x = fst y" "status_code (snd x) = status_code (snd y)" by (metis pos_code_div, metis pos_code_mod)
  then show "x = y" by (cases "snd x"; cases "snd y") (auto simp: prod_eq_iff)
qed simp

lemma pos_code_bound: "fst x < n \<Longrightarrow> pos_code x < 3 * n"
  using status_code_less [of "snd x"] by (simp add: pos_code_def)

lemma code_parent_edge:
  assumes "wf_array pa" "fc_edge pa x y"
  shows "code_parent pa (pos_code y) = Some (pos_code x) \<and> pos_code x < pos_code y"
proof -
  have "pos_code x < pos_code y"
    using fc_edge_forward [OF assms] status_code_less [of "snd x"]
    by (cases "snd y") (auto simp: pos_code_def)
  moreover have "code_parent pa (pos_code y) = Some (pos_code x)"
  proof (cases "snd x = Pending")
    case True
    with assms(2) show ?thesis by (auto simp: fc_edge_def code_parent_def pos_code_def)
  next
    case False
    with assms(2) show ?thesis by (cases x) (auto simp: fc_edge_def code_parent_def)
  qed
  ultimately show ?thesis by simp
qed

lemma get_node_children_distinct:
  assumes wf: "wf_array pa" and h: "good_node pa h" and cs: "get_node_children pa h = Ok cs"
  shows "distinct (map (pos_code \<circ> fc_pos \<circ> fst) cs)"
proof (cases "fc_payload_status h = Pending")
  case True
  with get_node_children_pending [OF _ True, of pa] h cs show ?thesis
    by (auto simp: good_node_def with_status_def pos_code_def)
next
  case False
  let ?i = "fc_proto_node_index h"
  have i: "?i < length (nodes pa)" using h by (simp add: good_node_def)
  have "distinct (map (\<lambda>c. pos_code (c, Pending)) (filter P (children pa ! ?i)))" for P
    using wf_children [OF wf i] by (auto simp: distinct_map inj_on_def pos_code_inj)
  with get_node_children_settled [OF wf i False] cs show ?thesis by (auto simp: comp_def)
qed

lemma leaf_loop_returns:
  assumes wf: "wf_array pa"
  shows "dfs_inv (code_parent pa) r W (map (pos_code \<circ> fc_pos) stack) \<Longrightarrow> (\<forall>h \<in> set stack. good_node pa h) \<Longrightarrow>
    W \<subseteq> {..<3 * length (nodes pa)} \<Longrightarrow> 3 * length (nodes pa) \<le> fuel + card W \<Longrightarrow>
    leaf_loop fuel spec pa V boost broot t bal stack leaves \<noteq> Err NoReturn"
proof (induction fuel arbitrary: W stack leaves)
  case 0
  have "W \<union> set (map (pos_code \<circ> fc_pos) stack) \<subseteq> {..<3 * length (nodes pa)}"
    using 0(2,3) pos_code_bound by (auto simp: good_node_def)
  from dfs_bound [OF 0(1) this] 0(4) show ?case by (cases stack) simp_all
next
  case (Suc fuel)
  show ?case
  proof (cases stack)
    case (Cons h rest)
    have h: "good_node pa h" and i: "fc_proto_node_index h < length (nodes pa)" using Suc.prems(2) Cons by (auto simp: good_node_def)
    obtain cs where cs: "get_node_children pa h = Ok cs"
      "\<And>c p. (c, p) \<in> set cs \<longleftrightarrow> good_node pa c \<and> p = nodes pa ! fc_proto_node_index c \<and> fc_edge pa (fc_pos h) (fc_pos c)"
      using get_node_children_ok [OF wf h] by blast
    let ?W = "insert (pos_code (fc_pos h)) W"
    let ?cs = "filter (\<lambda>(child, _). fc_pos child \<in> V) cs"
    have W: "?W \<subseteq> {..<3 * length (nodes pa)}" using Suc.prems(3) pos_code_bound [of "fc_pos h"] i by simp
    have "pos_code (fc_pos h) \<notin> W" using Suc.prems(1) Cons by (auto simp: dfs_inv_def)
    then have card: "3 * length (nodes pa) \<le> fuel + card ?W"
      using Suc.prems(3,4) finite_subset [of W "{..<3 * length (nodes pa)}"] by simp
    have dfs: "dfs_inv (code_parent pa) r ?W (map (pos_code \<circ> fc_pos) (rev (map fst ds) @ rest))"
      if "distinct (map (pos_code \<circ> fc_pos \<circ> fst) ds)" "set ds \<subseteq> set cs" for ds
    proof -
      have "distinct (rev (map (pos_code \<circ> fc_pos \<circ> fst) ds))" using that(1) by simp
      moreover have "code_parent pa c = Some (pos_code (fc_pos h)) \<and> pos_code (fc_pos h) < c"
        if "c \<in> set (rev (map (pos_code \<circ> fc_pos \<circ> fst) ds))" for c
        using that \<open>set ds \<subseteq> set cs\<close> cs(2) code_parent_edge [OF wf] by fastforce
      ultimately have "dfs_inv (code_parent pa) r ?W (rev (map (pos_code \<circ> fc_pos \<circ> fst) ds) @ map (pos_code \<circ> fc_pos) rest)"
        using Suc.prems(1) Cons by (intro dfs_step) (simp_all add: comp_def)
      then show ?thesis by (simp add: rev_map comp_def)
    qed
    have "distinct (map (pos_code \<circ> fc_pos \<circ> fst) ?cs)"
      using get_node_children_distinct [OF wf h cs(1)] distinct_map_filter by blast
    then have "leaf_loop fuel spec pa V boost broot t bal (rev (map fst ?cs) @ rest) leaves \<noteq> Err NoReturn"
      using Suc.prems(2) Cons cs(2) by (intro Suc.IH [OF dfs _ W card]) auto
    moreover have "leaf_loop fuel spec pa V boost broot t bal rest ls \<noteq> Err NoReturn" for ls
      using Suc.prems(2) Cons dfs [of "[]"] by (intro Suc.IH [OF _ _ W card]) (auto simp: comp_def)
    ultimately show ?thesis
      using Cons cs(1) i get_weight_returns [OF wf]
      by (auto simp: leaf_loop.simps(3) Let_def bindE_eq_Inl)
  qed simp
qed

lemma leaves_return:
  assumes wf: "wf_array pa"
  shows "filtered_node_tree_leaves_and_weights spec pa root t j f broot bal \<noteq> Err NoReturn"
proof (cases "map_of (indices pa) root")
  case (Some start)
  then have i: "start < length (nodes pa)" "root = node_root (nodes pa ! start)" using wf_lookup [OF wf] by auto
  have "leaf_loop (3 * length (nodes pa) + 1) spec pa V boost broot t bal [pending_node pa start] [] \<noteq> Err NoReturn" for V boost
    using good_pending_node [OF i(1)]
    by (intro leaf_loop_returns [OF wf, where W = "{}" and r = "pos_code (start, Pending)"]) (auto simp: dfs_inv_def)
  with Some i get_filtered_node_tree_viable [OF wf i(1)] should_apply_proposer_boost_returns show ?thesis
    by (auto simp: filtered_node_tree_leaves_and_weights_def bindE_eq_Inl)
qed (simp add: filtered_node_tree_leaves_and_weights_def)

lemma node_execution_status_returns:
  assumes wf: "wf_array pa"
  shows "node_execution_status pa root s \<noteq> Err NoReturn"
proof -
  have "inherited_execution_status pa root \<noteq> Err NoReturn"
  proof (cases "get_block pa root")
    case (Some node)
    then obtain i where "i < length (nodes pa)" "node = nodes pa ! i"
      by (auto simp: get_block_def vec_get_def split: option.splits if_splits)
    with Some inherited_walk_returns [OF wf, of i "Suc (length (nodes pa))"] show ?thesis
      by (auto simp: inherited_execution_status_def bindE_eq_Inl ok_or_def split: option.splits)
  qed (simp add: inherited_execution_status_def)
  then show ?thesis
    by (auto simp: node_execution_status_def bindE_eq_Inl ok_or_def split: payload_status.splits option.splits)
qed

end
