(* ===== verification/Proto_Weights.thy ===== *)
theory Proto_Weights
  imports Proto_Ghost
begin

text \<open>
  Scores and weights: the checked operations on 64-bit values as operations on integers, the effect of
  applying score changes (every weight grows by the deltas of its subtree), the deltas that votes make,
  and that weights stay the sums of the votes.
\<close>

section \<open>Signed and unsigned 64-bit values\<close>

lemma sint_bounds_64: "- (2 ^ 63) \<le> sint (a :: 64 word)" "sint (a :: 64 word) < 2 ^ 63"
  using sint_ge [of a] sint_lt [of a] by simp_all

lemma sint_range_64:
  "- (2 ^ 63) \<le> x \<Longrightarrow> x < 2 ^ 63 \<Longrightarrow> sint (word_of_int x :: 64 word) = x"
  by (simp add: signed_of_int signed_take_bit_int_eq_self)

lemma uint_of_sint: "uint (a :: 64 word) = (if sint a < 0 then sint a + 2 ^ 64 else sint a)"
proof -
  have "uint a = sint a mod 2 ^ 64"
    using uint_word_of_int [of "sint a", where 'a = 64] by simp
  moreover have "sint a mod 2 ^ 64 = sint a + 2 ^ 64" if "sint a < 0"
  proof -
    have "(sint a + 2 ^ 64) mod 2 ^ 64 = sint a + 2 ^ 64"
      using sint_bounds_64 [of a] that by (intro mod_pos_pos_trivial) simp_all
    then show ?thesis by (simp only: mod_add_self2)
  qed
  moreover have "sint a mod 2 ^ 64 = sint a" if "\<not> sint a < 0"
    using sint_bounds_64 [of a] that by (intro mod_pos_pos_trivial) simp_all
  ultimately show ?thesis by simp
qed

lemma i64_checked_add_exact:
  "map_option sint (i64_checked_add a b) =
     (if - (2 ^ 63) \<le> sint a + sint b \<and> sint a + sint b < 2 ^ 63 then Some (sint a + sint b) else None)"
proof -
  have "a + b = word_of_int (sint a + sint b)" by simp
  then show ?thesis using sint_range_64 [of "sint a + sint b"] by (simp only: i64_checked_add_def split: if_split) auto
qed

lemma i64_checked_sub_exact:
  "map_option sint (i64_checked_sub a b) =
     (if - (2 ^ 63) \<le> sint a - sint b \<and> sint a - sint b < 2 ^ 63 then Some (sint a - sint b) else None)"
proof -
  have "a - b = word_of_int (sint a - sint b)" by simp
  then show ?thesis using sint_range_64 [of "sint a - sint b"] by (simp only: i64_checked_sub_def split: if_split) auto
qed

lemma unsigned_abs_exact: "uint (unsigned_abs a) = \<bar>sint a\<bar>"
proof (cases "sint a < 0")
  case True
  have "uint (- a) = (- sint a) mod 2 ^ 64"
    using uint_word_of_int [of "- sint a", where 'a = 64] by (simp add: word_of_int_minus)
  with True sint_bounds_64 [of a] show ?thesis by (simp add: unsigned_abs_def)
next
  case False
  then show ?thesis using uint_of_sint [of a] by (simp add: unsigned_abs_def)
qed

lemma apply_delta_cases:
  "apply_delta w d i =
     (if 0 \<le> uint w + sint d \<and> uint w + sint d < 2 ^ 64 then Ok (word_of_int (uint w + sint d)) else Err (DeltaOverflow i))"
proof (cases "sint d < 0")
  case True
  have le: "unsigned_abs d \<le> w \<longleftrightarrow> 0 \<le> uint w + sint d"
    using True unsigned_abs_exact [of d] by (auto simp: word_le_def)
  have "w - unsigned_abs d = word_of_int (uint w + sint d)"
    using True by (simp add: unsigned_abs_def)
  moreover have "uint w + sint d < 2 ^ 64" using True uint_lt2p [of w] by simp
  ultimately show ?thesis using True le by (simp add: apply_delta_def checked_sub_def)
next
  case False
  then have "unat w + unat d < 2 ^ 64 \<longleftrightarrow> uint w + sint d < 2 ^ 64"
    using unat_sum_code [of w d] uint_of_sint [of d] by simp
  moreover have "0 \<le> uint w + sint d" using False by simp
  moreover have "w + d = word_of_int (uint w + sint d)" by simp
  ultimately show ?thesis using False by (simp add: apply_delta_def checked_add_def)
qed

section \<open>Subtrees\<close>

definition subtree :: "proto_array \<Rightarrow> nat \<Rightarrow> nat set" where
  "subtree pa i = {j. j < length (nodes pa) \<and> ancestor pa i j}"

definition kids :: "proto_array \<Rightarrow> nat \<Rightarrow> nat set" where
  "kids pa i = {c. c < length (nodes pa) \<and> node_parent (nodes pa ! c) = Some i}"

lemma finite_subtree [simp]: "finite (subtree pa i)" "finite (kids pa i)"
  by (simp_all add: subtree_def kids_def)

lemma ancestor_le:
  assumes "wf_array pa" shows "ancestor pa a b \<Longrightarrow> a \<le> b"
  by (induction rule: ancestor.induct) (use wf_parent [OF assms] in fastforce)+

lemma ancestor_linear: "ancestor pa a j \<Longrightarrow> ancestor pa b j \<Longrightarrow> ancestor pa a b \<or> ancestor pa b a"
proof (induction rule: ancestor.induct)
  case (ancestor_child p i)
  from ancestor_child.prems show ?case
  proof (cases rule: ancestor.cases)
    case ancestor_self
    then show ?thesis using ancestor_child.hyps ancestor.ancestor_child by metis
  next
    case (ancestor_child q)
    then show ?thesis using ancestor_child.IH ancestor_child.hyps by simp
  qed
qed blast

lemma subtree_kids:
  assumes wf: "wf_array pa" and i: "i < length (nodes pa)"
  shows "subtree pa i = insert i (\<Union>c \<in> kids pa i. subtree pa c)"
proof -
  have down: "j = i \<or> (\<exists>c \<in> kids pa i. ancestor pa c j)" if "ancestor pa i j" for j
    using that
  proof (induction rule: ancestor.induct)
    case (ancestor_child p k)
    then show ?case by (auto simp: kids_def intro: ancestor.intros)
  qed simp
  have up: "ancestor pa i j" if "c \<in> kids pa i" "ancestor pa c j" for c j
    using ancestor_trans [OF that(2) ancestor_child [OF ancestor_self]] that(1) by (simp add: kids_def)
  show ?thesis using down up i by (auto simp: subtree_def intro: ancestor_self)
qed

lemma subtree_kids_disjoint:
  assumes wf: "wf_array pa" and c: "c \<in> kids pa i" "c' \<in> kids pa i" "c \<noteq> c'"
  shows "subtree pa c \<inter> subtree pa c' = {}"
proof -
  have "\<not> ancestor pa a b" if "a \<in> kids pa i" "b \<in> kids pa i" "a \<noteq> b" for a b
  proof
    assume "ancestor pa a b"
    then have "ancestor pa a i" using that by (cases rule: ancestor.cases) (auto simp: kids_def)
    then have "a \<le> i" by (rule ancestor_le [OF wf])
    moreover have "i < a" using that(1) wf_parent [OF wf] by (simp add: kids_def)
    ultimately show False by simp
  qed
  then show ?thesis using ancestor_linear c by (fastforce simp: subtree_def)
qed

lemma sum_subtree:
  fixes d :: "nat \<Rightarrow> int"
  assumes wf: "wf_array pa" and i: "i < length (nodes pa)"
  shows "sum d (subtree pa i) = d i + (\<Sum>c \<in> kids pa i. sum d (subtree pa c))"
proof -
  have "i \<notin> subtree pa c" if "c \<in> kids pa i" for c
    using that wf_parent [OF wf] ancestor_le [OF wf] by (fastforce simp: kids_def subtree_def)
  then have "sum d (subtree pa i) = d i + sum d (\<Union>c \<in> kids pa i. subtree pa c)"
    by (subst subtree_kids [OF assms]) simp
  also have "sum d (\<Union>c \<in> kids pa i. subtree pa c) = (\<Sum>c \<in> kids pa i. sum d (subtree pa c))"
    using subtree_kids_disjoint [OF wf] by (intro sum.UNION_disjoint) auto
  finally show ?thesis .
qed

section \<open>Applying score changes\<close>

abbreviation weight_at :: "proto_array \<Rightarrow> nat \<Rightarrow> int" where
  "weight_at pa i \<equiv> uint (node_weight (nodes pa ! i))"

abbreviation delta_at :: "node_delta list \<Rightarrow> nat \<Rightarrow> int" where
  "delta_at ds i \<equiv> sint (nd_delta (ds ! i))"

lemma uint_range_64: "0 \<le> x \<Longrightarrow> x < 2 ^ 64 \<Longrightarrow> uint (word_of_int x :: 64 word) = x"
  by (simp add: uint_word_of_int)

lemma if_OkD: "(if C then Ok a else Err b) = Ok w \<Longrightarrow> C \<and> w = a"
  by (simp split: if_splits)

lemma apply_delta_Ok:
  assumes "apply_delta w d i = Ok w'" shows "uint w' = uint w + sint d"
proof -
  note x = if_OkD [OF assms [unfolded apply_delta_cases]]
  show ?thesis
    unfolding x [THEN conjunct2] by (rule uint_range_64) (rule x [THEN conjunct1, THEN conjunct1], rule x [THEN conjunct1, THEN conjunct2])
qed

lemma i64_checked_add_Ok: "i64_checked_add a b = Some c \<Longrightarrow> sint c = sint a + sint b"
  using i64_checked_add_exact [of a b] by (auto split: if_splits)

lemma i64_checked_sub_Ok: "i64_checked_sub a b = Some c \<Longrightarrow> sint c = sint a - sint b"
  using i64_checked_sub_exact [of a b] by (auto split: if_splits)

lemma apply_node_delta_viable:
  assumes "\<not> status_is_invalid (node_execution_status_of n)" "apply_node_delta n d i = (Ok bd, n')"
  shows "bd = nd_delta d" "uint (node_weight n') = uint (node_weight n) + sint (nd_delta d)"
  using assms by (cases n; auto simp: apply_v17_def apply_v29_def apply_v29_viable_def Let_def
      dest!: apply_delta_Ok split: sum.splits prod.splits)+

lemma backprop_delta:
  "backprop n bd p pd = Ok pd' \<Longrightarrow> sint (nd_delta pd') = sint (nd_delta pd) + sint bd"
proof (cases n)
  case (V29 c)
  assume "backprop n bd p pd = Ok pd'"
  with V29 i64_checked_add_Ok [of "nd_delta pd" bd] show ?thesis
    by (cases "pn_parent_payload_status c") (auto simp: backprop_def Let_def)
qed (use i64_checked_add_Ok [of "nd_delta pd" bd] in \<open>auto simp: backprop_def Let_def\<close>)

lemma score_step_effect:
  assumes k: "k < length (nodes pa)" "length ds = length (nodes pa)"
    and n: "node_root (nodes pa ! k) \<noteq> 0" "\<not> status_is_invalid (node_execution_status_of (nodes pa ! k))"
    and step: "score_step k (pa, ds) = (Ok (), (pa', ds'))"
  shows "length ds' = length ds"
    "i < length (nodes pa) \<Longrightarrow> node_execution_status_of (nodes pa' ! i) = node_execution_status_of (nodes pa ! i)"
    "i < length (nodes pa) \<Longrightarrow> weight_at pa' i = weight_at pa i + (if i = k then delta_at ds k else 0)"
    "i < length (nodes pa) \<Longrightarrow> delta_at ds' i =
      delta_at ds i + (if node_parent (nodes pa ! k) = Some i then delta_at ds k else 0)"
proof -
  let ?n = "nodes pa ! k" and ?d = "ds ! k"
  obtain r n' where a: "apply_node_delta ?n ?d k = (r, n')" by (cases "apply_node_delta ?n ?d k")
  have parent: "node_parent n' = node_parent ?n" and status: "node_execution_status_of n' = node_execution_status_of ?n"
    using shape.apply_node_delta_keeps [of ?n ?d k] a by (simp_all add: node_shape_def)
  from step k n(1) a obtain bd where r: "r = Ok bd" by (cases r) (auto simp: score_step_def)
  note w = apply_node_delta_viable [OF n(2) a [unfolded r]]
  have pa': "pa' = pa\<lparr>nodes := (nodes pa)[k := n']\<rparr>"
    using step k n(1) a r by (auto simp: score_step_def Let_def split: option.splits sum.splits)
  show "i < length (nodes pa) \<Longrightarrow> node_execution_status_of (nodes pa' ! i) = node_execution_status_of (nodes pa ! i)"
    using pa' k status by (simp add: nth_list_update)
  show "i < length (nodes pa) \<Longrightarrow> weight_at pa' i = weight_at pa i + (if i = k then delta_at ds k else 0)"
    using pa' k w by (simp add: nth_list_update)
  have "length ds' = length ds \<and> (i < length (nodes pa) \<longrightarrow> delta_at ds' i =
      delta_at ds i + (if node_parent (nodes pa ! k) = Some i then delta_at ds k else 0))"
  proof (cases "node_parent ?n")
    case None
    with step k n(1) a r parent show ?thesis by (simp add: score_step_def)
  next
    case (Some p)
    with step k n(1) a r parent obtain pd where p: "p < length ds" "backprop n' bd p (ds ! p) = Ok pd" "ds' = ds[p := pd]"
      by (auto simp: score_step_def vec_get_def Let_def split: if_splits sum.splits)
    with backprop_delta [OF p(2)] w(1) Some show ?thesis by (auto simp: nth_list_update)
  qed
  then show "length ds' = length ds" and "i < length (nodes pa) \<Longrightarrow> delta_at ds' i =
      delta_at ds i + (if node_parent (nodes pa ! k) = Some i then delta_at ds k else 0)" by simp_all
qed

text \<open>No payload is invalid and no block has the zero root, which the loop skips.\<close>

definition all_scored :: "proto_array \<Rightarrow> bool" where
  "all_scored pa \<longleftrightarrow> (\<forall>n \<in> set (nodes pa). node_root n \<noteq> 0 \<and> \<not> status_is_invalid (node_execution_status_of n))"

definition scores_from :: "proto_array \<Rightarrow> node_delta list \<Rightarrow> nat \<Rightarrow> proto_array \<Rightarrow> node_delta list \<Rightarrow> bool" where
  "scores_from pa ds m pa' ds' \<longleftrightarrow> same_shape pa pa' \<and> length ds' = length (nodes pa) \<and>
     (\<forall>i < length (nodes pa).
        node_execution_status_of (nodes pa' ! i) = node_execution_status_of (nodes pa ! i) \<and>
        weight_at pa' i = weight_at pa i + (if m \<le> i then sum (delta_at ds) (subtree pa i) else 0) \<and>
        delta_at ds' i = delta_at ds i + (\<Sum>c \<in> {c \<in> kids pa i. m \<le> c}. sum (delta_at ds) (subtree pa c)))"

lemma scores_from_step:
  assumes wf: "wf_array pa" and ok: "all_scored pa" and m: "m < length (nodes pa)"
    and inv: "scores_from pa ds (Suc m) pa1 ds1" and step: "score_step m (pa1, ds1) = (Ok (), (pa2, ds2))"
  shows "scores_from pa ds m pa2 ds2"
proof -
  note shape = inv [unfolded scores_from_def, THEN conjunct1]
  have len: "length (nodes pa1) = length (nodes pa)" "length ds1 = length (nodes pa1)"
    using inv same_shape_length [OF shape] by (simp_all add: scores_from_def)
  have m1: "m < length (nodes pa1)" using m len by simp
  have parent: "node_parent (nodes pa1 ! m) = node_parent (nodes pa ! m)" using same_shape_fields(2) [OF shape m] .
  have "node_root (nodes pa1 ! m) \<noteq> 0" "\<not> status_is_invalid (node_execution_status_of (nodes pa1 ! m))"
    using ok m inv same_shape_fields(1) [OF shape m] by (auto simp: all_scored_def scores_from_def)
  note effect = score_step_effect [OF m1 len(2) this step]
  have "{c \<in> kids pa m. Suc m \<le> c} = kids pa m" using wf_parent [OF wf] by (auto simp: kids_def Suc_le_eq)
  with inv m sum_subtree [OF wf m, of "delta_at ds"]
  have total: "delta_at ds1 m = sum (delta_at ds) (subtree pa m)" by (simp add: scores_from_def)
  have kids: "(\<Sum>c \<in> {c \<in> kids pa i. m \<le> c}. sum (delta_at ds) (subtree pa c)) =
      (\<Sum>c \<in> {c \<in> kids pa i. Suc m \<le> c}. sum (delta_at ds) (subtree pa c)) +
      (if node_parent (nodes pa ! m) = Some i then sum (delta_at ds) (subtree pa m) else 0)" for i
  proof (cases "node_parent (nodes pa ! m) = Some i")
    case True
    then have "{c \<in> kids pa i. m \<le> c} = insert m {c \<in> kids pa i. Suc m \<le> c}" using m by (auto simp: kids_def)
    with True show ?thesis by simp
  next
    case False
    then have "{c \<in> kids pa i. m \<le> c} = {c \<in> kids pa i. Suc m \<le> c}" by (auto simp: kids_def le_less Suc_le_eq)
    with False show ?thesis by simp
  qed
  have "same_shape pa pa2"
    using same_shape_trans [OF shape shape.score_step_related [of pa1 m ds1]] step by simp
  moreover have "node_execution_status_of (nodes pa2 ! i) = node_execution_status_of (nodes pa ! i) \<and>
      weight_at pa2 i = weight_at pa i + (if m \<le> i then sum (delta_at ds) (subtree pa i) else 0) \<and>
      delta_at ds2 i = delta_at ds i + (\<Sum>c \<in> {c \<in> kids pa i. m \<le> c}. sum (delta_at ds) (subtree pa c))"
    if i: "i < length (nodes pa)" for i
    using inv i effect(2-4) [of i] total parent len(1) kids [of i] by (auto simp: scores_from_def)
  ultimately show ?thesis using effect(1) len by (simp add: scores_from_def)
qed

lemma scores_from_loop:
  assumes wf: "wf_array pa" and ok: "all_scored pa"
  shows "m \<le> length (nodes pa) \<Longrightarrow> scores_from pa ds m pa1 ds1 \<Longrightarrow>
    op_for_each score_step (rev [0..<m]) (pa1, ds1) = (Ok (), (pa2, ds2)) \<Longrightarrow> scores_from pa ds 0 pa2 ds2"
proof (induction m arbitrary: pa1 ds1)
  case (Suc m)
  from Suc.prems(3) obtain q es where step: "score_step m (pa1, ds1) = (Ok (), (q, es))"
    "op_for_each score_step (rev [0..<m]) (q, es) = (Ok (), (pa2, ds2))"
    by auto
  from scores_from_step [OF wf ok _ Suc.prems(2) step(1)] Suc.prems(1) show ?case
    by (intro Suc.IH [OF _ _ step(2)]) simp_all
qed simp

text \<open>Every weight grows by the sum of the deltas of its subtree.\<close>

lemma apply_score_changes_sums:
  assumes wf: "wf_array pa" and ok: "all_scored pa" and ap: "apply_score_changes ds pa = (Ok (), pa')"
    and i: "i < length (nodes pa)"
  shows "weight_at pa' i = weight_at pa i + sum (delta_at ds) (subtree pa i)"
proof -
  from ap obtain es where len: "length ds = length (indices pa)"
    and loop: "op_for_each score_step (rev [0..<length (nodes pa)]) (pa, ds) = (Ok (), (pa', es))"
    by (cases "length ds = length (indices pa)") (auto simp: apply_score_changes_def split: prod.splits)
  have none: "{c \<in> kids pa i. length (nodes pa) \<le> c} = {}" for i by (auto simp: kids_def)
  have "scores_from pa ds (length (nodes pa)) pa ds"
    using len wf_indices_length [OF wf] by (simp add: scores_from_def none)
  from scores_from_loop [OF wf ok order.refl this loop] i show ?thesis by (simp add: scores_from_def)
qed

section \<open>Score changes of votes\<close>

text \<open>What a vote gives to a node: the balance, if the vote names the node.\<close>

definition contribution :: "(hash256 \<times> nat) list \<Rightarrow> u64 \<Rightarrow> vote_tracker \<Rightarrow> nat \<Rightarrow> int" where
  "contribution im balance vote i = (if map_of im (v_current_root vote) = Some i then uint balance else 0)"

abbreviation small :: "u64 \<Rightarrow> bool" where
  "small b \<equiv> uint b < 2 ^ 63"

lemma sint_small: "small b \<Longrightarrow> sint b = uint b"
  using uint_of_sint [of b] sint_bounds_64 [of b] by (cases "sint b < 0") simp_all

lemma payload_delta_keeps:
  "sub_payload_delta s b i d = Ok d' \<Longrightarrow> nd_delta d' = nd_delta d"
  "add_payload_delta s b i d = Ok d' \<Longrightarrow> nd_delta d' = nd_delta d"
  by (cases s; auto)+

lemma subtract_vote_effect:
  assumes "subtract_vote im ns root vs pp b eqv ds = Ok ds'" "small b"
  shows "length ds' = length ds" "i < length ds \<Longrightarrow> delta_at ds' i = delta_at ds i - (if map_of im root = Some i then uint b else 0)"
proof -
  have "length ds' = length ds \<and> (i < length ds \<longrightarrow>
      delta_at ds' i = delta_at ds i - (if map_of im root = Some i then uint b else 0))"
  proof (cases "map_of im root")
    case (Some k)
    with assms(1) obtain v s d where k: "k < length ds" "i64_checked_sub (nd_delta (ds ! k)) b = Some v"
      "sub_payload_delta s b k ((ds ! k)\<lparr>nd_delta := v\<rparr>) = Ok d"
      "ds' = ds[k := d\<lparr>nd_equivocating_attestation_delta := saturating_add (nd_equivocating_attestation_delta d) eqv\<rparr>]"
      by (auto simp: subtract_vote_def vec_get_def split: if_splits)
    from payload_delta_keeps(1) [OF k(3)] i64_checked_sub_Ok [OF k(2)] sint_small [OF assms(2)] k Some
    show ?thesis by (auto simp: nth_list_update)
  qed (use assms(1) in \<open>simp add: subtract_vote_def\<close>)
  then show "length ds' = length ds" "i < length ds \<Longrightarrow> delta_at ds' i = delta_at ds i - (if map_of im root = Some i then uint b else 0)"
    by simp_all
qed

lemma add_vote_effect:
  assumes "add_vote im ns root vs pp b ds = Ok ds'" "small b"
  shows "length ds' = length ds" "i < length ds \<Longrightarrow> delta_at ds' i = delta_at ds i + (if map_of im root = Some i then uint b else 0)"
proof -
  have "length ds' = length ds \<and> (i < length ds \<longrightarrow>
      delta_at ds' i = delta_at ds i + (if map_of im root = Some i then uint b else 0))"
  proof (cases "map_of im root")
    case (Some k)
    with assms(1) obtain v s d where k: "k < length ds" "i64_checked_add (nd_delta (ds ! k)) b = Some v"
      "add_payload_delta s b k ((ds ! k)\<lparr>nd_delta := v\<rparr>) = Ok d" "ds' = ds[k := d]"
      by (auto simp: add_vote_def vec_get_def split: if_splits)
    from payload_delta_keeps(2) [OF k(3)] i64_checked_add_Ok [OF k(2)] sint_small [OF assms(2)] k Some
    show ?thesis by (auto simp: nth_list_update)
  qed (use assms(1) in \<open>simp add: add_vote_def\<close>)
  then show "length ds' = length ds" "i < length ds \<Longrightarrow> delta_at ds' i = delta_at ds i + (if map_of im root = Some i then uint b else 0)"
    by simp_all
qed

lemma vote_step_effect:
  assumes step: "vote_step im ns ob nb eqv v vote ds = (Ok ds', vote')"
    and small: "small (balance_at ob v)" "small (balance_at nb v)" and zero: "map_of im 0 = None"
  shows "length ds' = length ds"
    "i < length ds \<Longrightarrow> delta_at ds' i =
      delta_at ds i + contribution im (balance_at nb v) vote' i - contribution im (balance_at ob v) vote i"
proof -
  let ?o = "balance_at ob v" and ?n = "balance_at nb v"
  have "length ds' = length ds \<and> (i < length ds \<longrightarrow>
      delta_at ds' i = delta_at ds i + contribution im ?n vote' i - contribution im ?o vote i)"
  proof (cases "v_current_root vote = 0 \<and> v_next_root vote = 0")
    case True
    with step zero show ?thesis by (auto simp: vote_step_def contribution_def)
  next
    case False
    show ?thesis
    proof (cases "of_nat v \<in> eqv")
      case True
      show ?thesis
      proof (cases "v_current_root vote = 0")
        case zero_root: True
        with step False True zero show ?thesis by (auto simp: vote_step_def equivocating_vote_step_def contribution_def)
      next
        case nonzero: False
        with step False True obtain ds1 where
          s: "subtract_vote im ns (v_current_root vote) (v_current_slot vote) (v_current_payload_present vote) ?o ?o ds = Ok ds1"
          and ds1: "ds' = ds1" "v_current_root vote' = 0"
          by (auto simp: vote_step_def equivocating_vote_step_def Let_def split: sum.splits)
        from subtract_vote_effect [OF s small(1)] ds1 zero show ?thesis by (simp add: contribution_def)
      qed
    next
      case honest: False
      then have o: "ordinary_vote_step im ns ob nb v vote ds = (Ok ds', vote')"
        using step False by (auto simp: vote_step_def)
      show ?thesis
      proof (cases "vote' = vote \<and> ds' = ds \<and> ?o = ?n")
        case True
        then show ?thesis by simp
      next
        case changed: False
        with o obtain ds1 where
          s: "subtract_vote im ns (v_current_root vote) (v_current_slot vote) (v_current_payload_present vote) ?o 0 ds = Ok ds1"
          and a: "add_vote im ns (v_next_root vote) (v_next_slot vote) (v_next_payload_present vote) ?n ds1 = Ok ds'"
          and v': "v_current_root vote' = v_next_root vote"
          by (auto simp: ordinary_vote_step_def Let_def split: if_splits sum.splits)
        from subtract_vote_effect [OF s small(1)] add_vote_effect [OF a small(2)] v' show ?thesis
          by (simp add: contribution_def)
      qed
    qed
  qed
  then show "length ds' = length ds" "i < length ds \<Longrightarrow> delta_at ds' i =
      delta_at ds i + contribution im ?n vote' i - contribution im ?o vote i" by simp_all
qed

lemma deltas_loop_effect:
  assumes small: "\<And>v. small (balance_at ob v)" "\<And>v. small (balance_at nb v)" and zero: "map_of im 0 = None"
  shows "deltas_loop (vote_step im ns ob nb eqv) k votes ds = (Ok ds', votes') \<Longrightarrow>
    length ds' = length ds \<and> length votes' = length votes \<and>
    (\<forall>i < length ds. delta_at ds' i = delta_at ds i +
      (\<Sum>v < length votes. contribution im (balance_at nb (k + v)) (votes' ! v) i -
        contribution im (balance_at ob (k + v)) (votes ! v) i))"
proof (induction votes arbitrary: k ds votes')
  case (Cons vote votes)
  from Cons.prems obtain ds1 vote' vs where step: "vote_step im ns ob nb eqv k vote ds = (Ok ds1, vote')"
    and rest: "deltas_loop (vote_step im ns ob nb eqv) (Suc k) votes ds1 = (Ok ds', vs)" and vs: "votes' = vote' # vs"
    by (auto split: prod.splits sum.splits)
  note one = vote_step_effect [OF step small zero]
  from Cons.IH [OF rest] one vs show ?case by (simp add: sum.lessThan_Suc_shift del: sum.lessThan_Suc)
qed simp

lemma compute_deltas_effect:
  assumes "compute_deltas im ns ob nb eqv votes = (Ok ds, votes')"
    and "\<And>v. small (balance_at ob v)" "\<And>v. small (balance_at nb v)" "map_of im 0 = None"
  shows "length ds = length im" "length votes' = length votes"
    "i < length im \<Longrightarrow> delta_at ds i = (\<Sum>v < length votes. contribution im (balance_at nb v) (votes' ! v) i -
      contribution im (balance_at ob v) (votes ! v) i)"
  using deltas_loop_effect [OF assms(2-4) assms(1) [unfolded compute_deltas_def]] by (simp_all add: from_delta_def)

section \<open>Weights are sums of votes\<close>

text \<open>The weight of a block by the votes: the balances of the validators whose vote lies in its subtree.\<close>

definition vote_weight :: "proto_array \<Rightarrow> u64 list \<Rightarrow> vote_tracker list \<Rightarrow> nat \<Rightarrow> int" where
  "vote_weight pa balances votes i = (\<Sum>v < length votes.
     if (\<exists>t. map_of (indices pa) (v_current_root (votes ! v)) = Some t \<and> ancestor pa i t)
     then uint (balance_at balances v) else 0)"

definition weights_are_votes :: "fork_choice \<Rightarrow> bool" where
  "weights_are_votes fc \<longleftrightarrow> (\<forall>i < length (nodes (fc_array fc)).
     uint (node_weight (nodes (fc_array fc) ! i)) =
       vote_weight (fc_array fc) (effective_balances (fc_balances fc)) (fc_votes fc) i)"

lemma contribution_subtree:
  assumes wf: "wf_array pa"
  shows "sum (contribution (indices pa) b vote) (subtree pa i) =
    (if \<exists>t. map_of (indices pa) (v_current_root vote) = Some t \<and> ancestor pa i t then uint b else 0)"
proof (cases "map_of (indices pa) (v_current_root vote)")
  case (Some t)
  then have "t < length (nodes pa)" using wf_lookup [OF wf] by simp
  then have t: "t \<in> subtree pa i \<longleftrightarrow> ancestor pa i t" by (simp add: subtree_def)
  have "sum (contribution (indices pa) b vote) (subtree pa i) = (\<Sum>j \<in> subtree pa i. if j = t then uint b else 0)"
    using Some by (intro sum.cong) (auto simp: contribution_def)
  also have "\<dots> = (if t \<in> subtree pa i then uint b else 0)" by (rule sum.delta) simp
  finally show ?thesis using Some t by simp
next
  case None
  then have "sum (contribution (indices pa) b vote) (subtree pa i) = (\<Sum>j \<in> subtree pa i. 0)"
    by (intro sum.cong) (auto simp: contribution_def)
  with None show ?thesis by simp
qed

lemma same_shape_ancestor:
  assumes "same_shape pa pa'" shows "ancestor pa' a b = ancestor pa a b"
proof -
  have "ancestor q' a b" if "ancestor q a b" "same_shape q q'" for q q'
    using that(1)
  proof (induction rule: ancestor.induct)
    case (ancestor_child p i)
    then show ?case using same_shape_fields(2) [OF that(2), of i] same_shape_length [OF that(2)] by (simp add: ancestor.ancestor_child [of q' a p])
  qed (rule ancestor_self)
  moreover have "same_shape pa' pa" using assms by (simp add: same_shape_def)
  ultimately show ?thesis using assms by blast
qed

lemma balance_at_small: "\<forall>b \<in> set bs. small b \<Longrightarrow> small (balance_at bs v)"
  by (simp add: balance_at_def vec_get_def)

lemma all_scored_zero:
  assumes "wf_array pa" "all_scored pa" shows "map_of (indices pa) 0 = None"
proof (rule ccontr)
  assume "map_of (indices pa) 0 \<noteq> None"
  then obtain i where "i < length (nodes pa)" "node_root (nodes pa ! i) = 0" using wf_lookup [OF assms(1), of 0] by auto
  with assms(2) show False by (auto simp: all_scored_def)
qed

lemma score_round_weights:
  assumes wf: "wf_array (fc_array fc)" and ok: "all_scored (fc_array fc)"
    and small: "\<forall>b \<in> set ob. small b" "\<forall>b \<in> set nb. small b"
    and round: "score_round w1 w2 ob nb eqv fc = (Ok (), fc')"
    and i: "i < length (nodes (fc_array fc))"
    and before: "weight_at (fc_array fc) i = vote_weight (fc_array fc) ob (fc_votes fc) i"
  shows "weight_at (fc_array fc') i = vote_weight (fc_array fc') nb (fc_votes fc') i"
proof -
  let ?pa = "fc_array fc" and ?votes = "fc_votes fc"
  let ?cs = "compute_deltas (indices ?pa) (map node_slot (nodes ?pa)) ob nb eqv ?votes"
  obtain r votes' where c: "?cs = (r, votes')" by (cases ?cs)
  with round obtain ds where r: "r = Ok ds" by (cases r) (auto simp: score_round_def Let_def)
  from round c r obtain pa' where ap: "apply_score_changes ds ?pa = (Ok (), pa')"
    and fc': "fc_array fc' = pa'" "fc_votes fc' = votes'"
    by (auto simp: score_round_def Let_def on_array_def map_err_def split: prod.splits sum.splits)
  note cd = compute_deltas_effect [OF c [unfolded r] balance_at_small [OF small(1)] balance_at_small [OF small(2)] all_scored_zero [OF wf ok]]
  let ?c = "contribution (indices ?pa)"
  have shape: "same_shape ?pa pa'" using apply_score_changes_shape [of ?pa ds] ap by simp
  have "sum (delta_at ds) (subtree ?pa i) = (\<Sum>j \<in> subtree ?pa i. \<Sum>v < length ?votes.
      ?c (balance_at nb v) (votes' ! v) j - ?c (balance_at ob v) (?votes ! v) j)"
    using cd(3) wf_indices_length [OF wf] by (intro sum.cong) (auto simp: subtree_def)
  also have "\<dots> = (\<Sum>v < length ?votes. sum (?c (balance_at nb v) (votes' ! v)) (subtree ?pa i)) -
      (\<Sum>v < length ?votes. sum (?c (balance_at ob v) (?votes ! v)) (subtree ?pa i))"
    by (subst sum.swap) (simp add: sum_subtractf)
  also have "\<dots> = vote_weight ?pa nb votes' i - vote_weight ?pa ob ?votes i"
    using cd(2) by (simp add: vote_weight_def contribution_subtree [OF wf])
  finally have "weight_at pa' i = vote_weight ?pa nb votes' i"
    using apply_score_changes_sums [OF wf ok ap i] before by simp
  moreover have "vote_weight pa' nb votes' i = vote_weight ?pa nb votes' i"
    using shape by (simp add: vote_weight_def same_shape_ancestor [OF shape]) (simp add: same_shape_def)
  ultimately show ?thesis using fc' by simp
qed

lemma fc_find_head_weights:
  assumes wf: "wf_array (fc_array fc)" and ok: "all_scored (fc_array fc)"
    and small: "\<forall>b \<in> set (effective_balances (fc_balances fc)). small b" "\<forall>b \<in> set (effective_balances bal). small b"
    and head: "fc_find_head spec j f bal broot eqv t fc = (Ok h, fc')" and before: "weights_are_votes fc"
  shows "weights_are_votes fc' \<and> fc_balances fc' = bal"
proof -
  let ?round = "score_round ComputeDeltasFailed ApplyScoreChangesFailed (effective_balances (fc_balances fc)) (effective_balances bal) eqv"
  obtain r q where rq: "?round fc = (r, q)" by (cases "?round fc")
  with head have r: "r = Ok ()" by (cases r) (auto simp: fc_find_head_def op_bind_def)
  with head rq have fc': "fc' = q\<lparr>fc_balances := bal\<rparr>" by (auto simp: fc_find_head_def op_bind_def Let_def)
  have len: "length (nodes (fc_array q)) = length (nodes (fc_array fc))"
    using same_shape_length [OF score_round_shape [of fc ComputeDeltasFailed ApplyScoreChangesFailed
        "effective_balances (fc_balances fc)" "effective_balances bal" eqv]] rq by simp
  have "weight_at (fc_array q) i = vote_weight (fc_array q) (effective_balances bal) (fc_votes q) i"
    if "i < length (nodes (fc_array fc))" for i
    using before that by (intro score_round_weights [OF wf ok small rq [unfolded r] that]) (simp add: weights_are_votes_def)
  with len fc' show ?thesis by (simp add: weights_are_votes_def)
qed

end
