(* ===== verification/Proto_Sample.thy ===== *)
theory Proto_Sample
  imports Proto_Ghost
begin

text \<open>
  A small fork choice for evaluating the definitions: an anchor with two children, one of which has a
  child of the Gloas fork.
\<close>

definition sample_spec :: fc_spec where
  "sample_spec = \<lparr>slots_per_epoch = 8, ptc_size = 4, altair_fork_epoch = Some 0, bellatrix_fork_epoch = Some 0,
     capella_fork_epoch = Some 0, deneb_fork_epoch = Some 0, electra_fork_epoch = Some 0, fulu_fork_epoch = Some 0,
     gloas_fork_epoch = Some 1, heze_fork_epoch = None, unaggregated_attestation_due = 4,
     unaggregated_attestation_due_gloas = 3, payload_attestation_due = 9, proposer_score_boost = 40,
     reorg_head_weight_threshold = 20, reorg_parent_weight_threshold = 160, reorg_max_epochs_since_finalization = 2,
     num_set_bits = (\<lambda>w. length (filter (bit w) [0..<512])),
     bitvector_set = (\<lambda>w i b. if i < 512 then Some (if b then set_bit i w else unset_bit i w) else None)\<rparr>"

abbreviation sample_checkpoint :: checkpoint where
  "sample_checkpoint \<equiv> \<lparr>cp_epoch = 0, cp_root = 1\<rparr>"

definition sample_block :: "hash256 \<Rightarrow> hash256 \<Rightarrow> slot \<Rightarrow> block" where
  "sample_block root parent s = \<lparr>b_slot = s, b_root = root, b_parent_root = Some parent, b_state_root = 0, b_target_root = 1,
     b_current_epoch_shuffling_id = \<lparr>shuffling_epoch = 0, shuffling_decision_block = 1\<rparr>,
     b_next_epoch_shuffling_id = \<lparr>shuffling_epoch = 1, shuffling_decision_block = 1\<rparr>,
     b_justified_checkpoint = sample_checkpoint, b_finalized_checkpoint = sample_checkpoint,
     b_execution_status = Optimistic (root + 100),
     b_unrealized_justified_checkpoint = Some sample_checkpoint, b_unrealized_finalized_checkpoint = Some sample_checkpoint,
     b_execution_payload_parent_hash = Some (parent + 100), b_execution_payload_block_hash = Some (root + 100),
     b_proposer_index = Some 0, b_payload_received = False\<rparr>"

definition sample_new :: "(fork_choice, fork_choice_error) result" where
  "sample_new = fork_choice_new sample_spec 0 0 0 sample_checkpoint sample_checkpoint
     \<lparr>shuffling_epoch = 0, shuffling_decision_block = 1\<rparr> \<lparr>shuffling_epoch = 1, shuffling_decision_block = 1\<rparr>
     (Optimistic 101) None None 0"

definition sample_fc :: fork_choice where
  "sample_fc = fold (\<lambda>(root, parent, s) fc. snd (process_block sample_spec (sample_block root parent s) 10 0 fc))
     [(2, 1, 1), (3, 1, 2), (4, 3, 9)] (projr sample_new)"

lemma sample_reachable: "fork_choice_reachable sample_spec sample_fc"
proof -
  have "\<not> isl sample_new" by code_simp
  then have "sample_new = Ok (projr sample_new)" by (cases sample_new) simp_all
  then have "fork_choice_reachable sample_spec (projr sample_new)"
    unfolding sample_new_def by (rule fc_created)
  moreover have "fork_choice_reachable sample_spec (snd (process_block sample_spec b s t fc))"
    if "fork_choice_reachable sample_spec fc" for b s t fc
    using that fc_call [OF fc_block [OF prod.collapse [symmetric]]] by (rule fc_stepped)
  ultimately show ?thesis by (simp add: sample_fc_def)
qed

definition sample_v17 :: "hash256 \<Rightarrow> nat option \<Rightarrow> slot \<Rightarrow> u64 \<Rightarrow> execution_status \<Rightarrow> proto_node" where
  "sample_v17 root parent s w status = V17 \<lparr>pn_slot = s, pn_state_root = 0, pn_target_root = 1,
     pn_current_epoch_shuffling_id = \<lparr>shuffling_epoch = 0, shuffling_decision_block = 1\<rparr>,
     pn_next_epoch_shuffling_id = \<lparr>shuffling_epoch = 1, shuffling_decision_block = 1\<rparr>,
     pn_root = root, pn_parent = parent, pn_justified_checkpoint = sample_checkpoint,
     pn_finalized_checkpoint = sample_checkpoint, pn_weight = w, pn_execution_status = status,
     pn_unrealized_justified_checkpoint = Some sample_checkpoint,
     pn_unrealized_finalized_checkpoint = Some sample_checkpoint, pn_best_child = None, pn_best_descendant = None\<rparr>"

definition sample_v29 :: "hash256 \<Rightarrow> nat option \<Rightarrow> slot \<Rightarrow> u64 \<Rightarrow> execution_status \<Rightarrow> proto_node" where
  "sample_v29 root parent s w status = V29 \<lparr>pn_slot = s, pn_state_root = 0, pn_target_root = 1,
     pn_current_epoch_shuffling_id = \<lparr>shuffling_epoch = 0, shuffling_decision_block = 1\<rparr>,
     pn_next_epoch_shuffling_id = \<lparr>shuffling_epoch = 1, shuffling_decision_block = 1\<rparr>,
     pn_root = root, pn_parent = parent, pn_justified_checkpoint = sample_checkpoint,
     pn_finalized_checkpoint = sample_checkpoint, pn_weight = w, pn_execution_status = status,
     pn_unrealized_justified_checkpoint = Some sample_checkpoint,
     pn_unrealized_finalized_checkpoint = Some sample_checkpoint,
     pn_parent_payload_status = PreGloas, pn_empty_payload_weight = w, pn_full_payload_weight = 0,
     pn_execution_payload_block_hash = root + 100, pn_execution_payload_parent_hash = 103,
     pn_block_timeliness_attestation_threshold = False, pn_block_timeliness_ptc_threshold = False,
     pn_payload_timeliness_votes = 0, pn_payload_data_availability_votes = 0, pn_ptc_participation = 0,
     pn_payload_received = False, pn_proposer_index = 0, pn_equivocating_attestation_score = 0\<rparr>"

definition sample_array :: proto_array where
  "sample_array = \<lparr>prune_threshold = 256,
     nodes = [sample_v17 1 None 0 0 (Optimistic 101), sample_v17 2 (Some 0) 1 0 (Optimistic 102),
              sample_v17 3 (Some 0) 2 0 (Optimistic 103), sample_v29 4 (Some 2) 9 0 (NotYetRevealed 104)],
     indices = [(1, 0), (2, 1), (3, 2), (4, 3)], children = [[1, 2], [], [3], []]\<rparr>"

lemma sample_array_fc: "fc_array sample_fc = sample_array"
  by code_simp

lemma sample_array_wf: "wf_array sample_array"
  using fork_choice_reachable_wf [OF sample_reachable] by (simp add: sample_array_fc)

abbreviation sample_balances :: justified_balances where
  "sample_balances \<equiv> \<lparr>effective_balances = [32, 32], total_effective_balance = 64, num_active_validators = 2,
     slashed_balances = []\<rparr>"

end
