(* ===== verification/Proto_Properties.thy ===== *)
theory Proto_Properties
  imports Proto_Verdicts Proto_Weights Proto_Sample
begin

text \<open>
  The properties of the fork choice, each with an evaluation on the sample fork choice.
\<close>

section \<open>Reachable states\<close>

text \<open>
  C29: In every fork choice reached from a new one by any sequence of operations, failed ones included,
  the node array is well formed: parents come before their children, roots are distinct, the index map
  names exactly the nodes, and the cached children are those of the parent links.
\<close>

theorem reachable_well_formed:
  "fork_choice_reachable spec fc \<Longrightarrow> wf_array (fc_array fc)"
  by (rule fork_choice_reachable_wf)

theorem reachable_well_formed_witness:
  "fork_choice_reachable sample_spec sample_fc \<and> length (nodes (fc_array sample_fc)) = 4 \<and> wf_array (fc_array sample_fc)"
  using reachable_well_formed [OF sample_reachable] sample_reachable
  by (simp add: sample_array_fc sample_array_def)

lemma map_err_eq_Inl: "map_err w r = Inl e \<longleftrightarrow> (\<exists>x. r = Inl x \<and> e = w x)"
  by (cases r) (auto simp: map_err_def)

lemma on_array_returns:
  "fst (f (fc_array fc)) \<noteq> Err NoReturn \<Longrightarrow> inj w \<Longrightarrow> fst (on_array w f fc) \<noteq> Err (w NoReturn)"
  by (auto simp: on_array_def map_err_eq_Inl inj_def split: prod.splits)

lemma score_round_returns:
  "fst (score_round w1 w2 ob nb eq fc) = Inl e \<Longrightarrow> (\<exists>x. e = w1 x) \<or> (\<exists>x. e = w2 x)"
  by (cases "compute_deltas (indices (fc_array fc)) (map node_slot (nodes (fc_array fc))) ob nb eq (fc_votes fc)")
    (auto simp: score_round_def Let_def on_array_def map_err_eq_Inl case_prod_beta split: sum.splits)

lemma fc_find_head_returns:
  assumes wf: "wf_array (fc_array fc)"
  shows "fst (fc_find_head spec j f bal broot eq t fc) \<noteq> Err (FindHeadFailed NoReturn)"
proof -
  let ?round = "score_round ComputeDeltasFailed ApplyScoreChangesFailed (effective_balances (fc_balances fc)) (effective_balances bal) eq fc"
  obtain r q where rq: "?round = (r, q)" by (cases ?round)
  have q: "wf_array (fc_array q)" using same_shape_wf [OF score_round_shape wf] rq by (metis snd_conv)
  show ?thesis
  proof (cases r)
    case (Inl e)
    with rq score_round_returns [of ComputeDeltasFailed ApplyScoreChangesFailed "effective_balances (fc_balances fc)" "effective_balances bal" eq fc e]
    have "e \<noteq> FindHeadFailed NoReturn" by auto
    with Inl rq show ?thesis by (simp add: fc_find_head_def op_bind_def)
  next
    case (Inr u)
    with rq have "fst (fc_find_head spec j f bal broot eq t fc) =
        map_err FindHeadFailed (find_head spec (fc_array q) (cp_root j) t j f broot bal)"
      by (simp add: fc_find_head_def op_bind_def)
    with find_head_returns [OF q] show ?thesis by (simp add: map_err_eq_Inl)
  qed
qed

lemma get_canonical_payload_status_returns:
  assumes wf: "wf_array pa"
  shows "get_canonical_payload_status spec pa root t broot bal \<noteq> Err NoReturn"
  using get_weight_returns [OF wf] tiebreaker_returns should_apply_proposer_boost_returns
  by (auto simp: get_canonical_payload_status_def Let_def bindE_eq_Inl ok_or_def split: option.splits if_splits)

text \<open>
  C30: Every loop of the fork choice ends. In a reachable state no operation and no query runs out of
  fuel or panics: recording a payload, its validation and its invalidation, registering a block,
  pruning, finding the head, listing the leaves with their weights, looking up an ancestor, and asking
  for the verdict or the payload status of a node; and following a chain of parents with more fuel gives
  nothing more.
\<close>

theorem reachable_operations_return:
  assumes "fork_choice_reachable spec fc"
  shows "fst (fc_on_payload_envelope_received r s fc) \<noteq> Err (ExecutionPayloadFailed NoReturn) \<and>
    fst (process_execution_payload_validation h fc) \<noteq> Err (ValidPayloadFailed NoReturn) \<and>
    fst (process_execution_payload_invalidation spec operation cp fc) \<noteq> Err (InvalidPayloadFailed NoReturn) \<and>
    fst (process_block spec b sl t fc) \<noteq> Err (ProcessBlockError NoReturn) \<and>
    fst (fc_maybe_prune r fc) \<noteq> Err (MaybePruneFailed NoReturn) \<and>
    fst (fc_find_head spec j f bal broot eq sl fc) \<noteq> Err (FindHeadFailed NoReturn) \<and>
    filtered_node_tree_leaves_and_weights spec (fc_array fc) r sl j f broot bal \<noteq> Err NoReturn \<and>
    get_ancestor_node (fc_array fc) r sl \<noteq> Err NoReturn \<and>
    node_execution_status (fc_array fc) r ps \<noteq> Err NoReturn \<and>
    get_canonical_payload_status spec (fc_array fc) r sl broot bal \<noteq> Err NoReturn \<and>
    chain (length (nodes (fc_array fc)) + k) (fc_array fc) (map_of (indices (fc_array fc)) r) = iter_nodes (fc_array fc) r"
proof -
  note wf = fork_choice_reachable_wf [OF assms]
  have "chain (length (nodes (fc_array fc)) + k) (fc_array fc) (map_of (indices (fc_array fc)) r) = iter_nodes (fc_array fc) r"
    unfolding iter_nodes_def using wf_lookup [OF wf, of r] by (intro chain_enough [OF wf]) auto
  moreover have "fst (process_block spec b sl t fc) \<noteq> Err (ProcessBlockError NoReturn)"
  proof (cases "b_parent_root b")
    case (Some parent)
    have "fst (on_array ProcessBlockError (on_block spec b sl t) fc) \<noteq> Err (ProcessBlockError NoReturn)"
      by (intro on_array_returns on_block_returns wf) (simp add: inj_def)
    with Some show ?thesis by (simp add: process_block_def)
  qed (simp add: process_block_def)
  moreover have "fst (fc_on_payload_envelope_received r s fc) \<noteq> Err (ExecutionPayloadFailed NoReturn)"
    unfolding fc_on_payload_envelope_received_def by (intro on_array_returns envelope_returns wf) (simp add: inj_def)
  moreover have "fst (process_execution_payload_validation h fc) \<noteq> Err (ValidPayloadFailed NoReturn)"
    unfolding process_execution_payload_validation_def by (intro on_array_returns validation_returns wf) (simp add: inj_def)
  moreover have "fst (process_execution_payload_invalidation spec operation cp fc) \<noteq> Err (InvalidPayloadFailed NoReturn)"
    unfolding process_execution_payload_invalidation_def by (intro on_array_returns invalidation_returns wf) (simp add: inj_def)
  moreover have "fst (fc_maybe_prune r fc) \<noteq> Err (MaybePruneFailed NoReturn)"
    unfolding fc_maybe_prune_def by (intro on_array_returns maybe_prune_returns wf) (simp add: inj_def)
  ultimately show ?thesis
    using fc_find_head_returns [OF wf] leaves_return [OF wf] get_ancestor_node_returns [OF wf]
      node_execution_status_returns [OF wf] get_canonical_payload_status_returns [OF wf]
    by simp
qed

theorem reachable_operations_return_witness:
  "fork_choice_reachable sample_spec sample_fc \<and>
   fst (fc_find_head sample_spec sample_checkpoint sample_checkpoint sample_balances 4 {} 10 sample_fc) \<noteq> Err (FindHeadFailed NoReturn) \<and>
   iter_block_roots sample_array 4 = [(4, 9), (3, 2), (1, 0)]"
  using reachable_operations_return [OF sample_reachable, of _ _ _ _ _ _ _ _ sample_checkpoint sample_checkpoint sample_balances 4 "{}"] sample_reachable
  by (auto simp: sample_array_def iter_block_roots_def iter_nodes_def sample_v17_def sample_v29_def)

section \<open>The head\<close>

text \<open>
  C31: The two passes over the array that filter the tree compute the recursive filter of the
  specification. On a well-formed array, from any start, the filter never fails, and a node is kept
  exactly if it is viable: a block with its payload choice is viable if no ancestor ends on an invalid
  payload and it is either a leaf that passes the checkpoint test or has a viable child; a block whose
  payload is undecided is viable if one of its choices is.
\<close>

theorem filter_equals_viable:
  assumes "wf_array pa" "start < length (nodes pa)"
  shows "get_filtered_node_tree spec pa start current_slot justified finalized =
    Ok {(i, s). start \<le> i \<and> i < length (nodes pa) \<and> viable spec pa start current_slot justified finalized (i, s)}"
  using get_filtered_node_tree_viable [OF assms] by (simp add: viable_from_def)

lemma sample_filtered:
  "get_filtered_node_tree sample_spec sample_array 0 10 sample_checkpoint sample_checkpoint =
     Ok {(0, Empty), (0, Pending), (1, Empty), (1, Pending), (2, Empty), (2, Pending), (3, Empty), (3, Pending)}"
  by code_simp

theorem filter_equals_viable_witness:
  "wf_array sample_array \<and> 0 < length (nodes sample_array) \<and>
   {(i, s). 0 \<le> i \<and> i < length (nodes sample_array) \<and>
      viable sample_spec sample_array 0 10 sample_checkpoint sample_checkpoint (i, s)} =
   {(0, Empty), (0, Pending), (1, Empty), (1, Pending), (2, Empty), (2, Pending), (3, Empty), (3, Pending)}"
proof -
  have n: "0 < length (nodes sample_array)" by (simp add: sample_array_def)
  from filter_equals_viable [OF sample_array_wf n, of sample_spec 10 sample_checkpoint sample_checkpoint] sample_filtered
  show ?thesis using sample_array_wf n by simp
qed

lemma find_head_walks:
  assumes wf: "wf_array pa" and start: "map_of (indices pa) (cp_root j) = Some start"
    and viable: "viable spec pa start t j f (start, Pending)"
    and head: "find_head spec pa (cp_root j) t j f broot bal = Ok (root, status)"
  obtains boost h where "should_apply_proposer_boost spec pa broot bal = Ok boost"
    "ghost_walk spec pa (viable_from spec pa start t j f start) boost broot t bal (pending_node pa start) h"
    "good_node pa h" "root = fc_root h" "status = fc_payload_status h"
proof -
  have i: "start < length (nodes pa)" using wf_lookup [OF wf] start by simp
  from find_head_unfold [OF wf start] viable head obtain boost h
    where boost: "should_apply_proposer_boost spec pa broot bal = Ok boost"
      and h: "head_loop (2 * length (nodes pa) + 2) spec pa (viable_from spec pa start t j f start) boost broot t bal
        (pending_node pa start) = Ok h" "root = fc_root h" "status = fc_payload_status h"
    by auto
  show thesis
  proof (rule head_loop_cases [OF wf good_pending_node [OF i], where fuel = "2 * length (nodes pa) + 2" and spec = spec
        and V = "viable_from spec pa start t j f start" and boost = boost and broot = broot and t = t and bal = bal])
    fix h'
    assume "head_loop (2 * length (nodes pa) + 2) spec pa (viable_from spec pa start t j f start) boost broot t bal
        (pending_node pa start) = Ok h'"
      "ghost_walk spec pa (viable_from spec pa start t j f start) boost broot t bal (pending_node pa start) h'" "good_node pa h'"
    with boost h show thesis by (intro that [of boost h]) simp_all
  qed (use h in auto)
qed

text \<open>
  C32: Finding the head follows the fork choice rule. When the justified block leads anywhere viable, a
  head that is found ends a walk from the justified block along viable children in which every step
  goes to a child that is greatest by weight (with the proposer boost when it applies), then root, then
  payload tie-breaker, and which stops only where there is no viable child.
\<close>

theorem find_head_follows_ghost:
  assumes "wf_array pa" "map_of (indices pa) (cp_root justified) = Some start"
    and "viable spec pa start current_slot justified finalized (start, Pending)"
    and "find_head spec pa (cp_root justified) current_slot justified finalized boost_root balances = Ok (root, status)"
  shows "\<exists>boost head. should_apply_proposer_boost spec pa boost_root balances = Ok boost \<and>
    ghost_walk spec pa (viable_from spec pa start current_slot justified finalized start) boost boost_root current_slot balances
      (pending_node pa start) head \<and>
    root = fc_root head \<and> status = fc_payload_status head"
  by (rule find_head_walks [OF assms]) blast

lemma sample_head:
  "find_head sample_spec sample_array 1 10 sample_checkpoint sample_checkpoint 0 sample_balances = Ok (4, Empty)"
  by code_simp

lemma sample_start: "map_of (indices sample_array) (cp_root sample_checkpoint) = Some 0"
  by (simp add: sample_array_def)

lemma sample_viable: "viable sample_spec sample_array 0 10 sample_checkpoint sample_checkpoint (0, Pending)"
proof -
  have n: "0 < length (nodes sample_array)" by (simp add: sample_array_def)
  have "(0, Pending) \<in> viable_from sample_spec sample_array 0 10 sample_checkpoint sample_checkpoint 0"
    using get_filtered_node_tree_viable [OF sample_array_wf n] sample_filtered by simp
  then show ?thesis by (simp only: viable_from_def mem_Collect_eq prod.case)
qed

theorem find_head_follows_ghost_witness:
  "\<exists>boost head. should_apply_proposer_boost sample_spec sample_array 0 sample_balances = Ok boost \<and>
    ghost_walk sample_spec sample_array (viable_from sample_spec sample_array 0 10 sample_checkpoint sample_checkpoint 0)
      boost 0 10 sample_balances (pending_node sample_array 0) head \<and> 4 = fc_root head \<and> Empty = fc_payload_status head"
  using sample_head by (intro find_head_follows_ghost [OF sample_array_wf sample_start sample_viable]) simp



text \<open>
  C34: Finding the head succeeds. When the justified block is in the array and there is no boosted block
  - or the boosted block is in the array and not at its root, the array is one tree whose root is its
  oldest block, and the boost does not overflow - finding the head returns a head.
\<close>

theorem find_head_succeeds:
  assumes "wf_array pa" "map_of (indices pa) (cp_root justified) = Some start" "boost_ok spec pa boost_root balances"
  shows "\<exists>root status. find_head spec pa (cp_root justified) current_slot justified finalized boost_root balances = Ok (root, status)"
  using find_head_ok [OF assms] by auto

theorem find_head_succeeds_witness:
  "\<exists>root status. find_head sample_spec sample_array (cp_root sample_checkpoint) 10 sample_checkpoint sample_checkpoint 4 sample_balances = Ok (root, status)"
proof -
  have "rooted sample_array"
    by (simp add: rooted_def sample_array_def sample_v17_def sample_v29_def All_less_Suc eval_nat_numeral)
  moreover have "calculate_committee_fraction sample_spec sample_balances (proposer_score_boost sample_spec) \<noteq> None"
    by code_simp
  ultimately have "boost_ok sample_spec sample_array 4 sample_balances"
    by (simp add: boost_ok_def sample_array_def sample_v29_def)
  with sample_array_wf sample_start show ?thesis by (rule find_head_succeeds)
qed

section \<open>Stored states\<close>

text \<open>
  C35: Storing a fork choice and loading it gives the same fork choice: from the container of a reachable
  state, the node array with its index and rebuilt children, the votes and the prune threshold come back
  unchanged, with the balances that are passed in.
\<close>

theorem stored_fork_choice_roundtrip:
  assumes "fork_choice_reachable spec fc"
  shows "try_from_container (from_proto_array fc) balances = Ok (fc\<lparr>fc_balances := balances\<rparr>)"
  by (rule container_roundtrip [OF fork_choice_reachable_wf [OF assms]])

theorem stored_fork_choice_roundtrip_witness:
  "try_from_container (from_proto_array sample_fc) sample_balances = Ok (sample_fc\<lparr>fc_balances := sample_balances\<rparr>)"
  by (rule stored_fork_choice_roundtrip [OF sample_reachable])

section \<open>Signed changes of unsigned weights\<close>

text \<open>
  C36: The arithmetic of score changes is exact. A signed delta applied to an unsigned 64-bit weight
  gives the integer sum whenever that is a 64-bit value, and an overflow error otherwise, also for the
  most negative delta; and the checked signed additions and subtractions that accumulate deltas return
  the integer sum and difference exactly when these are 64-bit signed values.
\<close>

theorem score_arithmetic_exact:
  "apply_delta w d i =
     (if 0 \<le> uint w + sint d \<and> uint w + sint d < 2 ^ 64 then Ok (word_of_int (uint w + sint d)) else Err (DeltaOverflow i)) \<and>
   map_option sint (i64_checked_add a b) =
     (if - (2 ^ 63) \<le> sint a + sint b \<and> sint a + sint b < 2 ^ 63 then Some (sint a + sint b) else None) \<and>
   map_option sint (i64_checked_sub a b) =
     (if - (2 ^ 63) \<le> sint a - sint b \<and> sint a - sint b < 2 ^ 63 then Some (sint a - sint b) else None)"
  using apply_delta_cases i64_checked_add_exact i64_checked_sub_exact by blast

section \<open>Verdicts\<close>

text \<open>
  C37: Verdicts on payloads are final. In a reachable state, no call of an operation - only forgetting
  all verdicts, which is a separate call - changes a payload that is Valid or Invalid: if the block is
  still there afterwards, it has the same verdict for the same payload.
\<close>

theorem verdicts_final:
  assumes "fork_choice_reachable spec fc" "fork_choice_call spec fc fc'"
    and "get_block (fc_array fc) root = Some node" "get_block (fc_array fc') root = Some node'"
    and "node_execution_status_of node = Valid h \<or> node_execution_status_of node = Invalid h"
  shows "node_execution_status_of node' = node_execution_status_of node"
  using fork_choice_call_verdict [OF assms(2) fork_choice_reachable_wf [OF assms(1)] assms(3,4)] assms(5) by auto

definition sample_valid :: fork_choice where
  "sample_valid = snd (process_execution_payload_validation 103 sample_fc)"

definition sample_attacked :: fork_choice where
  "sample_attacked = snd (process_execution_payload_invalidation sample_spec (InvalidateOne 103) sample_checkpoint sample_valid)"

lemma sample_verdicts:
  "map node_execution_status_of (nodes (fc_array sample_valid)) = [Valid 101, Optimistic 102, Valid 103, NotYetRevealed 104]"
  by code_simp

theorem verdicts_final_witness:
  "\<exists>node node'. get_block (fc_array sample_valid) 3 = Some node \<and> get_block (fc_array sample_attacked) 3 = Some node' \<and>
     node_execution_status_of node = Valid 103 \<and> node_execution_status_of node' = Valid 103"
proof -
  have reach: "fork_choice_reachable sample_spec sample_valid"
    unfolding sample_valid_def
    by (rule fc_stepped [OF sample_reachable fc_call [OF fc_validation [OF prod.collapse [symmetric]]]])
  have call: "fork_choice_call sample_spec sample_valid sample_attacked"
    unfolding sample_attacked_def by (rule fc_invalidation [OF prod.collapse [symmetric]])
  have "map_option node_execution_status_of (get_block (fc_array sample_valid) 3) = Some (Valid 103)"
    "get_block (fc_array sample_attacked) 3 \<noteq> None" by code_simp+
  then obtain node node' where n: "get_block (fc_array sample_valid) 3 = Some node" "node_execution_status_of node = Valid 103"
    "get_block (fc_array sample_attacked) 3 = Some node'" by auto
  with verdicts_final [OF reach call n(1,3)] show ?thesis by auto
qed

text \<open>
  C38: Invalidating a block condemns exactly its branch. If no condemned block - the block itself, and
  everything below it except children that did not build on its payload - is Valid or irrelevant for
  execution, the operation succeeds and marks exactly the condemned blocks Invalid, each with its own
  payload hash, and changes nothing else; otherwise it reports an error.
\<close>

theorem invalidate_exactly_condemned:
  assumes "wf_array pa" "d < length (nodes pa)"
  shows "if \<forall>i. condemned pa d i \<longrightarrow> condemnable (node_execution_status_of (nodes pa ! i))
    then invalidate_node_and_descendants d pa = (Ok (), condemn (Collect (condemned pa d)) pa)
    else fst (invalidate_node_and_descendants d pa) \<noteq> Ok ()"
  by (rule invalidate_condemns [OF assms])

theorem invalidate_exactly_condemned_witness:
  "invalidate_node_and_descendants 2 sample_array = (Ok (), condemn (Collect (condemned sample_array 2)) sample_array) \<and>
   map node_is_invalid (nodes (snd (invalidate_node_and_descendants 2 sample_array))) = [False, False, True, True]"
proof -
  have eval: "fst (invalidate_node_and_descendants 2 sample_array) = Ok ()"
    "map node_is_invalid (nodes (snd (invalidate_node_and_descendants 2 sample_array))) = [False, False, True, True]"
    by code_simp+
  have "2 < length (nodes sample_array)" by (simp add: sample_array_def)
  from invalidate_exactly_condemned [OF sample_array_wf this] eval show ?thesis by (auto split: if_splits)
qed

section \<open>Pruning\<close>

text \<open>
  C39: Pruning keeps the tree from the finalized block on. When the finalized block is at or beyond the
  threshold, pruning succeeds, keeps exactly the blocks stored from it on, with their indices moved down,
  and the chain of every kept block is its old chain cut off at the first block that was removed, with
  the same roots and slots in the same order.
\<close>

theorem prune_keeps_chains:
  assumes "wf_array pa" "map_of (indices pa) finalized_root = Some n" "prune_threshold pa \<le> n"
  shows "fst (maybe_prune finalized_root pa) = Ok () \<and>
    map_of (indices (snd (maybe_prune finalized_root pa))) r =
      (case map_of (indices pa) r of Some i \<Rightarrow> if n \<le> i then Some (i - n) else None | None \<Rightarrow> None) \<and>
    iter_block_roots (snd (maybe_prune finalized_root pa)) r =
      takeWhile (\<lambda>(root, _). map_of (indices (snd (maybe_prune finalized_root pa))) root \<noteq> None) (iter_block_roots pa r)"
proof -
  have n: "n \<le> length (nodes pa)" using assms(2) wf_lookup [OF assms(1)] by simp
  have "maybe_prune finalized_root pa = (Ok (), pruned n pa)"
    using assms(2,3) by (simp add: maybe_prune_wf [OF assms(1)])
  then show ?thesis
    by (simp add: pruned_map_of [OF assms(1) n] iter_block_roots_def pruned_iter_nodes [OF assms(1) n] takeWhile_map comp_def)
qed

definition sample_prunable :: proto_array where
  "sample_prunable = sample_array\<lparr>prune_threshold := 2\<rparr>"

theorem prune_keeps_chains_witness:
  "fst (maybe_prune 3 sample_prunable) = Ok () \<and>
   iter_block_roots sample_prunable 4 = [(4, 9), (3, 2), (1, 0)] \<and>
   iter_block_roots (snd (maybe_prune 3 sample_prunable)) 4 =
     takeWhile (\<lambda>(root, _). map_of (indices (snd (maybe_prune 3 sample_prunable))) root \<noteq> None) (iter_block_roots sample_prunable 4) \<and>
   iter_block_roots (snd (maybe_prune 3 sample_prunable)) 4 = [(4, 9), (3, 2)]"
proof -
  have "wf_array sample_prunable" using sample_array_wf by (simp add: sample_prunable_def wf_array_def)
  moreover have "map_of (indices sample_prunable) 3 = Some 2" "prune_threshold sample_prunable \<le> 2"
    by (simp_all add: sample_prunable_def sample_array_def)
  ultimately have "fst (maybe_prune 3 sample_prunable) = Ok ()"
    "iter_block_roots (snd (maybe_prune 3 sample_prunable)) 4 =
     takeWhile (\<lambda>(root, _). map_of (indices (snd (maybe_prune 3 sample_prunable))) root \<noteq> None) (iter_block_roots sample_prunable 4)"
    using prune_keeps_chains [of sample_prunable 3 2 4] by blast+
  moreover have "iter_block_roots sample_prunable 4 = [(4, 9), (3, 2), (1, 0)]"
    "iter_block_roots (snd (maybe_prune 3 sample_prunable)) 4 = [(4, 9), (3, 2)]" by code_simp+
  ultimately show ?thesis by blast
qed

section \<open>Weights\<close>

text \<open>
  C40: Weights are sums of votes. Suppose that no payload is invalid, that no block has the zero root and
  that every balance is below 2^63. If the weight of every block is the sum of the balances of the
  validators whose latest counted vote is for the block or a descendant, then this holds again after a
  head has been found with new balances, with votes that moved and with validators that were found
  equivocating, for the votes as they are then counted and the new balances.
\<close>

theorem find_head_keeps_vote_weights:
  assumes "wf_array (fc_array fc)" "all_scored (fc_array fc)"
    and "\<forall>b \<in> set (effective_balances (fc_balances fc)). uint b < 2 ^ 63" "\<forall>b \<in> set (effective_balances new_balances). uint b < 2 ^ 63"
    and "fc_find_head spec justified finalized new_balances boost_root equivocating current_slot fc = (Ok head, fc')"
    and "weights_are_votes fc"
  shows "weights_are_votes fc' \<and> fc_balances fc' = new_balances"
  by (rule fc_find_head_weights [OF assms])

definition sample_voted :: fork_choice where
  "sample_voted = \<lparr>fc_array = sample_array, fc_votes = [default_vote\<lparr>v_next_root := 4, v_next_slot := 9\<rparr>],
     fc_balances = \<lparr>effective_balances = [], total_effective_balance = 0, num_active_validators = 0, slashed_balances = []\<rparr>\<rparr>"

definition sample_scored :: "(hash256 \<times> payload_status, fork_choice_error) result \<times> fork_choice" where
  "sample_scored = fc_find_head sample_spec sample_checkpoint sample_checkpoint sample_balances 0 {} 10 sample_voted"

lemma sample_scored_evaluated:
  "map_prod id (\<lambda>fc. map node_weight (nodes (fc_array fc))) sample_scored = (Ok (4, Empty), [32, 0, 32, 32])"
  by code_simp

theorem find_head_keeps_vote_weights_witness:
  "weights_are_votes (snd sample_scored) \<and> map node_weight (nodes (fc_array (snd sample_scored))) = [32, 0, 32, 32]"
proof -
  have eq: "fc_array sample_voted = sample_array" "fc_votes sample_voted = [default_vote\<lparr>v_next_root := 4, v_next_slot := 9\<rparr>]"
    "effective_balances (fc_balances sample_voted) = []"
    by (simp_all add: sample_voted_def)
  have "all_scored sample_array" by code_simp
  moreover have "weights_are_votes sample_voted"
    by (simp add: weights_are_votes_def eq vote_weight_def sample_array_def default_vote_def sample_v17_def sample_v29_def
        less_Suc_eq all_conj_distrib)
  moreover obtain r fc' where rf: "sample_scored = (r, fc')" by (cases sample_scored)
  note evaluated = sample_scored_evaluated [unfolded rf map_prod_simp prod.inject id_apply]
  have scored: "sample_scored = (Ok (4, Empty), fc')" "map node_weight (nodes (fc_array fc')) = [32, 0, 32, 32]"
    using rf evaluated [THEN conjunct1] evaluated [THEN conjunct2] by (simp_all only:)
  ultimately have "weights_are_votes fc' \<and> fc_balances fc' = sample_balances"
    using sample_array_wf
    by (intro find_head_keeps_vote_weights [OF _ _ _ _ scored(1) [unfolded sample_scored_def]]) (simp_all add: eq)
  then show ?thesis unfolding scored(1) snd_conv using scored(2) by (rule conjunct1 [THEN conjI])
qed

end
