(* ===== verification/Spec2Isabelle.thy ===== *)
theory Spec2Isabelle
  imports Slashing_Properties Swap_Or_Not_Shuffle Deposit_Tree Proto_Properties
begin

text \<open>
  Lighthouse is an Ethereum consensus client: a beacon node that follows the chain and chooses its head,
  and a validator client that signs blocks and attestations. This development models the parts of it
  that decide what is signed and what is the head, and the consensus computations below them, and proves
  that they are correct. File names are relative to \<open>src/\<close>.

  \<^bold>\<open>Conventions.\<close> \<open>Lighthouse_Prelude\<close> has the shared vocabulary. A \<open>Result\<close> is a sum with \<open>Err\<close> on the
  left, and Rust's \<open>?\<close> is \<open>bindE\<close>. Code that changes a state and may fail is an \<open>op\<close>: it returns its
  result together with the state it leaves behind, also when it fails. Integers that may overflow are
  words of their width; indices and lengths of vectors are natural numbers. A hash map is an association
  list with distinct keys. Panics and loops that would not end are values of the error types. Code of
  other crates is a parameter: the hash functions and the table of zero hashes of \<open>ethereum_hashing\<close>,
  the buffer writers of \<open>bytes\<close>, the bit vectors of \<open>ssz\<close>, the tree hash, and the outcomes of
  connecting to SQLite, beginning and committing. \<open>Consensus_Types\<close> has the records several parts read.

  \<^bold>\<open>Slashing protection\<close> (\<open>validator_client/slashing_protection/src/slashing_database.rs\<close> and its types,
  \<open>common/eip_3076/src/lib.rs\<close>, \<open>export_slashing_protection_for_keys\<close> of
  \<open>validator_client/lighthouse_validator_store/src/lib.rs\<close>).
  \<^item> \<open>Slashing_Database\<close>: the three tables as lists of rows and every public operation of
    \<open>SlashingDatabase\<close> on them. \<open>Slashing_Interchange\<close>: the interchange format, minification, import and
    export.
  \<^item> \<open>Slashing_Protection\<close>: when the rows protect a message signed before, and that no operation gives
    the protection up. \<open>Slashing_Maintenance\<close>: disabling keys, pruning and minification.
  \<^item> \<open>Signing_Guard\<close>: the contract of a state that guards signatures, as a locale over histories of
    calls; \<open>Slashing_Safety\<close> interprets it for blocks and for attestations.
  \<^item> \<open>Slashing_Properties\<close> (C1 to C15): no history of calls releases two slashable blocks, or two slashable
    attestations whose requests asked for the check (the code answers the others unseen); the exact
    conditions for accepting a block and an attestation; what import, export, pruning, minification,
    registration and disabling do, and that failed calls leave the database as it was.

  \<^bold>\<open>Shuffling\<close> (\<open>consensus/swap_or_not_shuffle/src\<close>). \<open>Swap_Or_Not_Shuffle\<close> (C16 to C19):
  \<open>compute_shuffled_index\<close> is a permutation, \<open>shuffle_list\<close> with its cached hashes and mirrored swaps is
  the same permutation applied to the whole list, the two directions undo each other, and the outcomes
  on all inputs. The locale \<open>swap_rounds\<close> is the contract of one round.

  \<^bold>\<open>Merkle trees and deposits\<close> (\<open>consensus/merkle_proof/src/lib.rs\<close>, \<open>consensus/int_to_bytes/src/lib.rs\<close>,
  \<open>consensus/types/src/deposit/deposit_tree_snapshot.rs\<close>,
  \<open>consensus/state_processing/src/common/deposit_data_tree.rs\<close>).
  \<^item> \<open>Merkle_Proof\<close> (C20 to C24): the sparse tree has the root of the complete padded tree, pushing,
    proving and verifying are exact, two proofs of different leaves hold a hash collision, and a tree restored from
    its finalized hashes can be filled again.
  \<^item> \<open>Deposit_Tree\<close> (C25 to C28): deposit proofs verify, a snapshot's root is the root of the restored
    tree, the case of finalizing zero deposits, and the integer encodings.

  \<^bold>\<open>Fork choice\<close> (\<open>consensus/proto_array/src\<close>, with the fork schedule of
  \<open>consensus/types/src/core/chain_spec.rs\<close> it reads).
  \<^item> Definitions. \<open>Proto_Node\<close>: statuses, nodes of both layouts, deltas, blocks, configuration.
    \<open>Proto_Array\<close>: the node array with ancestry, score changes, verdicts of the execution layer,
    registering blocks and pruning. \<open>Proto_Head\<close>: proposer boost, weights and tie-breakers, the filter of
    viable branches, the walk to the head, the leaves, the verdict of a node. \<open>Proto_Votes\<close>:
    \<open>ProtoArrayForkChoice\<close> with its votes, the score changes they make, proposer re-orgs, queries and the
    stored container. An index into the array is a natural number.
  \<^item> \<open>Proto_Invariant\<close>: the invariant of the array and that the operations keep it. The locale
    \<open>array_relation\<close> is the contract of a relation that holds for single changes of a node; it is
    interpreted by the shape of the tree and by the order of verdicts.
  \<^item> \<open>Proto_Reachable\<close>: the calls of the fork choice as a step relation, its reachable states, the stored
    container, finality of verdicts, and that the loops return. \<open>Proto_Ghost\<close>: the recursive filter and
    the fork choice rule as relations, and that the loops of \<open>Proto_Head\<close> compute them.
    \<open>Proto_Verdicts\<close>: the condemned blocks of an invalidation and the chains left by a pruning.
    \<open>Proto_Weights\<close>: the arithmetic of scores, subtree sums of deltas, and weights as sums of votes.
  \<^item> \<open>Proto_Properties\<close> (C29 to C40): well-formedness of every reachable state, termination of every loop,
    the filter, the refinement of the fork choice rule, soundness and success of finding the head,
    the stored container, exact score arithmetic, final verdicts, exact invalidation, pruning, and
    weights as sums of votes. The evaluations use the small tree of \<open>Proto_Sample\<close>.

  \<^bold>\<open>Fuel.\<close> A loop along parent links has fuel one more than the number of nodes, since an index is greater
  than the index of its parent. The stack of an invalidation has the same fuel, since a node is pushed
  once. The walk to the head visits every index at most twice and has fuel \<open>2 * n + 2\<close>; the loop over the
  leaves visits every index at most three times and has fuel \<open>3 * n + 1\<close>. C30 shows that none of them runs
  out in a reachable state.

  \<^bold>\<open>Not modelled.\<close> The networking, HTTP, database, key management and process management crates do I/O
  around the logic and have no content a theorem could be about without modelling their environment. The
  state transition, the beacon chain caches, the operation pool, the slasher and the networked sync state
  machines work on the beacon state with its SSZ and tree hashing from external crates and are outside
  the modelled core. Within the modelled crates: opening and migrating the SQLite file, JSON and SSZ
  encoding, the construction of justified balances from a beacon state, progressive Merkle trees,
  metrics, logging and debug output.
\<close>

end
